(* ===== verification/Prelude.thy ===== *)
theory Prelude
  imports Main "HOL-Library.Word" "HOL-Library.Sublist" "HOL-Library.Code_Target_Nat"
begin

text \<open>
  Shared vocabulary of the development: exceptions as values, \<open>size_t\<close> arithmetic, the parts of
  \<open>std::string\<close>, \<open><cctype>\<close> and \<open><istream>\<close> that several components use, and the generic
  lemmas about them.

  A C++ \<open>std::string\<close> or \<open>std::vector<char>\<close> is a \<^typ>\<open>string\<close> (a list of 8-bit characters).
  A thrown exception is an \<open>Inl\<close> of the sum type \<open>'a result\<close>. Undefined behaviour (an access out of
  bounds, a dereferenced null pointer) is the value \<open>None\<close> of an option type, so that absence of
  undefined behaviour is a theorem and not a convention.
\<close>

subsection \<open>Exceptions\<close>

datatype exn =
    RuntimeError string
  | InvalidArgument string
  | OutOfRange string
  | FormatError string
  | SystemError nat string
  | FutureError string
  | BadOptionalAccess

type_synonym 'a result = "exn + 'a"

named_theorems str_simps \<open>rewriting of positions, searches and splits of strings\<close>

subsection \<open>Arithmetic on \<open>size_t\<close>\<close>

text \<open>
  Sizes are natural numbers. Where the code subtracts two of them, the difference is taken as the
  64-bit machine takes it: it wraps around below zero.
\<close>

definition sz_sub :: "nat \<Rightarrow> nat \<Rightarrow> nat" where
  "sz_sub a b = (if b \<le> a then a - b else 2 ^ 64 + a - b)"

lemma sz_sub_le [simp]: "b \<le> a \<Longrightarrow> sz_sub a b = a - b"
  by (simp add: sz_sub_def)

lemma sz_sub_wrap: "a < b \<Longrightarrow> sz_sub a b = 2 ^ 64 + a - b"
  by (simp add: sz_sub_def)

subsection \<open>Ranges of a vector\<close>

text \<open>
  \<open>copy_into xs i ys\<close> is \<open>std::copy\<close> of the elements \<open>ys\<close> to the position \<open>i\<close> of \<open>xs\<close>, and
  \<open>read_range xs i n\<close> reads \<open>n\<close> elements from position \<open>i\<close>. Both are undefined past the end.
\<close>

definition copy_into :: "'a list \<Rightarrow> nat \<Rightarrow> 'a list \<Rightarrow> 'a list option" where
  "copy_into xs i ys =
     (if i + length ys \<le> length xs then Some (take i xs @ ys @ drop (i + length ys) xs) else None)"

definition read_range :: "'a list \<Rightarrow> nat \<Rightarrow> nat \<Rightarrow> 'a list option" where
  "read_range xs i n = (if i + n \<le> length xs then Some (take n (drop i xs)) else None)"

definition resize :: "'a list \<Rightarrow> nat \<Rightarrow> 'a \<Rightarrow> 'a list" where
  "resize xs n x = take n xs @ replicate (n - length xs) x"

lemma copy_into_Some:
  "i + length ys \<le> length xs \<Longrightarrow>
     copy_into xs i ys = Some (take i xs @ ys @ drop (i + length ys) xs)"
  by (simp add: copy_into_def)

lemma read_range_Some: "i + n \<le> length xs \<Longrightarrow> read_range xs i n = Some (take n (drop i xs))"
  by (simp add: read_range_def)

lemma length_resize [simp]: "length (resize xs n x) = n"
  by (simp add: resize_def)

lemma resize_grow: "length xs \<le> n \<Longrightarrow> resize xs n x = xs @ replicate (n - length xs) x"
  by (simp add: resize_def)

lemma take_drop_resize:
  "w \<le> length xs \<Longrightarrow> length xs \<le> n \<Longrightarrow> take (w - r) (drop r (resize xs n x)) = take (w - r) (drop r xs)"
  by (cases "r \<le> length xs") (simp_all add: resize_grow)

subsection \<open>Characters\<close>

text \<open>The character classes of the C locale.\<close>

definition isspace :: "char \<Rightarrow> bool" where
  "isspace c \<longleftrightarrow> c = CHR '' '' \<or> (9 \<le> (of_char c :: nat) \<and> (of_char c :: nat) \<le> 13)"

definition isdigit :: "char \<Rightarrow> bool" where
  "isdigit c \<longleftrightarrow> 48 \<le> (of_char c :: nat) \<and> (of_char c :: nat) \<le> 57"

abbreviation CR :: char where "CR \<equiv> CHR 0x0D"
abbreviation LF :: char where "LF \<equiv> CHR 0x0A"
abbreviation TAB :: char where "TAB \<equiv> CHR 0x09"

lemma isspace_simps [simp]:
  "isspace CHR '' ''" "isspace LF" "isspace CR" "isspace TAB"
  by (simp_all add: isspace_def)

lemma isspace_isdigit: "isdigit c \<Longrightarrow> \<not> isspace c"
  by (auto simp: isdigit_def isspace_def)

subsection \<open>Text at a position\<close>

text \<open>\<open>str_at s p t\<close>: the string \<open>s\<close> has the text \<open>t\<close> at position \<open>p\<close>.\<close>

definition str_at :: "string \<Rightarrow> nat \<Rightarrow> string \<Rightarrow> bool" where
  "str_at s p t \<longleftrightarrow> p + length t \<le> length s \<and> take (length t) (drop p s) = t"

lemma str_at_Nil [str_simps]: "str_at s p [] \<longleftrightarrow> p \<le> length s"
  by (simp add: str_at_def)

lemma str_at_Cons [str_simps]:
  "str_at s p (c # t) \<longleftrightarrow> p < length s \<and> s ! p = c \<and> str_at s (Suc p) t"
proof (cases "p < length s")
  case True
  then have "drop p s = s ! p # drop (Suc p) s" by (simp add: Cons_nth_drop_Suc)
  with True show ?thesis by (auto simp: str_at_def)
next
  case False
  then show ?thesis by (simp add: str_at_def)
qed

lemma str_at_append [str_simps]:
  "str_at s p (t @ u) \<longleftrightarrow> str_at s p t \<and> str_at s (p + length t) u"
  by (induction t arbitrary: p) (auto simp: str_simps dest: str_at_def [THEN iffD1])

lemma str_at_self [simp]: "str_at s 0 s"
  by (simp add: str_at_def)

lemma str_at_bound: "str_at s p t \<Longrightarrow> p + length t \<le> length s"
  by (simp add: str_at_def)

lemma str_at_substr: "str_at s p t \<Longrightarrow> take (length t) (drop p s) = t"
  by (simp add: str_at_def)

lemma str_at_nth: "str_at s p t \<Longrightarrow> i < length t \<Longrightarrow> s ! (p + i) = t ! i"
  by (metis add.commute add_leD2 nth_drop nth_take str_at_def)

subsection \<open>Decimal numerals\<close>

text \<open>The decimal text of a natural number and of an integer, as \<open>std::to_string\<close> writes it.\<close>

definition digit_char :: "nat \<Rightarrow> char" where
  "digit_char d = char_of (48 + d)"

definition digit_val :: "char \<Rightarrow> nat" where
  "digit_val c = of_char c - 48"

fun show_nat :: "nat \<Rightarrow> string" where
  "show_nat n = (if n < 10 then [digit_char n] else show_nat (n div 10) @ [digit_char (n mod 10)])"

definition show_int :: "int \<Rightarrow> string" where
  "show_int i = (if i < 0 then CHR ''-'' # show_nat (nat (- i)) else show_nat (nat i))"

definition read_nat :: "string \<Rightarrow> nat" where
  "read_nat s = foldl (\<lambda>a c. 10 * a + digit_val c) 0 s"

declare show_nat.simps [simp del]

lemma digit_val_char [simp]: "d < 10 \<Longrightarrow> digit_val (digit_char d) = d"
  by (simp add: digit_val_def digit_char_def of_char_of)

lemma isdigit_digit_char [simp]: "d < 10 \<Longrightarrow> isdigit (digit_char d)"
  by (simp add: isdigit_def digit_char_def of_char_of)

lemma digit_char_eval:
  "digit_char 0 = CHR ''0''" "digit_char (Suc 0) = CHR ''1''" "digit_char 2 = CHR ''2''" "digit_char 3 = CHR ''3''"
  "digit_char 4 = CHR ''4''" "digit_char 5 = CHR ''5''" "digit_char 6 = CHR ''6''" "digit_char 7 = CHR ''7''"
  "digit_char 8 = CHR ''8''" "digit_char 9 = CHR ''9''"
  by (simp_all add: digit_char_def char_of_def bit_Suc bit_0)

lemma show_nat_numeral:
  "show_nat 0 = ''0''" "show_nat (Suc 0) = ''1''"
  "show_nat (numeral k) =
     (if (numeral k :: nat) < 10 then [digit_char (numeral k)]
      else show_nat (numeral k div 10) @ [digit_char (numeral k mod 10)])"
  by (subst show_nat.simps, simp add: digit_char_eval)+

text \<open>Evaluation of decimal numerals.\<close>

lemmas numeral_eval = digit_char_eval show_nat_numeral

lemma show_nat_nonempty [simp]: "show_nat n \<noteq> []"
  by (subst show_nat.simps) simp

lemma show_nat_digits: "list_all isdigit (show_nat n)"
proof (induction n rule: show_nat.induct)
  case (1 n)
  then show ?case by (subst show_nat.simps) (simp add: list_all_iff)
qed

lemma read_nat_show_nat [simp]: "read_nat (show_nat n) = n"
proof (induction n rule: show_nat.induct)
  case (1 n)
  then show ?case by (subst show_nat.simps) (simp add: read_nat_def)
qed

lemma digit_char_0 [simp]: "digit_char 0 = CHR ''0''"
  by code_simp

lemma show_nat_mult10: "0 < n \<Longrightarrow> show_nat (10 * n) = show_nat n @ [CHR ''0'']"
  by (subst show_nat.simps) simp

lemma show_nat_shift: "0 < n \<Longrightarrow> show_nat (n * 10 ^ k) = show_nat n @ replicate k (CHR ''0'')"
proof (induction k)
  case 0
  then show ?case by simp
next
  case (Suc k)
  have "show_nat (n * 10 ^ Suc k) = show_nat (10 * (n * 10 ^ k))" by (simp add: ac_simps)
  also have "\<dots> = show_nat (n * 10 ^ k) @ [CHR ''0'']"
    using Suc.prems by (intro show_nat_mult10) simp
  finally show ?case using Suc by (simp add: replicate_append_same)
qed

lemma show_nat_bounds: "0 < n \<Longrightarrow> 10 ^ (length (show_nat n) - 1) \<le> n \<and> n < 10 ^ length (show_nat n)"
proof (induction n rule: show_nat.induct)
  case (1 n)
  show ?case
  proof (cases "n < 10")
    case True
    with 1 show ?thesis by (simp add: show_nat.simps [of n])
  next
    case False
    let ?l = "length (show_nat (n div 10))"
    have l: "length (show_nat n) = Suc ?l" using False by (simp add: show_nat.simps [of n])
    have IH: "10 ^ (?l - 1) \<le> n div 10" "n div 10 < 10 ^ ?l"
      using 1(1) False by (simp_all add: div_greater_zero_iff)
    obtain m where m: "?l = Suc m" by (cases ?l) auto
    have "10 ^ ?l \<le> n" using IH(1) m by (simp add: less_eq_div_iff_mult_less_eq)
    moreover have "n < 10 ^ Suc ?l" using IH(2) by (simp add: div_less_iff_less_mult)
    ultimately show ?thesis using l by simp
  qed
qed

end
