(* ===== verification/Buffer.thy ===== *)
theory Buffer
  imports Prelude
begin

text \<open>
  The network buffer of \<open>include/io/Buffer.hpp\<close>: a vector of bytes with a read and a write index,
  of which the first \<open>kCheapPrepend\<close> bytes are kept free. Every operation of the class is modelled,
  with its memory accesses checked: an operation whose copy or read would leave the vector, or whose
  \<open>std::copy\<close> would have its destination inside the source range, returns \<open>None\<close>. The system calls
  \<open>readv\<close> and \<open>write\<close> are arguments. The lemmas show that the class is a first-in first-out byte
  queue: no operation sequence touches memory outside the vector, loses, duplicates or reorders a byte.
\<close>

subsection \<open>State and operations\<close>

record buffer =
  buf :: string
  readIndex :: nat
  writeIndex :: nat

definition kCheapPrepend :: nat where
  "kCheapPrepend = 8"

definition new_Buffer :: "nat \<Rightarrow> buffer" where
  "new_Buffer initialSize =
     \<lparr>buf = replicate (kCheapPrepend + initialSize) (CHR 0x00),
      readIndex = kCheapPrepend, writeIndex = kCheapPrepend\<rparr>"

definition readableBytes :: "buffer \<Rightarrow> nat" where
  "readableBytes b = sz_sub (writeIndex b) (readIndex b)"

definition writableBytes :: "buffer \<Rightarrow> nat" where
  "writableBytes b = sz_sub (length (buf b)) (writeIndex b)"

definition prependableBytes :: "buffer \<Rightarrow> nat" where
  "prependableBytes b = readIndex b"

definition retrieveAll :: "buffer \<Rightarrow> buffer" where
  "retrieveAll b = b\<lparr>readIndex := kCheapPrepend, writeIndex := kCheapPrepend\<rparr>"

definition retrieve :: "nat \<Rightarrow> buffer \<Rightarrow> buffer" where
  "retrieve len b =
     (if len < readableBytes b then b\<lparr>readIndex := readIndex b + len\<rparr> else retrieveAll b)"

definition retrieveAsString :: "buffer \<Rightarrow> nat \<Rightarrow> (string \<times> buffer) option" where
  "retrieveAsString b len =
     (let len' = min len (readableBytes b) in
      case read_range (buf b) (readIndex b) len' of
        None \<Rightarrow> None
      | Some result \<Rightarrow> Some (result, retrieve len' b))"

definition retrieveAllAsString :: "buffer \<Rightarrow> (string \<times> buffer) option" where
  "retrieveAllAsString b = retrieveAsString b (readableBytes b)"

text \<open>
  In the second branch \<open>std::copy\<close> moves the readable bytes to the front. Its destination must not
  lie in the source range, so that case is undefined as well.
\<close>

definition makeSpace :: "nat \<Rightarrow> buffer \<Rightarrow> buffer option" where
  "makeSpace len b =
     (if writableBytes b + prependableBytes b < len + kCheapPrepend
      then Some (b\<lparr>buf := resize (buf b) (writeIndex b + len) (CHR 0x00)\<rparr>)
      else
        let readable = readableBytes b in
        if readIndex b \<le> kCheapPrepend \<and> kCheapPrepend < writeIndex b then None
        else
          case read_range (buf b) (readIndex b) readable of
            None \<Rightarrow> None
          | Some moved \<Rightarrow>
              (case copy_into (buf b) kCheapPrepend moved of
                 None \<Rightarrow> None
               | Some xs \<Rightarrow>
                   Some (b\<lparr>buf := xs, readIndex := kCheapPrepend,
                           writeIndex := kCheapPrepend + readable\<rparr>)))"

definition append_data :: "buffer \<Rightarrow> string \<Rightarrow> buffer option" where
  "append_data b data =
     (case (if length data > writableBytes b then makeSpace (length data) b else Some b) of
        None \<Rightarrow> None
      | Some b' \<Rightarrow>
          (case copy_into (buf b') (writeIndex b') data of
             None \<Rightarrow> None
           | Some xs \<Rightarrow> Some (b'\<lparr>buf := xs, writeIndex := writeIndex b' + length data\<rparr>)))"

text \<open>
  \<open>readv fd vecs iovcnt\<close> answers an error number (\<open>Inl\<close>) or the bytes that arrived (\<open>Inr\<close>), given the
  lengths of the vectors it may fill. The kernel fills the writable part of the buffer first and
  the stack array \<open>extraBuf\<close> after it; more bytes than the vectors hold would overrun them.
\<close>

definition extraBuf_size :: nat where
  "extraBuf_size = 65536"

definition readFd :: "(nat list \<Rightarrow> nat + string) \<Rightarrow> buffer \<Rightarrow> ((int \<times> nat option) \<times> buffer) option" where
  "readFd readv b =
     (let writable = writableBytes b;
          vecs = [writable, extraBuf_size];
          iovcnt = (if writable < extraBuf_size then 2 else 1)
      in case readv (take iovcnt vecs) of
           Inl errno \<Rightarrow> Some ((-1, Some errno), b)
         | Inr bytes \<Rightarrow>
             if sum_list (take iovcnt vecs) < length bytes then None else
             (case copy_into (buf b) (writeIndex b) (take writable bytes) of
                None \<Rightarrow> None
              | Some xs \<Rightarrow>
                  if length bytes \<le> writable
                  then Some ((int (length bytes), None),
                             b\<lparr>buf := xs, writeIndex := writeIndex b + length bytes\<rparr>)
                  else
                    (case append_data (b\<lparr>buf := xs, writeIndex := length xs\<rparr>) (drop writable bytes) of
                       None \<Rightarrow> None
                     | Some b' \<Rightarrow> Some ((int (length bytes), None), b'))))"

definition writeFd :: "(string \<Rightarrow> nat + nat) \<Rightarrow> buffer \<Rightarrow> ((int \<times> nat option) \<times> buffer) option" where
  "writeFd write b =
     (case read_range (buf b) (readIndex b) (readableBytes b) of
        None \<Rightarrow> None
      | Some data \<Rightarrow>
          (case write data of
             Inl errno \<Rightarrow> Some ((-1, Some errno), b)
           | Inr n \<Rightarrow> Some ((int n, None), retrieve n b)))"

subsection \<open>Invariant and contents\<close>

definition buffer_inv :: "buffer \<Rightarrow> bool" where
  "buffer_inv b \<longleftrightarrow>
     kCheapPrepend \<le> readIndex b \<and> readIndex b \<le> writeIndex b \<and> writeIndex b \<le> length (buf b)"

definition contents :: "buffer \<Rightarrow> string" where
  "contents b = take (writeIndex b - readIndex b) (drop (readIndex b) (buf b))"

named_theorems buffer_defs \<open>definitions of the buffer's observers\<close>

declare readableBytes_def [buffer_defs] writableBytes_def [buffer_defs]
  prependableBytes_def [buffer_defs] buffer_inv_def [buffer_defs]

lemma length_contents: "buffer_inv b \<Longrightarrow> length (contents b) = writeIndex b - readIndex b"
  by (auto simp: buffer_inv_def contents_def min_def)

lemma readableBytes_contents: "buffer_inv b \<Longrightarrow> readableBytes b = length (contents b)"
  by (auto simp: buffer_defs length_contents [unfolded buffer_inv_def])

lemma new_Buffer_inv [simp]: "buffer_inv (new_Buffer n)"
  by (simp add: buffer_inv_def new_Buffer_def kCheapPrepend_def)

lemma contents_new_Buffer [simp]: "contents (new_Buffer n) = []"
  by (simp add: contents_def new_Buffer_def)

lemma retrieveAll_contents [simp]: "contents (retrieveAll b) = []"
  by (simp add: contents_def retrieveAll_def)

lemma retrieveAll_inv: "buffer_inv b \<Longrightarrow> buffer_inv (retrieveAll b)"
  by (simp add: buffer_inv_def retrieveAll_def)

lemma retrieve_inv: "buffer_inv b \<Longrightarrow> buffer_inv (retrieve len b)"
  by (auto simp: retrieve_def retrieveAll_def buffer_defs)

lemma retrieve_contents: "buffer_inv b \<Longrightarrow> contents (retrieve len b) = drop len (contents b)"
  by (auto simp: retrieve_def retrieveAll_def buffer_defs contents_def drop_take add.commute)

lemma read_contents:
  assumes "buffer_inv b" "n \<le> length (contents b)"
  shows "read_range (buf b) (readIndex b) n = Some (take n (contents b))"
proof -
  have n: "n \<le> writeIndex b - readIndex b" using assms by (simp add: length_contents)
  moreover have "readIndex b + n \<le> length (buf b)" using n assms(1) by (auto simp: buffer_inv_def)
  ultimately show ?thesis by (simp add: read_range_Some contents_def min_def)
qed

lemma retrieveAsString_spec:
  assumes "buffer_inv b"
  shows "retrieveAsString b n = Some (take n (contents b), retrieve (min n (length (contents b))) b)"
  using assms
  by (simp add: retrieveAsString_def Let_def readableBytes_contents read_contents min_def)

subsection \<open>Appending\<close>

lemma makeSpace_spec:
  assumes inv: "buffer_inv b" and big: "len > writableBytes b"
  shows "\<exists>b'. makeSpace len b = Some b' \<and> buffer_inv b' \<and> contents b' = contents b \<and>
              len \<le> length (buf b') - writeIndex b'"
proof (cases "writableBytes b + prependableBytes b < len + kCheapPrepend")
  case True
  with inv big show ?thesis
    by (auto simp: makeSpace_def buffer_defs contents_def take_drop_resize)
next
  case False
  let ?xs = "take kCheapPrepend (buf b) @ contents b @ drop (kCheapPrepend + length (contents b)) (buf b)"
  have r: "kCheapPrepend < readIndex b"
    using False inv big by (auto simp: buffer_defs)
  have len: "length (contents b) = writeIndex b - readIndex b"
    using inv by (rule length_contents)
  have cp: "copy_into (buf b) kCheapPrepend (contents b) = Some ?xs"
    using inv r by (intro copy_into_Some) (auto simp: buffer_inv_def len)
  have ms: "makeSpace len b =
      Some (b\<lparr>buf := ?xs, readIndex := kCheapPrepend,
              writeIndex := kCheapPrepend + length (contents b)\<rparr>)"
    using False r read_contents [OF inv, of "length (contents b)"] cp
    by (simp add: makeSpace_def Let_def readableBytes_contents [OF inv])
  show ?thesis
    unfolding ms using False inv r len by (auto simp: buffer_defs contents_def)
qed

lemma append_fits:
  assumes inv: "buffer_inv b" and fits: "length data \<le> length (buf b) - writeIndex b"
  shows "\<exists>xs. copy_into (buf b) (writeIndex b) data = Some xs \<and>
           buffer_inv (b\<lparr>buf := xs, writeIndex := writeIndex b + length data\<rparr>) \<and>
           contents (b\<lparr>buf := xs, writeIndex := writeIndex b + length data\<rparr>) = contents b @ data"
proof -
  have "writeIndex b + length data \<le> length (buf b)"
    using inv fits by (auto simp: buffer_inv_def)
  moreover have "readIndex b \<le> writeIndex b" using inv by (simp add: buffer_inv_def)
  ultimately show ?thesis
    using inv by (auto simp: copy_into_Some buffer_inv_def contents_def Suc_diff_le drop_take)
qed

lemma makeSpace_length:
  assumes "buffer_inv b" "len > writableBytes b" "makeSpace len b = Some b'"
  shows "length (buf b') =
    (if length (contents b) + len + kCheapPrepend \<le> length (buf b)
     then length (buf b) else writeIndex b + len)"
proof (cases "writableBytes b + prependableBytes b < len + kCheapPrepend")
  case True
  with assms show ?thesis
    by (auto simp: makeSpace_def length_contents) (auto simp: buffer_defs)
next
  case False
  with assms have "length (buf b') = length (buf b)"
    by (auto simp: makeSpace_def copy_into_def Let_def split: if_splits option.splits)
  moreover have "length (contents b) + len + kCheapPrepend \<le> length (buf b)"
    using False assms(1) by (simp add: length_contents) (auto simp: buffer_defs)
  ultimately show ?thesis by simp
qed

lemma append_data_length:
  assumes inv: "buffer_inv b" and ap: "append_data b data = Some b'"
  shows "length (buf b') =
    (if length (contents b) + length data + kCheapPrepend \<le> length (buf b)
     then length (buf b) else writeIndex b + length data)"
proof -
  from ap obtain b1 where
    b1: "(if length data > writableBytes b then makeSpace (length data) b else Some b) = Some b1"
    and len: "length (buf b') = length (buf b1)"
    by (auto simp: append_data_def copy_into_def split: option.splits if_splits)
  show ?thesis
  proof (cases "length data > writableBytes b")
    case True
    with b1 len makeSpace_length [OF inv True] show ?thesis by simp
  next
    case False
    with b1 len inv show ?thesis
      by (simp add: length_contents) (auto simp: buffer_defs)
  qed
qed

lemma append_data_spec:
  assumes inv: "buffer_inv b"
  shows "\<exists>b'. append_data b data = Some b' \<and> buffer_inv b' \<and> contents b' = contents b @ data"
proof (cases "length data > writableBytes b")
  case True
  from makeSpace_spec [OF inv True] obtain b1 where
    b1: "makeSpace (length data) b = Some b1" "buffer_inv b1" "contents b1 = contents b"
      "length data \<le> length (buf b1) - writeIndex b1" by blast
  from append_fits [OF b1(2,4)] obtain xs where
    "copy_into (buf b1) (writeIndex b1) data = Some xs"
    "buffer_inv (b1\<lparr>buf := xs, writeIndex := writeIndex b1 + length data\<rparr>)"
    "contents (b1\<lparr>buf := xs, writeIndex := writeIndex b1 + length data\<rparr>) = contents b1 @ data" by blast
  with True b1 show ?thesis by (simp add: append_data_def)
next
  case False
  then have "length data \<le> length (buf b) - writeIndex b"
    using inv by (simp add: buffer_defs)
  from append_fits [OF inv this] False show ?thesis by (auto simp: append_data_def)
qed

subsection \<open>Reading from and writing to a descriptor\<close>

text \<open>What \<open>readv\<close> promises: it never transfers more than the vectors hold.\<close>

definition readv_ok :: "(nat list \<Rightarrow> nat + string) \<Rightarrow> bool" where
  "readv_ok readv \<longleftrightarrow> (\<forall>lens bytes. readv lens = Inr bytes \<longrightarrow> length bytes \<le> sum_list lens)"

text \<open>The vectors \<open>readFd\<close> offers to the kernel.\<close>

definition read_vecs :: "buffer \<Rightarrow> nat list" where
  "read_vecs b =
     take (if writableBytes b < extraBuf_size then 2 else 1) [writableBytes b, extraBuf_size]"

lemma readFd_error:
  "readv (read_vecs b) = Inl e \<Longrightarrow> readFd readv b = Some ((-1, Some e), b)"
  by (simp add: readFd_def read_vecs_def Let_def)

lemma readFd_data:
  assumes inv: "buffer_inv b" and ok: "readv_ok readv" and rd: "readv (read_vecs b) = Inr bytes"
  shows "\<exists>b'. readFd readv b = Some ((int (length bytes), None), b') \<and> buffer_inv b' \<and>
              contents b' = contents b @ bytes"
proof -
  let ?w = "writableBytes b"
  have w: "?w = length (buf b) - writeIndex b" and wi: "writeIndex b \<le> length (buf b)"
    using inv by (auto simp: buffer_defs)
  have sum: "\<not> sum_list (read_vecs b) < length bytes"
    using ok rd by (auto simp: readv_ok_def not_less)
  let ?d = "take ?w bytes"
  obtain xs where xs: "copy_into (buf b) (writeIndex b) ?d = Some xs"
    "buffer_inv (b\<lparr>buf := xs, writeIndex := writeIndex b + length ?d\<rparr>)"
    "contents (b\<lparr>buf := xs, writeIndex := writeIndex b + length ?d\<rparr>) = contents b @ ?d"
    using append_fits [OF inv, of ?d] w by auto
  have lxs: "length xs = length (buf b)"
    using xs(1) by (auto simp: copy_into_def split: if_splits)
  show ?thesis
  proof (cases "length bytes \<le> ?w")
    case True
    with xs rd sum show ?thesis by (simp add: readFd_def read_vecs_def Let_def)
  next
    case False
    then have full: "writeIndex b + length ?d = length xs" using w wi lxs by simp
    let ?b1 = "b\<lparr>buf := xs, writeIndex := length xs\<rparr>"
    from append_data_spec [of ?b1 "drop ?w bytes"] xs full obtain b2 where
      "append_data ?b1 (drop ?w bytes) = Some b2" "buffer_inv b2"
      "contents b2 = contents ?b1 @ drop ?w bytes" by auto
    with False xs full rd sum show ?thesis
      by (simp add: readFd_def read_vecs_def Let_def)
  qed
qed

lemma writeFd_spec:
  assumes inv: "buffer_inv b"
  shows "writeFd write b =
     (case write (contents b) of Inl e \<Rightarrow> Some ((-1, Some e), b)
      | Inr n \<Rightarrow> Some ((int n, None), retrieve n b))"
  using read_contents [OF inv, of "length (contents b)"]
  by (simp add: writeFd_def readableBytes_contents [OF inv])

subsection \<open>The byte queue the buffer implements\<close>

text \<open>
  The interface its clients rely on: every step takes some bytes in at the back and gives some
  bytes out at the front, and keeps the rest in order. The lemma lifts this to whole runs.
\<close>

fun run_steps :: "('op \<Rightarrow> 'b \<Rightarrow> (string \<times> string \<times> 'b) option) \<Rightarrow> 'op list \<Rightarrow> 'b \<Rightarrow>
    (string \<times> string \<times> 'b) option" where
  "run_steps step [] b = Some ([], [], b)"
| "run_steps step (op # ops) b =
     (case step op b of
        None \<Rightarrow> None
      | Some (i, out, b') \<Rightarrow>
          (case run_steps step ops b' of
             None \<Rightarrow> None
           | Some (ins, outs, b'') \<Rightarrow> Some (i @ ins, out @ outs, b'')))"

locale byte_queue =
  fixes inv :: "'b \<Rightarrow> bool"
    and bytes :: "'b \<Rightarrow> string"
    and step :: "'op \<Rightarrow> 'b \<Rightarrow> (string \<times> string \<times> 'b) option"
    and admissible :: "'op \<Rightarrow> bool"
  assumes step_conserves:
    "inv b \<Longrightarrow> admissible op \<Longrightarrow>
       \<exists>i out b'. step op b = Some (i, out, b') \<and> inv b' \<and> bytes b @ i = out @ bytes b'"
begin

lemma run_conserves:
  "inv b \<Longrightarrow> list_all admissible ops \<Longrightarrow>
     \<exists>i out b'. run_steps step ops b = Some (i, out, b') \<and> inv b' \<and> bytes b @ i = out @ bytes b'"
proof (induction ops arbitrary: b)
  case Nil
  then show ?case by simp
next
  case (Cons op ops)
  have adm: "admissible op" "list_all admissible ops" using Cons.prems by simp_all
  from step_conserves [OF Cons.prems(1) adm(1)] obtain i out b1 where
    s: "step op b = Some (i, out, b1)" "inv b1" "bytes b @ i = out @ bytes b1" by blast
  from Cons.IH [OF s(2) adm(2)] obtain ins outs b2 where
    r: "run_steps step ops b1 = Some (ins, outs, b2)" "inv b2" "bytes b1 @ ins = outs @ bytes b2" by blast
  have "bytes b @ i @ ins = (out @ outs) @ bytes b2"
    using s(3) r(3) by (metis append.assoc)
  with s r show ?case by auto
qed

end

text \<open>All operations of the class that move bytes, as steps; a descriptor error moves none.\<close>

datatype buf_op =
    Append string
  | Retrieve nat
  | RetrieveAll
  | RetrieveAsString nat
  | RetrieveAllAsString
  | ReadFd "nat list \<Rightarrow> nat + string"
  | WriteFd "string \<Rightarrow> nat + nat"

fun buffer_step :: "buf_op \<Rightarrow> buffer \<Rightarrow> (string \<times> string \<times> buffer) option" where
  "buffer_step (Append d) b = map_option (\<lambda>b'. (d, [], b')) (append_data b d)"
| "buffer_step (Retrieve n) b = Some ([], take n (contents b), retrieve n b)"
| "buffer_step RetrieveAll b = Some ([], contents b, retrieveAll b)"
| "buffer_step (RetrieveAsString n) b = map_option (\<lambda>(s, b'). ([], s, b')) (retrieveAsString b n)"
| "buffer_step RetrieveAllAsString b = map_option (\<lambda>(s, b'). ([], s, b')) (retrieveAllAsString b)"
| "buffer_step (ReadFd readv) b =
     map_option (\<lambda>(_, b'). (case readv (read_vecs b) of Inl _ \<Rightarrow> [] | Inr d \<Rightarrow> d, [], b')) (readFd readv b)"
| "buffer_step (WriteFd write) b =
     map_option (\<lambda>(_, b'). ([], case write (contents b) of Inl _ \<Rightarrow> [] | Inr n \<Rightarrow> take n (contents b), b'))
       (writeFd write b)"

fun op_ok :: "buf_op \<Rightarrow> bool" where
  "op_ok (ReadFd readv) = readv_ok readv"
| "op_ok _ = True"

lemma buffer_step_conserves:
  assumes inv: "buffer_inv b" and ok: "op_ok op"
  shows "\<exists>i out b'. buffer_step op b = Some (i, out, b') \<and> buffer_inv b' \<and>
                   contents b @ i = out @ contents b'"
proof (cases op)
  case (Append d)
  with append_data_spec [OF inv, of d] show ?thesis by auto
next
  case (Retrieve n)
  with inv show ?thesis by (simp add: retrieve_inv retrieve_contents)
next
  case RetrieveAll
  with inv show ?thesis by (simp add: retrieveAll_inv)
next
  case (RetrieveAsString n)
  with inv show ?thesis
    by (simp add: retrieveAsString_spec retrieve_inv retrieve_contents min_def)
next
  case RetrieveAllAsString
  with inv show ?thesis
    by (simp add: retrieveAllAsString_def retrieveAsString_spec retrieve_inv retrieve_contents
        readableBytes_contents)
next
  case (ReadFd readv)
  show ?thesis
  proof (cases "readv (read_vecs b)")
    case (Inl e)
    with ReadFd inv show ?thesis by (simp add: readFd_error)
  next
    case (Inr d)
    with ReadFd ok readFd_data [OF inv, of readv d] show ?thesis by auto
  qed
next
  case (WriteFd wr)
  with inv show ?thesis
    by (cases "wr (contents b)") (simp_all add: writeFd_spec retrieve_inv retrieve_contents)
qed

interpretation bq: byte_queue buffer_inv contents buffer_step op_ok
  by unfold_locales (rule buffer_step_conserves)

subsection \<open>Properties\<close>

text \<open>
  C1 (safety, FIFO): any sequence of buffer operations on a valid buffer runs without touching memory
  outside the vector, ends in a valid buffer, and the bytes given out followed by the bytes still held
  are the bytes held before followed by the bytes taken in, in order.
\<close>

theorem buffer_fifo:
  assumes "buffer_inv b" "list_all op_ok ops"
  shows "\<exists>i out b'. run_steps buffer_step ops b = Some (i, out, b') \<and> buffer_inv b' \<and>
           contents b @ i = out @ contents b'"
  using assms by (rule bq.run_conserves)

theorem buffer_fifo_witness:
  "\<exists>i out b'. run_steps buffer_step
      [Append ''hello'', Retrieve 2, ReadFd (\<lambda>lens. Inr (take (sum_list lens) ''abc'')),
       WriteFd (\<lambda>s. Inr (length s))] (new_Buffer 4) = Some (i, out, b') \<and>
     buffer_inv b' \<and> contents (new_Buffer 4) @ i = out @ contents b'"
  by (rule buffer_fifo) (simp_all add: readv_ok_def)

text \<open>
  C2 (functional, error path): reading from a descriptor returns the number of bytes that arrived and
  appends exactly these bytes to the contents, also when they overflow the writable part into the stack
  array; on an error it returns -1, reports the error number and leaves the buffer as it was.
\<close>

theorem readFd_correct:
  assumes "buffer_inv b" "readv_ok readv"
  shows "case readv (read_vecs b) of
      Inl e \<Rightarrow> readFd readv b = Some ((-1, Some e), b)
    | Inr bytes \<Rightarrow> \<exists>b'. readFd readv b = Some ((int (length bytes), None), b') \<and> buffer_inv b' \<and>
        contents b' = contents b @ bytes"
  using assms by (auto split: sum.split simp: readFd_error intro: readFd_data)

theorem readFd_correct_witness:
  "case Inr (replicate 10 CHR ''x'') of
      Inl e \<Rightarrow> readFd (\<lambda>lens. Inr (take (sum_list lens) (replicate 10 CHR ''x''))) (new_Buffer 4) =
        Some ((-1, Some (e::nat)), new_Buffer 4)
    | Inr bytes \<Rightarrow> \<exists>b'. readFd (\<lambda>lens. Inr (take (sum_list lens) (replicate 10 CHR ''x''))) (new_Buffer 4) =
        Some ((int (length bytes), None), b') \<and> buffer_inv b' \<and> contents b' = contents (new_Buffer 4) @ bytes"
proof -
  let ?rv = "\<lambda>lens. Inr (take (sum_list lens) (replicate 10 CHR ''x'')) :: nat + string"
  have "readv_ok ?rv" by (simp add: readv_ok_def)
  moreover have "read_vecs (new_Buffer 4) = [4, 65536]"
    by (simp add: read_vecs_def writableBytes_def new_Buffer_def kCheapPrepend_def extraBuf_size_def)
  ultimately show ?thesis
    using readFd_correct [of "new_Buffer 4" ?rv] by simp
qed

text \<open>
  Appending grows the vector only when the free space before and behind the contents,
  less the reserved prefix, cannot hold the data, and then to exactly the size it needs.
\<close>

lemma append_grows_only_when_needed:
  assumes "buffer_inv b" "append_data b data = Some b'"
  shows "length (buf b') =
    (if length (contents b) + length data + kCheapPrepend \<le> length (buf b)
     then length (buf b) else writeIndex b + length data)"
  using assms by (rule append_data_length)

lemma append_grows_only_when_needed_sample:
  "\<exists>b'. append_data (new_Buffer 2) ''abcde'' = Some b' \<and> length (buf b') = 13"
proof -
  obtain b' where b': "append_data (new_Buffer 2) ''abcde'' = Some b'"
    using append_data_spec [of "new_Buffer 2" "''abcde''"] by auto
  from append_grows_only_when_needed [OF _ b'] b' show ?thesis
    by (simp add: new_Buffer_def kCheapPrepend_def buffer_inv_def contents_def)
qed

end
