(* ===== verification/Double.thy ===== *)
theory Double
  imports Prelude
begin

text \<open>
  The part of \<open>double\<close> the library uses: conversion from integers, \<open>std::stod\<close> on decimal text, and
  \<open>operator<<\<close> in its three notations. A finite double is sign, significand and binary exponent, with
  the significand below \<open>2 ^ 53\<close> and the exponent between -1074 and 971; rounding is to nearest, ties
  to even. The lemmas show that integers of at most six digits survive printing and reading.
\<close>

subsection \<open>Values and rounding\<close>

datatype double = Fin bool nat int | Inf bool | NaN bool

fun bit_len :: "nat \<Rightarrow> nat" where
  "bit_len n = (if n = 0 then 0 else Suc (bit_len (n div 2)))"

definition round_half_even :: "nat \<Rightarrow> nat \<Rightarrow> nat" where
  "round_half_even num den =
     (let q = num div den; r = num mod den in
      if 2 * r < den \<or> (2 * r = den \<and> even q) then q else Suc q)"

text \<open>The fraction \<open>num / den\<close> divided by \<open>2 ^ e\<close>, and multiplied by \<open>10 ^ k\<close>.\<close>

definition scale2 :: "nat \<Rightarrow> nat \<Rightarrow> int \<Rightarrow> nat \<times> nat" where
  "scale2 num den e = (if 0 \<le> e then (num, den * 2 ^ nat e) else (num * 2 ^ nat (- e), den))"

definition scale10 :: "nat \<Rightarrow> nat \<Rightarrow> int \<Rightarrow> nat \<times> nat" where
  "scale10 num den k = (if 0 \<le> k then (num * 10 ^ nat k, den) else (num, den * 10 ^ nat (- k)))"

text \<open>The double nearest to \<open>num / den\<close>, and whether it is exact.\<close>

definition round_double :: "bool \<Rightarrow> nat \<Rightarrow> nat \<Rightarrow> double \<times> bool" where
  "round_double s num den =
     (if num = 0 then (Fin s 0 (-1074), True)
      else
        let k = int (bit_len num) - int (bit_len den);
            (n1, d1) = scale2 num den k;
            e = max (-1074) (if d1 \<le> n1 then k - 52 else k - 53);
            (n, d) = scale2 num den e;
            m = round_half_even n d;
            (m', e') = (if m = 2 ^ 53 then (2 ^ 52, e + 1) else (m, e))
        in (if 971 < e' then Inf s else Fin s m' e', d dvd n))"

definition double_of_int :: "int \<Rightarrow> double" where
  "double_of_int i = fst (round_double (i < 0) (nat \<bar>i\<bar>) 1)"

subsection \<open>\<open>std::stod\<close>\<close>

text \<open>
  \<open>stod\<close> on text made of digits, signs, a point and an exponent letter: the longest prefix that is a
  decimal numeral is converted, no digits at all is \<open>std::invalid_argument\<close>, and a value that overflows
  or that is subnormal and inexact is \<open>std::out_of_range\<close>.
\<close>

definition sign_prefix :: "string \<Rightarrow> bool \<times> string" where
  "sign_prefix t = (case t of [] \<Rightarrow> (False, [])
     | c # r \<Rightarrow> if c = CHR ''-'' then (True, r) else if c = CHR ''+'' then (False, r) else (False, t))"

definition exponent_part :: "string \<Rightarrow> int" where
  "exponent_part t = (case t of [] \<Rightarrow> 0
     | c # r \<Rightarrow> if c = CHR ''e'' \<or> c = CHR ''E''
               then let (neg, r') = sign_prefix r; ds = takeWhile isdigit r'
                    in if neg then - int (read_nat ds) else int (read_nat ds)
               else 0)"

definition fraction_part :: "string \<Rightarrow> string \<times> string" where
  "fraction_part t = (case t of [] \<Rightarrow> ([], [])
     | c # r \<Rightarrow> if c = CHR ''.'' then (takeWhile isdigit r, dropWhile isdigit r) else ([], t))"

definition stod :: "string \<Rightarrow> double result" where
  "stod t =
     (let (neg, t1) = sign_prefix t;
          ip = takeWhile isdigit t1;
          (fp, t3) = fraction_part (dropWhile isdigit t1)
      in if ip = [] \<and> fp = [] then Inl (InvalidArgument ''stod'')
         else
           let (num, den) = scale10 (read_nat (ip @ fp)) 1 (exponent_part t3 - int (length fp));
               (v, exact) = round_double neg num den
           in case v of
                Fin _ m _ \<Rightarrow> if m < 2 ^ 52 \<and> \<not> exact then Inl (OutOfRange ''stod'') else Inr v
              | _ \<Rightarrow> Inl (OutOfRange ''stod''))"

subsection \<open>Stream output\<close>

datatype floatfield = DefaultFloat | Fixed | Scientific

function neg_exp10 :: "nat \<Rightarrow> nat \<Rightarrow> nat" where
  "neg_exp10 num den = (if num = 0 \<or> den \<le> num then 0 else Suc (neg_exp10 (10 * num) den))"
  by pat_completeness auto
termination
  by (relation "measure (\<lambda>(num, den). den - num)") auto

declare neg_exp10.simps [simp del]

text \<open>The decimal exponent of a fraction and its \<open>p + 1\<close> leading digits, correctly rounded.\<close>

definition exp10 :: "nat \<Rightarrow> nat \<Rightarrow> int" where
  "exp10 num den =
     (if den \<le> num then int (length (show_nat (num div den)) - 1) else - int (neg_exp10 num den))"

definition sci_digits :: "nat \<Rightarrow> nat \<Rightarrow> nat \<Rightarrow> nat \<times> int" where
  "sci_digits p num den =
     (let x = exp10 num den; (n, d) = scale10 num den (int p - x); ds = round_half_even n d
      in if ds = 10 ^ (p + 1) then (10 ^ p, x + 1) else (ds, x))"

definition pad0 :: "nat \<Rightarrow> string \<Rightarrow> string" where
  "pad0 n s = replicate (n - length s) (CHR ''0'') @ s"

definition fixed_digits :: "nat \<Rightarrow> nat \<Rightarrow> nat \<Rightarrow> string \<times> string" where
  "fixed_digits p num den =
     (let (n, d) = scale10 num den (int p); s = pad0 (p + 1) (show_nat (round_half_even n d))
      in (take (length s - p) s, drop (length s - p) s))"

definition with_point :: "string \<Rightarrow> string \<Rightarrow> string" where
  "with_point ip fp = (if fp = [] then ip else ip @ CHR ''.'' # fp)"

definition strip0 :: "string \<Rightarrow> string" where
  "strip0 s = rev (dropWhile (\<lambda>c. c = CHR ''0'') (rev s))"

definition show_exp :: "int \<Rightarrow> string" where
  "show_exp x = CHR ''e'' # (if x < 0 then CHR ''-'' else CHR ''+'') # pad0 2 (show_nat (nat \<bar>x\<bar>))"

definition show_fixed :: "nat \<Rightarrow> nat \<Rightarrow> nat \<Rightarrow> string" where
  "show_fixed p num den = (let (ip, fp) = fixed_digits p num den in with_point ip fp)"

definition show_sci :: "nat \<Rightarrow> nat \<Rightarrow> nat \<Rightarrow> string" where
  "show_sci p num den =
     (let (ds, x) = sci_digits p num den; s = pad0 (p + 1) (show_nat ds)
      in with_point (take 1 s) (drop 1 s) @ show_exp x)"

definition show_general :: "nat \<Rightarrow> nat \<Rightarrow> nat \<Rightarrow> string" where
  "show_general p num den =
     (let p' = max 1 p; (ds, x) = sci_digits (p' - 1) num den
      in if - 4 \<le> x \<and> x < int p'
         then let (ip, fp) = fixed_digits (nat (int p' - 1 - x)) num den in with_point ip (strip0 fp)
         else let s = pad0 p' (show_nat ds) in with_point (take 1 s) (strip0 (drop 1 s)) @ show_exp x)"

definition print_mag :: "floatfield \<Rightarrow> nat \<Rightarrow> nat \<Rightarrow> nat \<Rightarrow> string" where
  "print_mag ff p num den =
     (case ff of DefaultFloat \<Rightarrow> show_general p num den
      | Fixed \<Rightarrow> show_fixed p num den
      | Scientific \<Rightarrow> show_sci p num den)"

definition toupper :: "char \<Rightarrow> char" where
  "toupper c = (if 97 \<le> (of_char c :: nat) \<and> (of_char c :: nat) \<le> 122 then char_of (of_char c - 32 :: nat) else c)"

fun print_double :: "floatfield \<Rightarrow> bool \<Rightarrow> nat \<Rightarrow> double \<Rightarrow> string" where
  "print_double ff upper p (Fin s m e) =
     (let (num, den) = scale2 m 1 (- e)
      in (if s then ''-'' else []) @ map (if upper then toupper else (\<lambda>c. c)) (print_mag ff p num den))"
| "print_double ff upper p (Inf s) =
     (if s then ''-'' else []) @ (if upper then ''INF'' else ''inf'')"
| "print_double ff upper p (NaN s) =
     (if s then ''-'' else []) @ (if upper then ''NAN'' else ''nan'')"

text \<open>A fresh \<open>std::ostringstream\<close> prints with six significant digits.\<close>

definition show_double :: "double \<Rightarrow> string" where
  "show_double d = print_double DefaultFloat False 6 d"

subsection \<open>Integers survive printing and reading\<close>

declare bit_len.simps [simp del]

lemma bit_len_numeral:
  "bit_len 0 = 0" "bit_len (Suc 0) = 1" "bit_len (numeral k) = Suc (bit_len (numeral k div 2))"
  by (simp_all add: bit_len.simps)

lemma neg_exp10_numeral:
  "neg_exp10 (numeral k) (numeral l) =
     (if numeral l \<le> (numeral k :: nat) then 0 else Suc (neg_exp10 (10 * numeral k) (numeral l)))"
  by (subst neg_exp10.simps) simp

text \<open>Evaluation of conversions on concrete numbers.\<close>

lemmas double_eval = numeral_eval bit_len_numeral neg_exp10_numeral double_of_int_def round_double_def
  scale2_def scale10_def round_half_even_def show_double_def print_mag_def show_general_def sci_digits_def
  exp10_def fixed_digits_def with_point_def strip0_def show_exp_def pad0_def Let_def

lemmas stod_eval = double_eval stod_def sign_prefix_def exponent_part_def fraction_part_def isdigit_def
  read_nat_def digit_val_def

lemma bit_len_pos: "0 < n \<Longrightarrow> 0 < bit_len n"
  by (simp add: bit_len.simps [of n])

lemma bit_len_bounds: "0 < n \<Longrightarrow> 2 ^ (bit_len n - 1) \<le> n \<and> n < 2 ^ bit_len n"
proof (induction n rule: bit_len.induct)
  case (1 n)
  show ?case
  proof (cases "n = 1")
    case True
    then show ?thesis by (simp add: bit_len.simps)
  next
    case False
    with 1 have IH: "2 ^ (bit_len (n div 2) - 1) \<le> n div 2" "n div 2 < 2 ^ bit_len (n div 2)"
      and pos: "0 < n div 2" by auto
    have l: "bit_len n = Suc (bit_len (n div 2))" using 1 by (simp add: bit_len.simps [of n])
    obtain j where j: "bit_len (n div 2) = Suc j" using bit_len_pos [OF pos] gr0_conv_Suc by blast
    show ?thesis using IH unfolding l j by auto
  qed
qed

lemma round_half_even_exact [simp]: "0 < d \<Longrightarrow> round_half_even (d * q) d = q"
  by (simp add: round_half_even_def)

lemma round_half_even_1 [simp]: "round_half_even n (Suc 0) = n"
  by (simp add: round_half_even_def)

text \<open>Integers below \<open>2 ^ 53\<close> are exact.\<close>

lemma round_double_int:
  assumes "0 < n" "n < 2 ^ 53"
  shows "\<exists>j. round_double s n 1 = (Fin s (n * 2 ^ j) (- int j), True)"
proof -
  obtain k where k: "bit_len n = Suc k" using bit_len_pos [OF assms(1)] gr0_conv_Suc by blast
  from bit_len_bounds [OF assms(1)] k have b: "2 ^ k \<le> n" "n < 2 ^ Suc k" by auto
  have k52: "k \<le> 52"
  proof (rule ccontr)
    assume "\<not> k \<le> 52"
    then have "(2::nat) ^ 53 \<le> 2 ^ k" by (intro power_increasing) auto
    with b(1) assms(2) show False by simp
  qed
  have one: "bit_len 1 = 1" by (simp add: bit_len.simps)
  have s1: "scale2 n 1 (int k) = (n, 2 ^ k)" by (simp add: scale2_def)
  let ?j = "52 - k"
  have e: "int k - 52 = - int ?j" using k52 by simp
  have s2: "scale2 n 1 (- int ?j) = (n * 2 ^ ?j, 1)" by (simp add: scale2_def del: of_nat_diff)
  have "n * 2 ^ ?j < 2 ^ Suc k * 2 ^ ?j" using b(2) by simp
  also have "\<dots> = 2 ^ 53" using k52 by (simp flip: power_add)
  finally have lt: "n * 2 ^ ?j \<noteq> 2 ^ 53" by simp
  have mx: "max (-1074) (- int ?j) = - int ?j" by simp
  have "round_double s n 1 = (Fin s (n * 2 ^ ?j) (- int ?j), True)"
    using assms(1) b(1) lt unfolding round_double_def
    by (simp add: k one [unfolded One_nat_def] s1 [unfolded One_nat_def] e s2 [unfolded One_nat_def] mx
        del: of_nat_diff)
  then show ?thesis by blast
qed

lemma length_show_nat_le: "n < 10 ^ Suc k \<Longrightarrow> length (show_nat n) \<le> Suc k"
proof (cases "n = 0")
  case True
  then show ?thesis by (simp add: show_nat.simps)
next
  case False
  assume n: "n < 10 ^ Suc k"
  have "(10::nat) ^ (length (show_nat n) - 1) < 10 ^ Suc k"
    using show_nat_bounds [of n] False n by (meson le_less_trans neq0_conv)
  then show ?thesis by (subst (asm) power_strict_increasing_iff) auto
qed

lemma show_general_int:
  assumes n: "0 < n" "n < 10 ^ 6"
  shows "show_general 6 (n * 2 ^ j) (2 ^ j) = show_nat n"
proof -
  define l where "l = length (show_nat n) - 1"
  have len: "length (show_nat n) = Suc l" unfolding l_def by (cases "show_nat n") auto
  have l5: "l \<le> 5" using length_show_nat_le [of n 5] n(2) len by simp
  have x: "exp10 (n * 2 ^ j) (2 ^ j) = int l" using n(1) by (simp add: exp10_def l_def)
  define p where "p = 5 - l"
  have p: "int 5 - int l = int p" using l5 by (simp add: p_def)
  have sc: "scale10 (n * 2 ^ j) (2 ^ j) (int p) = (2 ^ j * (n * 10 ^ p), 2 ^ j)"
    by (simp add: scale10_def ac_simps)
  have "n < 10 ^ Suc l" using show_nat_bounds [OF n(1)] len by simp
  then have "n * 10 ^ p < 10 ^ Suc l * 10 ^ p" by simp
  also have "\<dots> = 10 ^ 6" using l5 by (simp add: p_def flip: power_add)
  finally have lt: "n * 10 ^ p \<noteq> 10 ^ 6" by simp
  have sd: "sci_digits 5 (n * 2 ^ j) (2 ^ j) = (n * 10 ^ p, int l)"
    using lt p by (simp add: sci_digits_def x sc)
  have "show_nat (n * 10 ^ p) = show_nat n @ replicate p (CHR ''0'')"
    by (rule show_nat_shift [OF n(1)])
  then have fd: "fixed_digits p (n * 2 ^ j) (2 ^ j) = (show_nat n, replicate p (CHR ''0''))"
    by (simp add: fixed_digits_def sc pad0_def len)
  have "nat (int 6 - 1 - int l) = p" using l5 by (simp add: p_def)
  then show ?thesis
    using l5 sd fd by (simp add: show_general_def Let_def with_point_def strip0_def)
qed

lemma show_nat_0 [simp]: "show_nat 0 = ''0''"
  by (simp add: show_nat.simps)

lemma show_general_zero:
  assumes d: "0 < d"
  shows "show_general 6 0 d = ''0''"
proof -
  have r: "round_half_even 0 d = 0" using d by (simp add: round_half_even_def)
  have sd: "sci_digits 5 0 d = (0, 0)"
    using d by (simp add: sci_digits_def exp10_def neg_exp10.simps scale10_def r)
  have "replicate 4 (CHR ''0'') = ''0000''" by (simp add: numeral_eq_Suc)
  then have fd: "fixed_digits 5 0 d = (''0'', ''00000'')"
    by (simp add: fixed_digits_def scale10_def pad0_def r)
  show ?thesis using sd fd by (simp add: show_general_def strip0_def with_point_def)
qed

definition small_int :: "double \<Rightarrow> bool" where
  "small_int d \<longleftrightarrow> (\<exists>i. \<bar>i\<bar> < 10 ^ 6 \<and> d = double_of_int i)"

lemma show_double_int:
  assumes "\<bar>i\<bar> < 10 ^ 6"
  shows "show_double (double_of_int i) = show_int i"
proof (cases "i = 0")
  case True
  then show ?thesis
    by (simp add: show_double_def double_of_int_def round_double_def scale2_def show_int_def print_mag_def
        show_general_zero)
next
  case False
  define n where "n = nat \<bar>i\<bar>"
  have n: "0 < n" "n < 10 ^ 6" using False assms by (auto simp: n_def nat_less_iff)
  have "n < 2 ^ 53" using n(2) by simp
  from round_double_int [OF n(1) this] obtain j where
    j: "round_double (i < 0) n 1 = (Fin (i < 0) (n * 2 ^ j) (- int j), True)" by blast
  have "scale2 (n * 2 ^ j) 1 (int j) = (n * 2 ^ j, 2 ^ j)" by (simp add: scale2_def)
  then have "show_double (double_of_int i) = (if i < 0 then ''-'' else []) @ show_nat n"
    using show_general_int [OF n, of j] j
    by (simp add: show_double_def double_of_int_def print_mag_def flip: n_def)
  then show ?thesis using False by (auto simp: show_int_def n_def)
qed

lemma takeWhile_digits: "list_all isdigit s \<Longrightarrow> takeWhile isdigit s = s \<and> dropWhile isdigit s = []"
  by (induction s) auto

lemma sign_prefix_show_int: "sign_prefix (show_int i) = (i < 0, show_nat (nat \<bar>i\<bar>))"
proof -
  obtain c r where cr: "show_nat (nat i) = c # r" by (cases "show_nat (nat i)") auto
  moreover have "isdigit c" using show_nat_digits [of "nat i"] by (simp add: cr)
  then have "c \<noteq> CHR ''-''" "c \<noteq> CHR ''+''" by (auto simp: isdigit_def)
  ultimately show ?thesis by (auto simp: sign_prefix_def show_int_def)
qed

lemma stod_show_int:
  assumes "\<bar>i\<bar> < 2 ^ 53"
  shows "stod (show_int i) = Inr (double_of_int i)"
proof -
  let ?n = "nat \<bar>i\<bar>"
  have tw: "takeWhile isdigit (show_nat ?n) = show_nat ?n" "dropWhile isdigit (show_nat ?n) = []"
    using takeWhile_digits [OF show_nat_digits] by auto
  have ex: "\<exists>m e. round_double (i < 0) ?n 1 = (Fin (i < 0) m e, True)"
  proof (cases "?n = 0")
    case True
    then show ?thesis by (simp add: round_double_def)
  next
    case False
    then show ?thesis using round_double_int [of ?n "i < 0"] assms by (auto simp: nat_less_iff)
  qed
  then show ?thesis
    by (auto simp: stod_def sign_prefix_show_int tw fraction_part_def exponent_part_def scale10_def
        double_of_int_def)
qed

end
