(* ===== verification/Json.thy ===== *)
theory Json
  imports Double
begin

text \<open>
  The JSON values of \<open>include/protocol/Json.hpp\<close>: the class hierarchy below \<open>JsonBase\<close> as a datatype
  and its virtual functions as functions on it. An owning pointer \<open>std::unique_ptr<JsonBase>\<close> is an
  option, \<open>None\<close> being the null pointer: array elements and object members may be null when they are
  pushed or inserted as such. Printing an object with a null member dereferences it, so the printers
  return an option; printing an array guards against null elements.
\<close>

subsection \<open>Values\<close>

datatype json_type = ObjectT | ArrayT | StringT | NumberT | BooleanT | NullT

datatype json =
    JsonString string
  | JsonNumber double
  | JsonBoolean bool
  | JsonNull
  | JsonObject "(string \<times> json option) list"
  | JsonArray "json option list"

type_synonym members = "(string \<times> json option) list"
type_synonym elements = "json option list"

fun getType :: "json \<Rightarrow> json_type" where
  "getType (JsonString _) = StringT"
| "getType (JsonNumber _) = NumberT"
| "getType (JsonBoolean _) = BooleanT"
| "getType JsonNull = NullT"
| "getType (JsonObject _) = ObjectT"
| "getType (JsonArray _) = ArrayT"

text \<open>The converters of the base class throw; each subclass overrides its own.\<close>

fun asObject :: "json \<Rightarrow> members result" where
  "asObject (JsonObject ms) = Inr ms"
| "asObject _ = Inl (RuntimeError ''Not an object'')"

fun asArray :: "json \<Rightarrow> elements result" where
  "asArray (JsonArray es) = Inr es"
| "asArray _ = Inl (RuntimeError ''Not an array'')"

fun asString :: "json \<Rightarrow> string result" where
  "asString (JsonString s) = Inr s"
| "asString _ = Inl (RuntimeError ''Not a string'')"

fun asNumber :: "json \<Rightarrow> double result" where
  "asNumber (JsonNumber d) = Inr d"
| "asNumber _ = Inl (RuntimeError ''Not a number'')"

fun asBool :: "json \<Rightarrow> bool result" where
  "asBool (JsonBoolean b) = Inr b"
| "asBool _ = Inl (RuntimeError ''Not a boolean'')"

subsection \<open>Printing\<close>

abbreviation QUOTE :: char where "QUOTE \<equiv> CHR 0x22"
abbreviation BSLASH :: char where "BSLASH \<equiv> CHR 0x5C"

definition escape_char :: "char \<Rightarrow> string" where
  "escape_char c =
     (if c = QUOTE then [BSLASH, QUOTE]
      else if c = BSLASH then [BSLASH, BSLASH]
      else if c = LF then [BSLASH, CHR ''n'']
      else if c = CR then [BSLASH, CHR ''r'']
      else if c = TAB then [BSLASH, CHR ''t'']
      else [c])"

definition quote_string :: "string \<Rightarrow> string" where
  "quote_string v = QUOTE # concat (map escape_char v) @ [QUOTE]"

text \<open>
  \<open>toString\<close> of every class. The loops over members and elements carry the flag \<open>first\<close>. A member
  key is written between quotes as it is.
\<close>

fun toString :: "json \<Rightarrow> string option"
  and toString_members :: "bool \<Rightarrow> members \<Rightarrow> string option"
  and toString_elements :: "bool \<Rightarrow> elements \<Rightarrow> string option"
where
  "toString (JsonString s) = Some (quote_string s)"
| "toString (JsonNumber d) = Some (show_double d)"
| "toString (JsonBoolean b) = Some (if b then ''true'' else ''false'')"
| "toString JsonNull = Some ''null''"
| "toString (JsonObject ms) = map_option (\<lambda>r. ''{'' @ r @ ''}'') (toString_members True ms)"
| "toString (JsonArray es) = map_option (\<lambda>r. ''['' @ r @ '']'') (toString_elements True es)"
| "toString_members first [] = Some []"
| "toString_members first ((key, None) # ms) = None"
| "toString_members first ((key, Some v) # ms) =
     (case toString v of
        None \<Rightarrow> None
      | Some s \<Rightarrow>
          map_option (\<lambda>r. (if first then [] else '','') @ [QUOTE] @ key @ [QUOTE, CHR '':''] @ s @ r)
            (toString_members False ms))"
| "toString_elements first [] = Some []"
| "toString_elements first (None # es) =
     map_option (\<lambda>r. (if first then [] else '','') @ ''null'' @ r) (toString_elements False es)"
| "toString_elements first (Some v # es) =
     (case toString v of
        None \<Rightarrow> None
      | Some s \<Rightarrow>
          map_option (\<lambda>r. (if first then [] else '','') @ s @ r) (toString_elements False es))"

definition spaces :: "int \<Rightarrow> string" where
  "spaces n = replicate (nat n) (CHR '' '')"

text \<open>
  \<open>dump\<close> of every class: one member or element per line, indented. A negative \<open>indent\<close> falls back to
  \<open>toString\<close>. The comma follows every entry but the last. A negative width, which only a negative
  \<open>depth\<close> gives, makes the string constructor throw, and there is no result. Widths are assumed to fit
  an \<open>int\<close>.
\<close>

fun dump :: "int \<Rightarrow> int \<Rightarrow> json \<Rightarrow> string option"
  and dump_members :: "int \<Rightarrow> int \<Rightarrow> members \<Rightarrow> string option"
  and dump_elements :: "int \<Rightarrow> int \<Rightarrow> elements \<Rightarrow> string option"
where
  "dump indent depth (JsonObject ms) =
     (if indent < 0 then toString (JsonObject ms)
      else if depth * indent < 0 then None
      else map_option (\<lambda>r. ''{'' @ [LF] @ r @ spaces (depth * indent) @ ''}'')
             (dump_members indent depth ms))"
| "dump indent depth (JsonArray es) =
     (if indent < 0 then toString (JsonArray es)
      else if depth * indent < 0 then None
      else map_option (\<lambda>r. ''['' @ [LF] @ r @ spaces (depth * indent) @ '']'')
             (dump_elements indent depth es))"
| "dump indent depth v = toString v"
| "dump_members indent depth [] = Some []"
| "dump_members indent depth ((key, None) # ms) = None"
| "dump_members indent depth ((key, Some v) # ms) =
     (case dump indent (depth + 1) v of
        None \<Rightarrow> None
      | Some s \<Rightarrow>
          map_option (\<lambda>r. spaces ((depth + 1) * indent) @ [QUOTE] @ key @ [QUOTE, CHR '':'', CHR '' ''] @ s @
              (if ms \<noteq> [] then '','' else []) @ [LF] @ r)
            (dump_members indent depth ms))"
| "dump_elements indent depth [] = Some []"
| "dump_elements indent depth (None # es) =
     map_option (\<lambda>r. spaces ((depth + 1) * indent) @ ''null'' @ (if es \<noteq> [] then '','' else []) @ [LF] @ r)
       (dump_elements indent depth es)"
| "dump_elements indent depth (Some v # es) =
     (case dump indent (depth + 1) v of
        None \<Rightarrow> None
      | Some s \<Rightarrow>
          map_option (\<lambda>r. spaces ((depth + 1) * indent) @ s @ (if es \<noteq> [] then '','' else []) @ [LF] @ r)
            (dump_elements indent depth es))"

subsection \<open>Objects and arrays\<close>

fun contains :: "members \<Rightarrow> string \<Rightarrow> bool" where
  "contains [] key = False"
| "contains (m # ms) key = (fst m = key \<or> contains ms key)"

text \<open>
  A reference to a member is its position. The loop finds the first member with the key; if there is
  none, a null value is appended.
\<close>

fun find_key :: "members \<Rightarrow> string \<Rightarrow> nat option" where
  "find_key [] key = None"
| "find_key (m # ms) key = (if fst m = key then Some 0 else map_option Suc (find_key ms key))"

definition getRefForKeyCreate :: "members \<Rightarrow> string \<Rightarrow> nat \<times> members" where
  "getRefForKeyCreate ms key =
     (case find_key ms key of
        Some i \<Rightarrow> (i, ms)
      | None \<Rightarrow> (length ms, ms @ [(key, Some JsonNull)]))"

definition object_get :: "members \<Rightarrow> string \<Rightarrow> json option result" where
  "object_get ms key =
     (case find_key ms key of
        Some i \<Rightarrow> Inr (snd (ms ! i))
      | None \<Rightarrow> Inl (RuntimeError (''Key not found: '' @ key)))"

definition object_insert :: "members \<Rightarrow> string \<Rightarrow> json option \<Rightarrow> members" where
  "object_insert ms key val = ms @ [(key, val)]"

definition fill_null :: "json option \<Rightarrow> json option" where
  "fill_null e = (case e of None \<Rightarrow> Some JsonNull | Some v \<Rightarrow> Some v)"

definition getElementRefCreate :: "elements \<Rightarrow> nat \<Rightarrow> nat \<times> elements" where
  "getElementRefCreate es idx =
     (let es1 = (if length es \<le> idx then map fill_null (resize es (idx + 1) None) else es)
      in (idx, es1[idx := fill_null (es1 ! idx)]))"

definition array_get :: "elements \<Rightarrow> nat \<Rightarrow> json option result" where
  "array_get es idx =
     (if length es \<le> idx then Inl (RuntimeError ''Array index out of range'') else Inr (es ! idx))"

definition array_push :: "elements \<Rightarrow> json option \<Rightarrow> elements" where
  "array_push es v = es @ [v]"

subsection \<open>Lemmas on lookup\<close>

lemma contains_find_key: "contains ms key \<longleftrightarrow> find_key ms key \<noteq> None"
  by (induction ms) auto

lemma find_key_map_of: "map_option (\<lambda>i. snd (ms ! i)) (find_key ms key) = map_of ms key"
proof (induction ms)
  case (Cons m ms)
  then show ?case by (cases m) (auto simp: option.map_comp comp_def)
qed simp

lemma find_key_Some: "find_key ms key = Some i \<Longrightarrow> i < length ms \<and> fst (ms ! i) = key"
  by (induction ms arbitrary: i) (auto split: if_splits)

lemma find_key_append_new: "find_key ms key = None \<Longrightarrow> find_key (ms @ [(key, v)]) key = Some (length ms)"
  by (induction ms) (auto split: if_splits)

lemma find_key_append_other: "key \<noteq> key' \<Longrightarrow> find_key (ms @ [(key', v)]) key = find_key ms key"
  by (induction ms) auto

lemma find_key_update: "i < length ms \<Longrightarrow> fst (ms ! i) = fst m \<Longrightarrow> find_key (ms[i := m]) key = find_key ms key"
  by (induction ms arbitrary: i) (auto simp: nth_Cons' list_update.simps split: nat.splits if_splits)

lemma getRefForKeyCreate_spec:
  assumes "getRefForKeyCreate ms key = (i, ms')"
  shows "find_key ms' key = Some i" and "i < length ms'" and "fst (ms' ! i) = key"
    and "find_key ms key = None \<Longrightarrow> snd (ms' ! i) = Some JsonNull"
    and "key' \<noteq> key \<Longrightarrow> map_of ms' key' = map_of ms key'"
  using assms find_key_Some [of ms key]
  by (auto simp: getRefForKeyCreate_def find_key_append_new map_add_def split: option.splits)

lemma length_getElementRefCreate:
  "getElementRefCreate es idx = (i, es') \<Longrightarrow> i = idx \<and> idx < length es' \<and> length es' = max (length es) (idx + 1)"
  by (auto simp: getElementRefCreate_def Let_def max_def)

end
