(* ===== verification/JsonValue.thy ===== *)
theory JsonValue
  imports Json
begin

text \<open>
  The proxy class \<open>JsonValue\<close> of \<open>include/protocol/Json.hpp\<close>: a pointer to an owning pointer somewhere
  in a document. The document is the slot at its root and the pointer is the path of positions that
  leads to the slot it addresses; every operation takes and returns the document. A path that leads
  nowhere is a dangling pointer and makes the operation undefined (\<open>None\<close>). What happens to other
  proxies when a vector reallocates is outside the model: it follows one chain of accesses at a time,
  the way \<open>root["a"]["b"] = v\<close> is evaluated. Positions are below the largest \<open>size_t\<close>, for which \<open>idx + 1\<close>
  would wrap, and the null \<open>ref_ptr\<close> that the constructor rejects is not representable.
\<close>

subsection \<open>Slots\<close>

datatype ref_step = MemberAt nat | ElementAt nat

type_synonym json_ref = "ref_step list"

fun slot_get :: "json option \<Rightarrow> json_ref \<Rightarrow> json option option" where
  "slot_get s [] = Some s"
| "slot_get (Some (JsonObject ms)) (MemberAt i # p) = (if i < length ms then slot_get (snd (ms ! i)) p else None)"
| "slot_get (Some (JsonArray es)) (ElementAt i # p) = (if i < length es then slot_get (es ! i) p else None)"
| "slot_get s p = None"

fun slot_set :: "json option \<Rightarrow> json_ref \<Rightarrow> json option \<Rightarrow> json option option" where
  "slot_set s [] v = Some v"
| "slot_set (Some (JsonObject ms)) (MemberAt i # p) v =
     (if i < length ms
      then map_option (\<lambda>s'. Some (JsonObject (ms[i := (fst (ms ! i), s')]))) (slot_set (snd (ms ! i)) p v)
      else None)"
| "slot_set (Some (JsonArray es)) (ElementAt i # p) v =
     (if i < length es
      then map_option (\<lambda>s'. Some (JsonArray (es[i := s']))) (slot_set (es ! i) p v)
      else None)"
| "slot_set s p v = None"

subsection \<open>Operations of the proxy\<close>

text \<open>The default constructor owns a fresh empty object; the other one fills a null slot.\<close>

definition new_JsonValue :: "json option \<times> json_ref" where
  "new_JsonValue = (Some (JsonObject []), [])"

definition jv_wrap :: "json option \<Rightarrow> json_ref \<Rightarrow> (json option \<times> json_ref) option" where
  "jv_wrap doc r =
     (case slot_get doc r of
        None \<Rightarrow> None
      | Some None \<Rightarrow> map_option (\<lambda>d. (d, r)) (slot_set doc r (Some JsonNull))
      | Some (Some _) \<Rightarrow> Some (doc, r))"

definition jv_get :: "json option \<Rightarrow> json_ref \<Rightarrow> json option option" where
  "jv_get doc r = slot_get doc r"

definition jv_type :: "json option \<Rightarrow> json_ref \<Rightarrow> json_type option" where
  "jv_type doc r = map_option (\<lambda>s. case s of None \<Rightarrow> NullT | Some v \<Rightarrow> getType v) (jv_get doc r)"

definition assignString :: "json option \<Rightarrow> json_ref \<Rightarrow> string \<Rightarrow> json option option" where
  "assignString doc r s = slot_set doc r (Some (JsonString s))"

definition assignNumber :: "json option \<Rightarrow> json_ref \<Rightarrow> double \<Rightarrow> json option option" where
  "assignNumber doc r d = slot_set doc r (Some (JsonNumber d))"

definition assignBool :: "json option \<Rightarrow> json_ref \<Rightarrow> bool \<Rightarrow> json option option" where
  "assignBool doc r b = slot_set doc r (Some (JsonBoolean b))"

definition assignNull :: "json option \<Rightarrow> json_ref \<Rightarrow> json option option" where
  "assignNull doc r = slot_set doc r (Some JsonNull)"

definition assign_object :: "json option \<Rightarrow> json_ref \<Rightarrow> members \<Rightarrow> json option option" where
  "assign_object doc r ms = slot_set doc r (Some (JsonObject ms))"

definition assign_array :: "json option \<Rightarrow> json_ref \<Rightarrow> elements \<Rightarrow> json option option" where
  "assign_array doc r es = slot_set doc r (Some (JsonArray es))"

definition assign_ptr :: "json option \<Rightarrow> json_ref \<Rightarrow> json option \<Rightarrow> json option option" where
  "assign_ptr doc r up = slot_set doc r (fill_null up)"

fun default_of :: "json_type \<Rightarrow> json" where
  "default_of ObjectT = JsonObject []"
| "default_of ArrayT = JsonArray []"
| "default_of StringT = JsonString []"
| "default_of NumberT = JsonNumber (double_of_int 0)"
| "default_of BooleanT = JsonBoolean False"
| "default_of NullT = JsonNull"

definition ensureExistsAs :: "json_type \<Rightarrow> json option \<Rightarrow> json_ref \<Rightarrow> json option option" where
  "ensureExistsAs t doc r =
     (case jv_get doc r of
        None \<Rightarrow> None
      | Some (Some v) \<Rightarrow> if getType v = t then Some doc else slot_set doc r (Some (default_of t))
      | Some None \<Rightarrow> slot_set doc r (Some (default_of t)))"

definition ensureArray :: "json option \<Rightarrow> json_ref \<Rightarrow> json option option" where
  "ensureArray doc r = ensureExistsAs ArrayT doc r"

text \<open>The read accessors throw on a null slot and on a value of another type.\<close>

definition jv_read :: "(json \<Rightarrow> 'a result) \<Rightarrow> json option \<Rightarrow> json_ref \<Rightarrow> 'a result option" where
  "jv_read f doc r =
     map_option (\<lambda>s. case s of None \<Rightarrow> Inl (RuntimeError ''Value is null'') | Some v \<Rightarrow> f v) (jv_get doc r)"

definition jv_asString :: "json option \<Rightarrow> json_ref \<Rightarrow> string result option" where
  "jv_asString = jv_read asString"

definition jv_asNumber :: "json option \<Rightarrow> json_ref \<Rightarrow> double result option" where
  "jv_asNumber = jv_read asNumber"

definition jv_asBool :: "json option \<Rightarrow> json_ref \<Rightarrow> bool result option" where
  "jv_asBool = jv_read asBool"

text \<open>
  \<open>asObject\<close> and \<open>asArray\<close> return a reference into the document, here with the members or elements
  it refers to, after replacing a value of another type by an empty one.
\<close>

definition jv_asObject :: "json option \<Rightarrow> json_ref \<Rightarrow> (json option \<times> members) option" where
  "jv_asObject doc r =
     (case ensureExistsAs ObjectT doc r of
        None \<Rightarrow> None
      | Some doc1 \<Rightarrow>
          (case slot_get doc1 r of Some (Some (JsonObject ms)) \<Rightarrow> Some (doc1, ms) | _ \<Rightarrow> None))"

definition jv_asArray :: "json option \<Rightarrow> json_ref \<Rightarrow> (json option \<times> elements) option" where
  "jv_asArray doc r =
     (case ensureExistsAs ArrayT doc r of
        None \<Rightarrow> None
      | Some doc1 \<Rightarrow>
          (case slot_get doc1 r of Some (Some (JsonArray es)) \<Rightarrow> Some (doc1, es) | _ \<Rightarrow> None))"

definition index_key :: "json option \<Rightarrow> json_ref \<Rightarrow> string \<Rightarrow> (json option \<times> json_ref) option" where
  "index_key doc r key =
     (case jv_asObject doc r of
        None \<Rightarrow> None
      | Some (doc1, ms) \<Rightarrow>
          (let (i, ms') = getRefForKeyCreate ms key in
           case slot_set doc1 r (Some (JsonObject ms')) of
             None \<Rightarrow> None
           | Some doc2 \<Rightarrow> jv_wrap doc2 (r @ [MemberAt i])))"

definition index_pos :: "json option \<Rightarrow> json_ref \<Rightarrow> nat \<Rightarrow> (json option \<times> json_ref) option" where
  "index_pos doc r idx =
     (case jv_asArray doc r of
        None \<Rightarrow> None
      | Some (doc1, es) \<Rightarrow>
          (let (i, es') = getElementRefCreate es idx in
           case slot_set doc1 r (Some (JsonArray es')) of
             None \<Rightarrow> None
           | Some doc2 \<Rightarrow> jv_wrap doc2 (r @ [ElementAt i])))"

definition jv_push :: "json option \<Rightarrow> json_ref \<Rightarrow> json option \<Rightarrow> json option option" where
  "jv_push doc r v =
     (case ensureArray doc r of
        None \<Rightarrow> None
      | Some doc1 \<Rightarrow>
          (case jv_asArray doc1 r of
             None \<Rightarrow> None
           | Some (doc2, es) \<Rightarrow> slot_set doc2 r (Some (JsonArray (array_push es v)))))"

definition jv_toString :: "json option \<Rightarrow> json_ref \<Rightarrow> string option option" where
  "jv_toString doc r = map_option (\<lambda>s. case s of None \<Rightarrow> Some ''null'' | Some v \<Rightarrow> toString v) (jv_get doc r)"

definition jv_dump :: "int \<Rightarrow> int \<Rightarrow> json option \<Rightarrow> json_ref \<Rightarrow> string option option" where
  "jv_dump indent depth doc r =
     map_option (\<lambda>s. case s of None \<Rightarrow> Some ''null'' | Some v \<Rightarrow> dump indent depth v) (jv_get doc r)"

text \<open>A chain of subscripts, each a member name or a position, applied from left to right.\<close>

datatype key = Key string | Idx nat

fun navigate :: "json option \<Rightarrow> json_ref \<Rightarrow> key list \<Rightarrow> (json option \<times> json_ref) option" where
  "navigate doc r [] = Some (doc, r)"
| "navigate doc r (Key k # ks) =
     (case index_key doc r k of None \<Rightarrow> None | Some (doc', r') \<Rightarrow> navigate doc' r' ks)"
| "navigate doc r (Idx i # ks) =
     (case index_pos doc r i of None \<Rightarrow> None | Some (doc', r') \<Rightarrow> navigate doc' r' ks)"

definition assign_at :: "json option \<Rightarrow> key list \<Rightarrow> json \<Rightarrow> json option option" where
  "assign_at doc ks v =
     (case navigate doc [] ks of None \<Rightarrow> None | Some (doc', r) \<Rightarrow> slot_set doc' r (Some v))"

subsection \<open>Specification of an assignment along a chain\<close>

text \<open>
  \<open>jupdate ks v s\<close> is the document that \<open>root[k1]...[kn] = v\<close> should give, by recursion on the
  document and without pointers; \<open>jlookup\<close> reads a chain and changes nothing.
\<close>

definition members_of :: "json option \<Rightarrow> members" where
  "members_of s = (case s of Some (JsonObject ms) \<Rightarrow> ms | _ \<Rightarrow> [])"

definition elements_of :: "json option \<Rightarrow> elements" where
  "elements_of s = (case s of Some (JsonArray es) \<Rightarrow> es | _ \<Rightarrow> [])"

fun jupdate :: "key list \<Rightarrow> json \<Rightarrow> json option \<Rightarrow> json option" where
  "jupdate [] v s = Some v"
| "jupdate (Key k # ks) v s =
     (let (i, ms) = getRefForKeyCreate (members_of s) k
      in Some (JsonObject (ms[i := (fst (ms ! i), jupdate ks v (snd (ms ! i)))])))"
| "jupdate (Idx n # ks) v s =
     (let (i, es) = getElementRefCreate (elements_of s) n
      in Some (JsonArray (es[i := jupdate ks v (es ! i)])))"

fun jlookup :: "json option \<Rightarrow> key list \<Rightarrow> json option" where
  "jlookup s [] = s"
| "jlookup s (Key k # ks) =
     (case map_of (members_of s) k of None \<Rightarrow> None | Some s' \<Rightarrow> jlookup s' ks)"
| "jlookup s (Idx n # ks) =
     (if n < length (elements_of s) then jlookup (elements_of s ! n) ks else None)"

subsection \<open>Laws of slots\<close>

lemma slot_get_append:
  "slot_get s (p @ q) = (case slot_get s p of None \<Rightarrow> None | Some s' \<Rightarrow> slot_get s' q)"
  by (induction s p rule: slot_get.induct) auto

lemma slot_set_append:
  "slot_set s (p @ q) v =
     (case slot_get s p of
        None \<Rightarrow> None
      | Some s' \<Rightarrow> (case slot_set s' q v of None \<Rightarrow> None | Some s'' \<Rightarrow> slot_set s p s''))"
  by (induction s p rule: slot_get.induct) (auto split: option.splits)

lemma slot_set_defined: "slot_get s p = Some x \<Longrightarrow> \<exists>s'. slot_set s p v = Some s'"
  by (induction s p rule: slot_get.induct) (auto split: if_splits)

lemma slot_get_set: "slot_set s p v = Some s' \<Longrightarrow> slot_get s' p = Some v"
  by (induction s p v arbitrary: s' rule: slot_set.induct) (auto split: if_splits)

lemma slot_set_set: "slot_set s p v = Some s' \<Longrightarrow> slot_set s' p w = slot_set s p w"
  by (induction s p v arbitrary: s' rule: slot_set.induct) (auto split: if_splits)

lemma slot_set_same: "slot_get s p = Some v \<Longrightarrow> slot_set s p v = Some s"
  by (induction s p rule: slot_get.induct) (auto split: if_splits)

subsection \<open>The proxy implements the specification\<close>

lemma members_of_simps [simp]:
  "members_of (Some (JsonObject ms)) = ms" "members_of (fill_null s) = members_of s"
  by (auto simp: members_of_def fill_null_def split: option.splits)

lemma elements_of_simps [simp]:
  "elements_of (Some (JsonArray es)) = es" "elements_of (fill_null s) = elements_of s"
  by (auto simp: elements_of_def fill_null_def split: option.splits)

lemma jupdate_fill_null [simp]: "jupdate ks v (fill_null s) = jupdate ks v s"
  by (induction ks v s rule: jupdate.induct) simp_all

lemma getType_iff:
  "getType v = ObjectT \<longleftrightarrow> (\<exists>ms. v = JsonObject ms)" "getType v = ArrayT \<longleftrightarrow> (\<exists>es. v = JsonArray es)"
  by (cases v; simp)+

lemma jv_asObject_eq:
  assumes "slot_get doc r = Some s"
  shows "\<exists>d. slot_set doc r (Some (JsonObject (members_of s))) = Some d \<and> jv_asObject doc r = Some (d, members_of s)"
proof (cases "\<exists>ms. s = Some (JsonObject ms)")
  case True
  then show ?thesis
    using assms by (auto simp: jv_asObject_def ensureExistsAs_def jv_get_def slot_set_same)
next
  case False
  then have "members_of s = []" by (auto simp: members_of_def split: option.splits json.splits)
  moreover obtain d where d: "slot_set doc r (Some (JsonObject [])) = Some d"
    using slot_set_defined [OF assms] by blast
  ultimately show ?thesis
    using False assms slot_get_set [OF d]
    by (cases s) (auto simp: jv_asObject_def ensureExistsAs_def jv_get_def getType_iff)
qed

lemma jv_asArray_eq:
  assumes "slot_get doc r = Some s"
  shows "\<exists>d. slot_set doc r (Some (JsonArray (elements_of s))) = Some d \<and> jv_asArray doc r = Some (d, elements_of s)"
proof (cases "\<exists>es. s = Some (JsonArray es)")
  case True
  then show ?thesis
    using assms by (auto simp: jv_asArray_def ensureExistsAs_def jv_get_def slot_set_same)
next
  case False
  then have "elements_of s = []" by (auto simp: elements_of_def split: option.splits json.splits)
  moreover obtain d where d: "slot_set doc r (Some (JsonArray [])) = Some d"
    using slot_set_defined [OF assms] by blast
  ultimately show ?thesis
    using False assms slot_get_set [OF d]
    by (cases s) (auto simp: jv_asArray_def ensureExistsAs_def jv_get_def getType_iff)
qed

text \<open>Replacing the child of a slot, seen from the slot itself.\<close>

lemma slot_set_child:
  assumes "slot_set doc r S = Some d" and "slot_set S [st] x = Some S'"
  shows "slot_set d (r @ [st]) x = slot_set doc r S'"
  using assms by (simp add: slot_set_append slot_get_set slot_set_set)

lemma slot_get_child:
  assumes "slot_set doc r S = Some d"
  shows "slot_get d (r @ [st]) = slot_get S [st]"
  using assms by (simp add: slot_get_append slot_get_set)

lemma jv_wrap_eq:
  assumes "slot_get doc r = Some s"
  shows "\<exists>d. slot_set doc r (fill_null s) = Some d \<and> jv_wrap doc r = Some (d, r)"
  using assms slot_set_defined [OF assms, of "Some JsonNull"]
  by (cases s) (auto simp: jv_wrap_def fill_null_def slot_set_same)

lemma index_key_eq:
  assumes s: "slot_get doc r = Some s" and g: "getRefForKeyCreate (members_of s) k = (i, ms)"
  shows "\<exists>d. slot_set doc r (Some (JsonObject (ms[i := (fst (ms ! i), fill_null (snd (ms ! i)))]))) = Some d
             \<and> index_key doc r k = Some (d, r @ [MemberAt i])"
proof -
  obtain d1 where d1: "slot_set doc r (Some (JsonObject (members_of s))) = Some d1"
    "jv_asObject doc r = Some (d1, members_of s)"
    using jv_asObject_eq [OF s] by blast
  obtain d2 where d2: "slot_set d1 r (Some (JsonObject ms)) = Some d2"
    using slot_set_defined [OF slot_get_set [OF d1(1)]] by blast
  have i: "i < length ms" using getRefForKeyCreate_spec(2) [OF g] .
  then have "slot_get d2 (r @ [MemberAt i]) = Some (snd (ms ! i))"
    by (simp add: slot_get_child [OF d2])
  from jv_wrap_eq [OF this] obtain d where
    d: "slot_set d2 (r @ [MemberAt i]) (fill_null (snd (ms ! i))) = Some d"
    "jv_wrap d2 (r @ [MemberAt i]) = Some (d, r @ [MemberAt i])" by blast
  then show ?thesis
    using i d1 d2 g by (simp add: index_key_def slot_set_child [OF d2] slot_set_set [OF d1(1)])
qed

lemma index_pos_eq:
  assumes s: "slot_get doc r = Some s" and g: "getElementRefCreate (elements_of s) n = (i, es)"
  shows "\<exists>d. slot_set doc r (Some (JsonArray (es[i := fill_null (es ! i)]))) = Some d
             \<and> index_pos doc r n = Some (d, r @ [ElementAt i])"
proof -
  obtain d1 where d1: "slot_set doc r (Some (JsonArray (elements_of s))) = Some d1"
    "jv_asArray doc r = Some (d1, elements_of s)"
    using jv_asArray_eq [OF s] by blast
  obtain d2 where d2: "slot_set d1 r (Some (JsonArray es)) = Some d2"
    using slot_set_defined [OF slot_get_set [OF d1(1)]] by blast
  have i: "i < length es" using length_getElementRefCreate [OF g] by simp
  then have "slot_get d2 (r @ [ElementAt i]) = Some (es ! i)"
    by (simp add: slot_get_child [OF d2])
  from jv_wrap_eq [OF this] obtain d where
    d: "slot_set d2 (r @ [ElementAt i]) (fill_null (es ! i)) = Some d"
    "jv_wrap d2 (r @ [ElementAt i]) = Some (d, r @ [ElementAt i])" by blast
  then show ?thesis
    using i d1 d2 g by (simp add: index_pos_def slot_set_child [OF d2] slot_set_set [OF d1(1)])
qed

lemma navigate_assign:
  assumes "slot_get doc r = Some s"
  shows "\<exists>d r'. navigate doc r ks = Some (d, r') \<and> slot_set d r' (Some v) = slot_set doc r (jupdate ks v s)"
  using assms
proof (induction ks arbitrary: doc r s)
  case (Cons key ks)
  show ?case
  proof (cases key)
    case (Key k)
    obtain i ms where g: "getRefForKeyCreate (members_of s) k = (i, ms)" by fastforce
    have i: "i < length ms" using getRefForKeyCreate_spec(2) [OF g] .
    obtain d1 where d1: "slot_set doc r (Some (JsonObject (ms[i := (fst (ms ! i), fill_null (snd (ms ! i)))]))) = Some d1"
      "index_key doc r k = Some (d1, r @ [MemberAt i])"
      using index_key_eq [OF Cons.prems g] by blast
    have "slot_get d1 (r @ [MemberAt i]) = Some (fill_null (snd (ms ! i)))"
      using i by (simp add: slot_get_child [OF d1(1)])
    from Cons.IH [OF this] show ?thesis
      using i g Key d1(2) by (auto simp: slot_set_child [OF d1(1)])
  next
    case (Idx n)
    obtain i es where g: "getElementRefCreate (elements_of s) n = (i, es)" by fastforce
    have i: "i < length es" using length_getElementRefCreate [OF g] by simp
    obtain d1 where d1: "slot_set doc r (Some (JsonArray (es[i := fill_null (es ! i)]))) = Some d1"
      "index_pos doc r n = Some (d1, r @ [ElementAt i])"
      using index_pos_eq [OF Cons.prems g] by blast
    have "slot_get d1 (r @ [ElementAt i]) = Some (fill_null (es ! i))"
      using i by (simp add: slot_get_child [OF d1(1)])
    from Cons.IH [OF this] show ?thesis
      using i g Idx d1(2) by (auto simp: slot_set_child [OF d1(1)])
  qed
qed simp

lemma assign_at_eq: "assign_at doc ks v = Some (jupdate ks v doc)"
  using navigate_assign [of doc "[]" doc ks v] by (auto simp: assign_at_def)

subsection \<open>Laws of assignment\<close>

lemma map_of_getRefForKeyCreate:
  assumes "getRefForKeyCreate ms k = (i, ms')"
  shows "map_of (ms'[i := (fst (ms' ! i), x)]) k = Some x"
    and "k' \<noteq> k \<Longrightarrow> map_of (ms'[i := (fst (ms' ! i), x)]) k' = map_of ms k'"
proof -
  note sp = getRefForKeyCreate_spec [OF assms]
  have f: "find_key (ms'[i := (fst (ms' ! i), x)]) q = find_key ms' q" for q
    using sp(2) by (simp add: find_key_update)
  show "map_of (ms'[i := (fst (ms' ! i), x)]) k = Some x"
    using sp(1,2) by (simp add: find_key_map_of [symmetric] f)
  assume k': "k' \<noteq> k"
  then have "find_key ms' k' \<noteq> Some i" using find_key_Some sp(3) by metis
  then have "map_of (ms'[i := (fst (ms' ! i), x)]) k' = map_of ms' k'"
    by (cases "find_key ms' k'") (auto simp: find_key_map_of [symmetric] f)
  then show "map_of (ms'[i := (fst (ms' ! i), x)]) k' = map_of ms k'"
    using sp(5) [OF k'] by simp
qed

lemma nth_getElementRefCreate:
  assumes "getElementRefCreate es n = (i, es')" and "j < length es'"
  shows "fill_null (es' ! j) = (if j < length es then fill_null (es ! j) else Some JsonNull)"
  using assms
  by (auto simp: getElementRefCreate_def Let_def resize_grow nth_append nth_list_update fill_null_def
      split: if_splits option.splits)

lemma fill_null_idem [simp]: "fill_null (fill_null s) = fill_null s"
  by (simp add: fill_null_def split: option.splits)

lemma fill_null_simps [simp]: "fill_null None = Some JsonNull" "fill_null (Some v) = Some v"
  by (simp_all add: fill_null_def)

lemma jlookup_fill_null: "fill_null (jlookup (fill_null s) ks) = fill_null (jlookup s ks)"
  by (cases "(s, ks)" rule: jlookup.cases) simp_all

lemma jlookup_nothing [simp]: "fill_null (jlookup (Some JsonNull) ks) = Some JsonNull"
  by (cases "(None :: json option, ks)" rule: jlookup.cases) (simp_all add: members_of_def elements_of_def)

text \<open>Two chains that part at some subscript, both going on with a name or both with a position.\<close>

fun diverge :: "key list \<Rightarrow> key list \<Rightarrow> bool" where
  "diverge (a # as) (b # bs) =
     (if a = b then diverge as bs
      else (case (a, b) of (Key _, Key _) \<Rightarrow> True | (Idx _, Idx _) \<Rightarrow> True | _ \<Rightarrow> False))"
| "diverge _ _ = False"

lemma jlookup_jupdate: "jlookup (jupdate ks v s) ks = Some v"
proof (induction ks v s rule: jupdate.induct)
  case (2 k ks v s)
  obtain i ms where "getRefForKeyCreate (members_of s) k = (i, ms)" by fastforce
  with 2 show ?case by (simp add: map_of_getRefForKeyCreate(1))
next
  case (3 n ks v s)
  obtain i es where "getElementRefCreate (elements_of s) n = (i, es)" by fastforce
  with 3 show ?case using length_getElementRefCreate by fastforce
qed simp

lemma getRefForKeyCreate_old:
  assumes "getRefForKeyCreate ms k = (i, ms')"
  shows "snd (ms' ! i) = (case map_of ms k of Some x \<Rightarrow> x | None \<Rightarrow> Some JsonNull)"
  using assms find_key_map_of [of ms k, symmetric]
  by (auto simp: getRefForKeyCreate_def split: option.splits)

lemma jlookup_cong: "fill_null s = fill_null t \<Longrightarrow> fill_null (jlookup s ks) = fill_null (jlookup t ks)"
  using jlookup_fill_null by metis

lemma jlookup_jupdate_frame:
  "diverge ks ks' \<Longrightarrow> fill_null (jlookup (jupdate ks v s) ks') = fill_null (jlookup s ks')"
proof (induction ks ks' arbitrary: s rule: diverge.induct)
  case (1 a as b bs)
  show ?case
  proof (cases a)
    case (Key k)
    obtain i ms where g: "getRefForKeyCreate (members_of s) k = (i, ms)" by fastforce
    obtain k' where b: "b = Key k'" using 1(2) Key by (cases b) (auto split: if_splits)
    show ?thesis
    proof (cases "k' = k")
      case True
      then have "fill_null (jlookup (jupdate as v (snd (ms ! i))) bs) = fill_null (jlookup (snd (ms ! i)) bs)"
        using 1 Key b by simp
      then show ?thesis
        using True Key b g
        by (auto simp: map_of_getRefForKeyCreate(1) getRefForKeyCreate_old [OF g] split: option.splits)
    next
      case False
      then show ?thesis using Key b g by (simp add: map_of_getRefForKeyCreate(2))
    qed
  next
    case (Idx n)
    obtain es where g: "getElementRefCreate (elements_of s) n = (n, es)"
      using length_getElementRefCreate by (metis surj_pair)
    note len = length_getElementRefCreate [OF g]
    obtain m where b: "b = Idx m" using 1(2) Idx by (cases b) (auto split: if_splits)
    have old: "m < length es \<Longrightarrow> fill_null (jlookup (es ! m) bs) = fill_null (jlookup s (Idx m # bs))"
      using nth_getElementRefCreate [OF g, of m] jlookup_cong [of "es ! m" _ bs]
      by (cases "m < length (elements_of s)") (auto simp: jlookup_cong [of "es ! m" "Some JsonNull" bs])
    show ?thesis
    proof (cases "m = n")
      case True
      then have "fill_null (jlookup (jupdate as v (es ! n)) bs) = fill_null (jlookup (es ! n) bs)"
        using 1 Idx b by simp
      then show ?thesis using True Idx b g len old by simp
    next
      case False
      then show ?thesis using Idx b g len old by auto
    qed
  qed
qed simp_all

text \<open>What a chain of subscripts reads: the value the chain leads to, null where there is none.\<close>

lemma navigate_read:
  assumes "slot_get doc r = Some s"
  shows "\<exists>d r' x. navigate doc r ks = Some (d, r') \<and> slot_get d r' = Some x
                  \<and> fill_null x = fill_null (jlookup s ks)"
  using assms
proof (induction ks arbitrary: doc r s)
  case (Cons key ks)
  show ?case
  proof (cases key)
    case (Key k)
    obtain i ms where g: "getRefForKeyCreate (members_of s) k = (i, ms)" by fastforce
    have i: "i < length ms" using getRefForKeyCreate_spec(2) [OF g] .
    obtain d1 where d1: "slot_set doc r (Some (JsonObject (ms[i := (fst (ms ! i), fill_null (snd (ms ! i)))]))) = Some d1"
      "index_key doc r k = Some (d1, r @ [MemberAt i])"
      using index_key_eq [OF Cons.prems g] by blast
    have "slot_get d1 (r @ [MemberAt i]) = Some (fill_null (snd (ms ! i)))"
      using i by (simp add: slot_get_child [OF d1(1)])
    from Cons.IH [OF this] show ?thesis
      using Key d1(2)
      by (auto simp: getRefForKeyCreate_old [OF g] jlookup_fill_null split: option.splits)
  next
    case (Idx n)
    obtain es where g: "getElementRefCreate (elements_of s) n = (n, es)"
      using length_getElementRefCreate by (metis surj_pair)
    have i: "n < length es" using length_getElementRefCreate [OF g] by simp
    obtain d1 where d1: "slot_set doc r (Some (JsonArray (es[n := fill_null (es ! n)]))) = Some d1"
      "index_pos doc r n = Some (d1, r @ [ElementAt n])"
      using index_pos_eq [OF Cons.prems g] by blast
    have "slot_get d1 (r @ [ElementAt n]) = Some (fill_null (es ! n))"
      using i by (simp add: slot_get_child [OF d1(1)])
    from Cons.IH [OF this] show ?thesis
      using Idx d1(2) nth_getElementRefCreate [OF g i] by (auto simp: jlookup_fill_null)
  qed
qed simp

text \<open>A chain read from the root, as the value the source's accessors see.\<close>

definition read_at :: "json option \<Rightarrow> key list \<Rightarrow> json option" where
  "read_at doc ks =
     (case navigate doc [] ks of
        None \<Rightarrow> None
      | Some (doc', r) \<Rightarrow> (case jv_get doc' r of None \<Rightarrow> None | Some s \<Rightarrow> fill_null s))"

lemma read_at_eq: "read_at doc ks = fill_null (jlookup doc ks)"
  using navigate_read [of doc "[]" doc ks] by (auto simp: read_at_def jv_get_def)

subsection \<open>Properties\<close>


text \<open>
  C13: After an assignment through a chain of subscripts, the same chain reads the assigned value, and
  every chain that parts from it at a subscript of the same kind reads what it read before. Growing an
  array or creating a member is seen only as null values where nothing was.
\<close>

theorem assign_then_read:
  assumes "assign_at doc ks v = Some doc'"
  shows "read_at doc' ks = Some v \<and> (\<forall>ks'. diverge ks ks' \<longrightarrow> read_at doc' ks' = read_at doc ks')"
proof -
  have "doc' = jupdate ks v doc" using assms by (simp add: assign_at_eq)
  then show ?thesis by (simp add: read_at_eq jlookup_jupdate jlookup_jupdate_frame)
qed

theorem assign_then_read_witness:
  "read_at (Some (JsonObject [(''a'', Some (JsonArray [Some JsonNull, Some (JsonBoolean True)]))])) [Key ''a'', Idx 1]
     = Some (JsonBoolean True)
   \<and> diverge [Key ''a'', Idx 1] [Key ''a'', Idx 0]
   \<and> read_at (Some (JsonObject [(''a'', Some (JsonArray [Some JsonNull, Some (JsonBoolean True)]))])) [Key ''a'', Idx 0]
     = read_at (Some (JsonObject [])) [Key ''a'', Idx 0]"
proof -
  have "assign_at (Some (JsonObject [])) [Key ''a'', Idx 1] (JsonBoolean True)
          = Some (Some (JsonObject [(''a'', Some (JsonArray [Some JsonNull, Some (JsonBoolean True)]))]))"
    by code_simp
  then show ?thesis using assign_then_read by fastforce
qed

text \<open>
  Pushing a value through a proxy that is not dangling appends it to the array the proxy refers
  to, a value of another type being replaced by an empty array first.
\<close>

lemma push_appends:
  assumes "slot_get doc r = Some s"
  shows "\<exists>doc'. jv_push doc r v = Some doc' \<and> slot_get doc' r = Some (Some (JsonArray (elements_of s @ [v])))
                \<and> slot_set doc' r s = Some doc"
proof -
  have "ensureArray doc r = map_option fst (jv_asArray doc r)"
    using jv_asArray_eq [OF assms]
    by (auto simp: ensureArray_def jv_asArray_def split: option.splits json.splits)
  then obtain d1 where d1: "slot_set doc r (Some (JsonArray (elements_of s))) = Some d1" "ensureArray doc r = Some d1"
    using jv_asArray_eq [OF assms] by auto
  obtain d2 where d2: "slot_set d1 r (Some (JsonArray (elements_of s))) = Some d2" "jv_asArray d1 r = Some (d2, elements_of s)"
    using jv_asArray_eq [OF slot_get_set [OF d1(1)]] by auto
  obtain d3 where d3: "slot_set d2 r (Some (JsonArray (elements_of s @ [v]))) = Some d3"
    using slot_set_defined [OF slot_get_set [OF d2(1)]] by blast
  have "slot_set d3 r s = slot_set doc r s"
    by (simp add: slot_set_set [OF d3] slot_set_set [OF d2(1)] slot_set_set [OF d1(1)])
  then show ?thesis
    using d1(2) d2(2) d3 slot_get_set [OF d3] assms by (simp add: jv_push_def array_push_def slot_set_same)
qed

lemma push_appends_sample:
  "\<exists>doc'. jv_push (Some (JsonObject [(''a'', Some JsonNull)])) [MemberAt 0] (Some (JsonString ''x'')) = Some doc'
          \<and> slot_get doc' [MemberAt 0] = Some (Some (JsonArray (elements_of (Some JsonNull) @ [Some (JsonString ''x'')])))
          \<and> slot_set doc' [MemberAt 0] (Some JsonNull) = Some (Some (JsonObject [(''a'', Some JsonNull)]))"
  by (rule push_appends) simp

end
