(* ===== verification/JsonParser.thy ===== *)
theory JsonParser
  imports Json
begin

text \<open>
  The recursive descent parser \<open>JsonParser\<close> of \<open>include/protocol/Json.hpp\<close>. As in the code, every
  function takes the whole text and a position and returns the new position; a thrown
  \<open>std::runtime_error\<close> is an \<open>Inl\<close>. The mutual recursion terminates because the position never moves
  back, which is proved first under the assumption of termination.
\<close>

subsection \<open>Scanning\<close>

function skipSpaces :: "string \<Rightarrow> nat \<Rightarrow> nat" where
  "skipSpaces s pos =
     (if pos < length s \<and> s ! pos \<noteq> CHR 0x00 \<and> isspace (s ! pos) then skipSpaces s (Suc pos) else pos)"
  by pat_completeness auto
termination
  by (relation "measure (\<lambda>(s, pos). length s - pos)") auto

declare skipSpaces.simps [simp del]

function skipDigits :: "string \<Rightarrow> nat \<Rightarrow> nat" where
  "skipDigits s pos = (if pos < length s \<and> isdigit (s ! pos) then skipDigits s (Suc pos) else pos)"
  by pat_completeness auto
termination
  by (relation "measure (\<lambda>(s, pos). length s - pos)") auto

declare skipDigits.simps [simp del]

subsection \<open>Scalars\<close>

definition unescape :: "char \<Rightarrow> char" where
  "unescape esc =
     (if esc = CHR ''b'' then CHR 0x08
      else if esc = CHR ''f'' then CHR 0x0C
      else if esc = CHR ''n'' then LF
      else if esc = CHR ''r'' then CR
      else if esc = CHR ''t'' then TAB
      else esc)"

function parseString_loop :: "string \<Rightarrow> nat \<Rightarrow> string \<Rightarrow> (string \<times> nat) result" where
  "parseString_loop json pos out =
     (if pos < length json then
        (let c = json ! pos in
         if c = QUOTE then Inr (out, Suc pos)
         else if c = BSLASH then
           (if length json \<le> Suc pos then Inl (RuntimeError ''Bad escape in string'')
            else parseString_loop json (Suc (Suc pos)) (out @ [unescape (json ! Suc pos)]))
         else parseString_loop json (Suc pos) (out @ [c]))
      else Inr (out, pos))"
  by pat_completeness auto
termination
  by (relation "measure (\<lambda>(s, pos, out). length s - pos)") auto

declare parseString_loop.simps [simp del]

definition parseString :: "string \<Rightarrow> nat \<Rightarrow> (string \<times> nat) result" where
  "parseString json pos = parseString_loop json (Suc pos) []"

definition char_at :: "string \<Rightarrow> nat \<Rightarrow> char \<Rightarrow> bool" where
  "char_at s pos c \<longleftrightarrow> pos < length s \<and> s ! pos = c"

text \<open>The extent of a number: sign, digits, fraction, exponent, each as far as it goes.\<close>

definition scanNumber :: "string \<Rightarrow> nat \<Rightarrow> nat" where
  "scanNumber json start =
     (let p0 = (if char_at json start (CHR ''-'') then Suc start else start);
          p1 = skipDigits json p0;
          p2 = (if char_at json p1 (CHR ''.'') then skipDigits json (Suc p1) else p1)
      in if char_at json p2 (CHR ''e'') \<or> char_at json p2 (CHR ''E'')
         then let p3 = Suc p2;
                  p4 = (if char_at json p3 (CHR ''+'') \<or> char_at json p3 (CHR ''-'') then Suc p3 else p3)
              in skipDigits json p4
         else p2)"

definition parseNumber :: "string \<Rightarrow> nat \<Rightarrow> (json \<times> nat) result" where
  "parseNumber json start =
     (let pos = scanNumber json start in
      case stod (take (pos - start) (drop start json)) of
        Inl _ \<Rightarrow> Inl (RuntimeError ''Invalid number'')
      | Inr val \<Rightarrow> Inr (JsonNumber val, pos))"

text \<open>\<open>json.compare(pos, n, text) == 0\<close> for a text of length \<open>n\<close>.\<close>

definition compare_at :: "string \<Rightarrow> nat \<Rightarrow> string \<Rightarrow> bool" where
  "compare_at json pos txt \<longleftrightarrow> take (length txt) (drop pos json) = txt"

definition parseBoolean :: "string \<Rightarrow> nat \<Rightarrow> (json \<times> nat) result" where
  "parseBoolean json pos =
     (if compare_at json pos ''true'' then Inr (JsonBoolean True, pos + 4)
      else if compare_at json pos ''false'' then Inr (JsonBoolean False, pos + 5)
      else Inl (RuntimeError ''Invalid boolean''))"

definition parseNull :: "string \<Rightarrow> nat \<Rightarrow> (json \<times> nat) result" where
  "parseNull json pos =
     (if compare_at json pos ''null'' then Inr (JsonNull, pos + 4) else Inl (RuntimeError ''Invalid null''))"

subsection \<open>The position never moves back\<close>

lemma skipSpaces_ge: "pos \<le> skipSpaces s pos"
proof (induction s pos rule: skipSpaces.induct)
  case (1 s pos)
  then show ?case by (subst skipSpaces.simps) auto
qed

lemma skipSpaces_le: "pos \<le> length s \<Longrightarrow> skipSpaces s pos \<le> length s"
proof (induction s pos rule: skipSpaces.induct)
  case (1 s pos)
  then show ?case by (subst skipSpaces.simps) auto
qed

lemma skipDigits_ge: "pos \<le> skipDigits s pos"
proof (induction s pos rule: skipDigits.induct)
  case (1 s pos)
  then show ?case by (subst skipDigits.simps) auto
qed

lemma skipDigits_le: "pos \<le> length s \<Longrightarrow> skipDigits s pos \<le> length s"
proof (induction s pos rule: skipDigits.induct)
  case (1 s pos)
  then show ?case by (subst skipDigits.simps) auto
qed

lemma parseString_loop_unfold:
  "length json \<le> pos \<Longrightarrow> parseString_loop json pos out = Inr (out, pos)"
  "pos < length json \<Longrightarrow> json ! pos = QUOTE \<Longrightarrow> parseString_loop json pos out = Inr (out, Suc pos)"
  "pos < length json \<Longrightarrow> json ! pos = BSLASH \<Longrightarrow> length json \<le> Suc pos \<Longrightarrow>
     parseString_loop json pos out = Inl (RuntimeError ''Bad escape in string'')"
  "Suc pos < length json \<Longrightarrow> json ! pos = BSLASH \<Longrightarrow>
     parseString_loop json pos out = parseString_loop json (Suc (Suc pos)) (out @ [unescape (json ! Suc pos)])"
  "pos < length json \<Longrightarrow> json ! pos \<noteq> QUOTE \<Longrightarrow> json ! pos \<noteq> BSLASH \<Longrightarrow>
     parseString_loop json pos out = parseString_loop json (Suc pos) (out @ [json ! pos])"
  by (simp_all add: parseString_loop.simps [of json pos])

lemma parseString_loop_range:
  "parseString_loop json pos out = Inr (s, p) \<Longrightarrow> pos \<le> p \<and> (pos \<le> length json \<longrightarrow> p \<le> length json)"
proof (induction json pos out rule: parseString_loop.induct)
  case (1 json pos out)
  consider "length json \<le> pos" | "pos < length json" "json ! pos = QUOTE"
    | "pos < length json" "json ! pos = BSLASH" "length json \<le> Suc pos"
    | "Suc pos < length json" "json ! pos = BSLASH"
    | "pos < length json" "json ! pos \<noteq> QUOTE" "json ! pos \<noteq> BSLASH"
    by linarith
  then show ?case
  proof cases
    case 4
    then show ?thesis
      using "1.IH"(1) [OF _ refl] "1.prems" by (auto simp: parseString_loop_unfold(4))
  next
    case 5
    then show ?thesis
      using "1.IH"(2) [OF _ refl] "1.prems" by (auto simp: parseString_loop_unfold(5))
  qed (use "1.prems" in \<open>auto simp: parseString_loop_unfold\<close>)
qed

lemma parseString_ge: "parseString json pos = Inr (s, p) \<Longrightarrow> pos < p"
  by (auto simp: parseString_def dest: parseString_loop_range)

lemma parseString_le: "parseString json pos = Inr (s, p) \<Longrightarrow> pos < length json \<Longrightarrow> p \<le> length json"
  by (auto simp: parseString_def dest: parseString_loop_range)

lemma scanNumber_ge: "start \<le> scanNumber json start"
proof -
  have ge: "\<And>p q. p \<le> q \<Longrightarrow> p \<le> skipDigits json q" "\<And>p q. p \<le> q \<Longrightarrow> p \<le> skipDigits json (Suc q)"
    using skipDigits_ge le_trans le_SucI by metis+
  then show ?thesis unfolding scanNumber_def Let_def by (simp add: le_SucI)
qed

lemma scanNumber_le: "start \<le> length json \<Longrightarrow> scanNumber json start \<le> length json"
  unfolding scanNumber_def Let_def char_at_def by (simp add: skipDigits_le Suc_leI)

lemma parseNumber_ge: "parseNumber json pos = Inr (v, p) \<Longrightarrow> pos \<le> p"
  by (auto simp: parseNumber_def Let_def scanNumber_ge split: sum.splits)

lemma parseNumber_le: "parseNumber json pos = Inr (v, p) \<Longrightarrow> pos \<le> length json \<Longrightarrow> p \<le> length json"
  by (auto simp: parseNumber_def Let_def scanNumber_le split: sum.splits)

lemma compare_at_le:
  assumes "compare_at json pos t" "t \<noteq> []"
  shows "pos + length t \<le> length json"
proof -
  have "length (take (length t) (drop pos json)) = length t"
    using assms(1) by (simp add: compare_at_def)
  then have "length t \<le> length json - pos" by simp
  moreover have "0 < length t" using assms(2) by simp
  ultimately show ?thesis by linarith
qed

lemma parseBoolean_pos: "parseBoolean json pos = Inr (v, p) \<Longrightarrow> pos < p \<and> p \<le> length json"
  by (auto simp: parseBoolean_def split: if_splits dest!: compare_at_le)

lemma parseNull_pos: "parseNull json pos = Inr (v, p) \<Longrightarrow> pos < p \<and> p \<le> length json"
  by (auto simp: parseNull_def split: if_splits dest!: compare_at_le)

subsection \<open>Values, objects and arrays\<close>

text \<open>
  \<open>parseValue\<close> dispatches on the first character; its branches for an opening brace or bracket are the
  heads of \<open>parseObject\<close> and \<open>parseArray\<close>, whose \<open>while (true)\<close> loops are the two other functions.
\<close>

function (sequential) parseValue :: "string \<Rightarrow> nat \<Rightarrow> (json \<times> nat) result"
  and parseObject_loop :: "string \<Rightarrow> nat \<Rightarrow> members \<Rightarrow> (json \<times> nat) result"
  and parseArray_loop :: "string \<Rightarrow> nat \<Rightarrow> elements \<Rightarrow> (json \<times> nat) result"
where
  "parseValue json pos0 =
     (let pos = skipSpaces json pos0 in
      if length json \<le> pos then Inl (RuntimeError ''Unexpected end of JSON'')
      else
        let c = json ! pos in
        if c = CHR ''{'' then
          (let p = skipSpaces json (Suc pos) in
           if char_at json p (CHR ''}'') then Inr (JsonObject [], Suc p)
           else parseObject_loop json p [])
        else if c = CHR ''['' then
          (let p = skipSpaces json (Suc pos) in
           if char_at json p (CHR '']'') then Inr (JsonArray [], Suc p)
           else parseArray_loop json p [])
        else if c = QUOTE then
          (case parseString json pos of Inl e \<Rightarrow> Inl e | Inr (s, p) \<Rightarrow> Inr (JsonString s, p))
        else if c = CHR ''t'' \<or> c = CHR ''f'' then parseBoolean json pos
        else if c = CHR ''n'' then parseNull json pos
        else if c = CHR ''-'' \<or> isdigit c then parseNumber json pos
        else Inl (RuntimeError (''Invalid JSON value at pos '' @ show_nat pos)))"
| "parseObject_loop json pos0 members =
     (let pos = skipSpaces json pos0 in
      if length json \<le> pos \<or> json ! pos \<noteq> QUOTE then Inl (RuntimeError ''Expected string key in object'')
      else
        case parseString json pos of
          Inl e \<Rightarrow> Inl e
        | Inr (key, p1) \<Rightarrow>
            (let p2 = skipSpaces json p1 in
             if length json \<le> p2 \<or> json ! p2 \<noteq> CHR '':'' then Inl (RuntimeError ''Expected ':' after key'')
             else
               case parseValue json (skipSpaces json (Suc p2)) of
                 Inl e \<Rightarrow> Inl e
               | Inr (val, p3) \<Rightarrow>
                   (let p4 = skipSpaces json p3; members' = members @ [(key, Some val)] in
                    if length json \<le> p4 then Inl (RuntimeError ''Unexpected end in object'')
                    else if json ! p4 = CHR ''}'' then Inr (JsonObject members', Suc p4)
                    else if json ! p4 = CHR '','' then parseObject_loop json (Suc p4) members'
                    else Inl (RuntimeError ''Expected ',' or '}' in object''))))"
| "parseArray_loop json pos0 elems =
     (case parseValue json (skipSpaces json pos0) of
        Inl e \<Rightarrow> Inl e
      | Inr (v, p1) \<Rightarrow>
          (let p2 = skipSpaces json p1; elems' = elems @ [Some v] in
           if length json \<le> p2 then Inl (RuntimeError ''Unexpected end in array'')
           else if json ! p2 = CHR '']'' then Inr (JsonArray elems', Suc p2)
           else if json ! p2 = CHR '','' then parseArray_loop json (Suc p2) elems'
           else Inl (RuntimeError ''Expected ',' or ']' in array'')))"
  by pat_completeness auto

lemma skipSpaces_Suc_le: "Suc q \<le> pos \<Longrightarrow> q \<le> skipSpaces s pos"
  using skipSpaces_ge [of pos s] by linarith

lemma pos_mono:
  "parseValue_parseObject_loop_parseArray_loop_dom (Inl (json, pos)) \<Longrightarrow>
     parseValue json pos = Inr (v, p) \<Longrightarrow> pos \<le> p"
  "parseValue_parseObject_loop_parseArray_loop_dom (Inr (Inl (json, pos, ms))) \<Longrightarrow>
     parseObject_loop json pos ms = Inr (v, p) \<Longrightarrow> pos \<le> p"
  "parseValue_parseObject_loop_parseArray_loop_dom (Inr (Inr (json, pos, es))) \<Longrightarrow>
     parseArray_loop json pos es = Inr (v, p) \<Longrightarrow> pos \<le> p"
proof (induction json pos and json pos ms and json pos es arbitrary: v p and v p and v p
    rule: parseValue_parseObject_loop_parseArray_loop.pinduct)
  case (1 json pos0)
  let ?pos = "skipSpaces json pos0" and ?p = "skipSpaces json (Suc (skipSpaces json pos0))"
  have ge: "pos0 \<le> ?pos" "?pos \<le> ?p"
    using skipSpaces_ge [of pos0 json] skipSpaces_ge [of "Suc ?pos" json] by linarith+
  have IH: "pos0 \<le> p" if "\<not> length json \<le> ?pos" "json ! ?pos = CHR ''{''" "\<not> char_at json ?p (CHR ''}'')"
      "parseObject_loop json ?p [] = Inr (v, p)"
    using "1.IH"(1) [OF refl _ refl _ refl] that ge by fastforce
  have IH': "pos0 \<le> p" if "\<not> length json \<le> ?pos" "json ! ?pos = CHR ''[''" "\<not> char_at json ?p (CHR '']'')"
      "parseArray_loop json ?p [] = Inr (v, p)"
    using "1.IH"(2) [OF refl _ refl _ _ refl] that ge by fastforce
  from "1.prems" ge show ?case
    unfolding parseValue.psimps [OF "1.hyps"] Let_def
    by (auto split: if_splits sum.splits dest!: parseString_ge parseBoolean_pos parseNull_pos parseNumber_ge
        dest: IH IH')
next
  case (2 json pos0 members)
  let ?pos = "skipSpaces json pos0"
  from "2.prems" obtain key p1 where
    ok: "\<not> (length json \<le> ?pos \<or> json ! ?pos \<noteq> QUOTE)" and ps: "parseString json ?pos = Inr (key, p1)"
    unfolding parseObject_loop.psimps [OF "2.hyps"] Let_def
    by (auto split: if_splits sum.splits)
  let ?p2 = "skipSpaces json p1"
  from "2.prems" ok ps obtain val p3 where
    ok2: "\<not> (length json \<le> ?p2 \<or> json ! ?p2 \<noteq> CHR '':'')"
    and pv: "parseValue json (skipSpaces json (Suc ?p2)) = Inr (val, p3)"
    unfolding parseObject_loop.psimps [OF "2.hyps"] Let_def
    by (auto split: if_splits sum.splits)
  let ?p4 = "skipSpaces json p3" and ?ms = "members @ [(key, Some val)]"
  have "skipSpaces json (Suc ?p2) \<le> p3"
    using "2.IH"(1) [OF refl ok ps refl refl ok2 pv] .
  then have ge: "pos0 \<le> ?p4"
    using skipSpaces_ge [of pos0 json] parseString_ge [OF ps] skipSpaces_ge [of p1 json]
      skipSpaces_ge [of "Suc ?p2" json] skipSpaces_ge [of p3 json] by linarith
  have IH: "Suc ?p4 \<le> p" if "\<not> length json \<le> ?p4" "json ! ?p4 = CHR '',''"
      "parseObject_loop json (Suc ?p4) ?ms = Inr (v, p)"
    using "2.IH"(2) [OF refl ok ps refl refl ok2 pv refl refl refl] that by simp
  from "2.prems" ok ps ok2 pv ge show ?case
    unfolding parseObject_loop.psimps [OF "2.hyps"] Let_def
    by (auto split: if_splits dest: IH)
next
  case (3 json pos0 elems)
  let ?pos = "skipSpaces json pos0"
  from "3.prems" obtain x p1 where pv: "parseValue json ?pos = Inr (x, p1)"
    unfolding parseArray_loop.psimps [OF "3.hyps"] by (auto split: sum.splits)
  let ?p2 = "skipSpaces json p1" and ?es = "elems @ [Some x]"
  have "?pos \<le> p1" using "3.IH"(1) [OF pv] .
  then have ge: "pos0 \<le> ?p2"
    using skipSpaces_ge [of pos0 json] skipSpaces_ge [of p1 json] by linarith
  have IH: "Suc ?p2 \<le> p" if "\<not> length json \<le> ?p2" "json ! ?p2 = CHR '',''"
      "parseArray_loop json (Suc ?p2) ?es = Inr (v, p)"
    using "3.IH"(2) [OF pv refl refl refl] that by simp
  from "3.prems" pv ge show ?case
    unfolding parseArray_loop.psimps [OF "3.hyps"] Let_def
    by (auto split: if_splits dest: IH)
qed

termination parseValue
proof (relation "measures [\<lambda>x. case x of
    Inl (json, pos) \<Rightarrow> length json - pos
  | Inr (Inl (json, pos, _)) \<Rightarrow> length json - pos
  | Inr (Inr (json, pos, _)) \<Rightarrow> length json - pos,
  \<lambda>x. case x of Inl _ \<Rightarrow> 0 | Inr _ \<Rightarrow> 1]", goal_cases)
  case 1
  show ?case by simp
next
  case (2 json pos0 pos c p)
  then show ?case
    using skipSpaces_ge [of pos0 json] skipSpaces_ge [of "Suc pos" json] by simp
next
  case (3 json pos0 pos c p)
  then show ?case
    using skipSpaces_ge [of pos0 json] skipSpaces_ge [of "Suc pos" json] by simp
next
  case (4 json pos0 members pos b key p1 p2)
  then show ?case
    using skipSpaces_ge [of pos0 json] parseString_ge [of json pos key p1] skipSpaces_ge [of p1 json]
      skipSpaces_ge [of "Suc p2" json] by auto
next
  case (5 json pos0 members pos b key p1 p2 ba val p3 p4 ms)
  then have "skipSpaces json (Suc p2) \<le> p3" by (auto intro: pos_mono(1))
  with 5 show ?case
    using skipSpaces_ge [of pos0 json] parseString_ge [of json pos key p1] skipSpaces_ge [of p1 json]
      skipSpaces_ge [of "Suc p2" json] skipSpaces_ge [of p3 json] by auto
next
  case (6 json pos0 elems)
  then show ?case using skipSpaces_ge [of pos0 json] by auto
next
  case (7 json pos0 elems b x p1 p2 es)
  then have "skipSpaces json pos0 \<le> p1" by (auto intro: pos_mono(1))
  with 7 show ?case
    using skipSpaces_ge [of pos0 json] skipSpaces_ge [of p1 json] by auto
qed

declare parseValue.simps [simp del] parseObject_loop.simps [simp del] parseArray_loop.simps [simp del]

definition parse :: "string \<Rightarrow> json result" where
  "parse json =
     (case parseValue json (skipSpaces json 0) of
        Inl e \<Rightarrow> Inl e
      | Inr (root, p) \<Rightarrow>
          if skipSpaces json p \<noteq> length json then Inl (RuntimeError ''Extra characters after JSON end'')
          else Inr root)"

end
