(* ===== verification/JsonGrammar.thy ===== *)
theory JsonGrammar
  imports JsonParser
begin

text \<open>
  The JSON grammar as an inductive relation between values and texts, the specification the parser is
  checked against: every text of the grammar parses to the value it denotes, with any white space
  between the tokens. The grammar is that of RFC 8259 except for \<open>\uXXXX\<close> escapes, which the code
  says it does not support.
\<close>

subsection \<open>The grammar\<close>

abbreviation ws :: "string \<Rightarrow> bool" where
  "ws w \<equiv> list_all isspace w"

inductive string_text :: "string \<Rightarrow> string \<Rightarrow> bool" where
  string_end: "string_text [] []"
| string_char: "c \<noteq> QUOTE \<Longrightarrow> c \<noteq> BSLASH \<Longrightarrow> string_text s t \<Longrightarrow> string_text (c # s) (c # t)"
| string_escape: "c \<in> set [QUOTE, BSLASH, CHR ''/'', CHR ''b'', CHR ''f'', CHR ''n'', CHR ''r'', CHR ''t''] \<Longrightarrow>
    string_text s t \<Longrightarrow> string_text (unescape c # s) (BSLASH # c # t)"

definition digits :: "string \<Rightarrow> bool" where
  "digits ds \<longleftrightarrow> ds \<noteq> [] \<and> list_all isdigit ds"

inductive number_text :: "string \<Rightarrow> bool" where
  "sg \<in> {[], ''-''} \<Longrightarrow> digits ip \<Longrightarrow> fr = [] \<or> (\<exists>ds. fr = CHR ''.'' # ds \<and> digits ds) \<Longrightarrow>
   ex = [] \<or> (\<exists>e es ds. ex = e # es @ ds \<and> e \<in> {CHR ''e'', CHR ''E''} \<and> es \<in> {[], ''+'', ''-''} \<and> digits ds) \<Longrightarrow>
   number_text (sg @ ip @ fr @ ex)"

inductive json_text :: "json \<Rightarrow> string \<Rightarrow> bool"
  and members_text :: "members \<Rightarrow> string \<Rightarrow> bool"
  and elements_text :: "elements \<Rightarrow> string \<Rightarrow> bool"
where
  text_null: "json_text JsonNull ''null''"
| text_true: "json_text (JsonBoolean True) ''true''"
| text_false: "json_text (JsonBoolean False) ''false''"
| text_string: "string_text s t \<Longrightarrow> json_text (JsonString s) (QUOTE # t @ [QUOTE])"
| text_number: "number_text t \<Longrightarrow> stod t = Inr d \<Longrightarrow> json_text (JsonNumber d) t"
| text_object_empty: "ws w \<Longrightarrow> json_text (JsonObject []) (CHR ''{'' # w @ ''}'')"
| text_object: "members_text ms t \<Longrightarrow> json_text (JsonObject ms) (CHR ''{'' # t @ ''}'')"
| text_array_empty: "ws w \<Longrightarrow> json_text (JsonArray []) (CHR ''['' # w @ '']'')"
| text_array: "elements_text es t \<Longrightarrow> json_text (JsonArray es) (CHR ''['' # t @ '']'')"
| text_member: "ws w1 \<Longrightarrow> ws w2 \<Longrightarrow> ws w3 \<Longrightarrow> ws w4 \<Longrightarrow> string_text k kt \<Longrightarrow> json_text v vt \<Longrightarrow>
    members_text [(k, Some v)] (w1 @ QUOTE # kt @ QUOTE # w2 @ CHR '':'' # w3 @ vt @ w4)"
| text_members: "ws w1 \<Longrightarrow> ws w2 \<Longrightarrow> ws w3 \<Longrightarrow> ws w4 \<Longrightarrow> string_text k kt \<Longrightarrow> json_text v vt \<Longrightarrow>
    members_text ms t \<Longrightarrow>
    members_text ((k, Some v) # ms) (w1 @ QUOTE # kt @ QUOTE # w2 @ CHR '':'' # w3 @ vt @ w4 @ CHR '','' # t)"
| text_element: "ws w1 \<Longrightarrow> ws w2 \<Longrightarrow> json_text v vt \<Longrightarrow> elements_text [Some v] (w1 @ vt @ w2)"
| text_elements: "ws w1 \<Longrightarrow> ws w2 \<Longrightarrow> json_text v vt \<Longrightarrow> elements_text es t \<Longrightarrow>
    elements_text (Some v # es) (w1 @ vt @ w2 @ CHR '','' # t)"

subsection \<open>Scanning the tokens\<close>

text \<open>The text of a value ends at the end of the input, at white space or at a closing or separating sign.\<close>

definition delimited :: "string \<Rightarrow> nat \<Rightarrow> bool" where
  "delimited s p \<longleftrightarrow> (p < length s \<longrightarrow> isspace (s ! p) \<or> s ! p \<in> {CHR '','', CHR '']'', CHR ''}''})"

lemma isspace_not_NUL: "isspace c \<Longrightarrow> c \<noteq> CHR 0x00"
  by (auto simp: isspace_def)

lemma skipSpaces_ws: "ws w \<Longrightarrow> str_at s p w \<Longrightarrow> skipSpaces s p = skipSpaces s (p + length w)"
proof (induction w arbitrary: p)
  case (Cons c w)
  then have "p < length s" "s ! p = c" "isspace c" "str_at s (Suc p) w" by (simp_all add: str_simps)
  then have "skipSpaces s p = skipSpaces s (Suc p)"
    by (subst skipSpaces.simps) (simp add: isspace_not_NUL)
  with Cons show ?case by (simp add: str_simps)
qed simp

lemma skipSpaces_stop: "p < length s \<Longrightarrow> \<not> isspace (s ! p) \<Longrightarrow> skipSpaces s p = p"
  by (subst skipSpaces.simps) simp

lemma skipSpaces_end: "length s \<le> p \<Longrightarrow> skipSpaces s p = p"
  by (subst skipSpaces.simps) simp

lemma skipSpaces_to:
  "ws w \<Longrightarrow> str_at s p (w @ c # t) \<Longrightarrow> \<not> isspace c \<Longrightarrow> skipSpaces s p = p + length w"
  by (simp add: skipSpaces_ws str_simps skipSpaces_stop)

lemma skipDigits_digits:
  "list_all isdigit ds \<Longrightarrow> str_at s p ds \<Longrightarrow> \<not> (p + length ds < length s \<and> isdigit (s ! (p + length ds))) \<Longrightarrow>
     skipDigits s p = p + length ds"
proof (induction ds arbitrary: p)
  case Nil
  then show ?case by (subst skipDigits.simps) auto
next
  case (Cons d ds)
  then have "p < length s" "s ! p = d" "isdigit d" "str_at s (Suc p) ds" by (simp_all add: str_simps)
  then have "skipDigits s p = skipDigits s (Suc p)" by (subst skipDigits.simps) simp
  with Cons show ?case by (simp add: str_simps)
qed

lemma parseString_loop_text:
  "string_text v t \<Longrightarrow> str_at json pos (t @ [QUOTE]) \<Longrightarrow>
     parseString_loop json pos out = Inr (out @ v, pos + length t + 1)"
proof (induction arbitrary: pos out rule: string_text.induct)
  case string_end
  then show ?case by (simp add: str_simps parseString_loop_unfold(2))
next
  case (string_char c s t)
  then have "parseString_loop json pos out = parseString_loop json (Suc pos) (out @ [c])"
    by (simp add: str_simps parseString_loop_unfold(5))
  with string_char show ?case by (simp add: str_simps)
next
  case (string_escape c s t)
  then have "parseString_loop json pos out = parseString_loop json (Suc (Suc pos)) (out @ [unescape c])"
    by (simp add: str_simps parseString_loop_unfold(4))
  with string_escape show ?case by (simp add: str_simps)
qed

lemma parseString_text:
  "string_text v t \<Longrightarrow> str_at json pos (QUOTE # t @ [QUOTE]) \<Longrightarrow>
     parseString json pos = Inr (v, pos + length t + 2)"
  by (simp add: parseString_def str_at_Cons parseString_loop_text)

lemma skipDigits_then:
  "list_all isdigit ds \<Longrightarrow> str_at s p (ds @ c # t) \<Longrightarrow> \<not> isdigit c \<Longrightarrow> skipDigits s p = p + length ds"
  by (rule skipDigits_digits) (auto simp: str_simps)

lemma delimited_not:
  assumes "delimited s p"
  shows "\<not> (p < length s \<and> isdigit (s ! p))" "\<not> char_at s p (CHR ''.'')"
    "\<not> char_at s p (CHR ''e'')" "\<not> char_at s p (CHR ''E'')" "\<not> char_at s p (CHR ''+'')" "\<not> char_at s p (CHR ''-'')"
  using assms by (auto simp: delimited_def char_at_def dest: isspace_isdigit) (simp_all add: isspace_def isdigit_def)

lemma sign_not_digit [simp]:
  "\<not> isdigit (CHR ''.'')" "\<not> isdigit (CHR ''e'')" "\<not> isdigit (CHR ''E'')" "\<not> isdigit (CHR ''+'')"
  "\<not> isdigit (CHR ''-'')"
  by (simp_all add: isdigit_def)

lemma digits_head: "digits ds \<Longrightarrow> str_at s p ds \<Longrightarrow> p < length s \<and> isdigit (s ! p)"
  by (cases ds) (auto simp: digits_def str_simps)

text \<open>The three parts of a number, each scanned to its end.\<close>

lemma scan_exponent:
  assumes ex: "ex = [] \<or> (\<exists>e es ds. ex = e # es @ ds \<and> e \<in> {CHR ''e'', CHR ''E''} \<and> es \<in> {[], ''+'', ''-''} \<and> digits ds)"
    and at: "str_at s p ex" and del: "delimited s (p + length ex)"
  shows "(if char_at s p (CHR ''e'') \<or> char_at s p (CHR ''E'')
          then skipDigits s (if char_at s (Suc p) (CHR ''+'') \<or> char_at s (Suc p) (CHR ''-'') then Suc (Suc p) else Suc p)
          else p) = p + length ex"
  using ex
proof
  assume "ex = []"
  with del delimited_not [OF del] show ?thesis by simp
next
  assume "\<exists>e es ds. ex = e # es @ ds \<and> e \<in> {CHR ''e'', CHR ''E''} \<and> es \<in> {[], ''+'', ''-''} \<and> digits ds"
  then obtain e es ds where ex: "ex = e # es @ ds" and e: "e \<in> {CHR ''e'', CHR ''E''}"
    and es: "es \<in> {[], ''+'', ''-''}" and ds: "digits ds" by blast
  have ate: "char_at s p e" using at ex by (simp add: str_simps char_at_def)
  have ats: "str_at s (Suc p + length es) ds" using at ex by (simp add: str_simps)
  have sd: "skipDigits s (Suc p + length es) = p + length ex"
    using skipDigits_digits [OF _ ats] ds delimited_not(1) [OF del] ex by (simp add: digits_def add.assoc)
  have hd: "es = [] \<Longrightarrow> \<not> char_at s (Suc p) (CHR ''+'') \<and> \<not> char_at s (Suc p) (CHR ''-'')"
    using digits_head [OF ds ats] by (auto simp: char_at_def)
  have sg: "es \<noteq> [] \<Longrightarrow> length es = 1 \<and> (char_at s (Suc p) (CHR ''+'') \<or> char_at s (Suc p) (CHR ''-''))"
    using at ex es by (auto simp: str_simps char_at_def)
  have "char_at s p (CHR ''e'') \<or> char_at s p (CHR ''E'')" using ate e by auto
  then show ?thesis using sd hd sg by (cases "es = []") simp_all
qed

lemma scan_fraction:
  assumes fr: "fr = [] \<or> (\<exists>ds. fr = CHR ''.'' # ds \<and> digits ds)"
    and at: "str_at s p fr"
    and next_char: "\<not> (p + length fr < length s \<and> isdigit (s ! (p + length fr)))"
      "fr = [] \<Longrightarrow> \<not> char_at s p (CHR ''.'')"
  shows "(if char_at s p (CHR ''.'') then skipDigits s (Suc p) else p) = p + length fr"
proof (cases "fr = []")
  case False
  then obtain ds where ds: "fr = CHR ''.'' # ds" "digits ds" using fr by blast
  then have "char_at s p (CHR ''.'')" "str_at s (Suc p) ds" using at by (simp_all add: str_simps char_at_def)
  with ds next_char(1) skipDigits_digits [of ds s "Suc p"] show ?thesis by (simp add: digits_def)
qed (use next_char(2) in simp)

lemma scanNumber_text:
  assumes num: "number_text t" and at: "str_at s p t" and del: "delimited s (p + length t)"
  shows "scanNumber s p = p + length t"
  using num
proof cases
  case (1 sg ip fr ex)
  have parts: "str_at s p sg" "str_at s (p + length sg) ip" "str_at s (p + length sg + length ip) fr"
      "str_at s (p + length sg + length ip + length fr) ex"
    using at unfolding 1(1) by (simp_all add: str_simps add.assoc)
  let ?p1 = "p + length sg + length ip" and ?p2 = "p + length sg + length ip + length fr"
  have delx: "delimited s (?p2 + length ex)" using del 1(1) by (simp add: add.assoc)
  have ex: "(if char_at s ?p2 (CHR ''e'') \<or> char_at s ?p2 (CHR ''E'')
     then skipDigits s (if char_at s (Suc ?p2) (CHR ''+'') \<or> char_at s (Suc ?p2) (CHR ''-'') then Suc (Suc ?p2) else Suc ?p2)
     else ?p2) = ?p2 + length ex"
    by (rule scan_exponent [OF 1(5) parts(4) delx])
  have nd2: "\<not> (?p2 < length s \<and> isdigit (s ! ?p2)) \<and> \<not> char_at s ?p2 (CHR ''.'')"
    using 1(5)
  proof
    assume "ex = []"
    with delimited_not [OF delx] show ?thesis by simp
  next
    assume "\<exists>e es ds. ex = e # es @ ds \<and> e \<in> {CHR ''e'', CHR ''E''} \<and> es \<in> {[], ''+'', ''-''} \<and> digits ds"
    then obtain e r where "ex = e # r" "e \<in> {CHR ''e'', CHR ''E''}" by blast
    with parts(4) show ?thesis by (auto simp: str_at_Cons char_at_def)
  qed
  have fr: "(if char_at s ?p1 (CHR ''.'') then skipDigits s (Suc ?p1) else ?p1) = ?p2"
    by (rule scan_fraction [OF 1(4) parts(3)]) (use nd2 in simp_all)
  have "\<not> (?p1 < length s \<and> isdigit (s ! ?p1))"
  proof (cases "fr = []")
    case True
    with nd2 show ?thesis by simp
  next
    case False
    with 1(4) obtain r where "fr = CHR ''.'' # r" by blast
    with parts(3) show ?thesis by (simp add: str_at_Cons)
  qed
  then have ip: "skipDigits s (p + length sg) = ?p1"
    using skipDigits_digits [OF _ parts(2)] 1(3) by (simp add: digits_def)
  have sg: "(if char_at s p (CHR ''-'') then Suc p else p) = p + length sg"
    using 1(2) parts(1) digits_head [OF 1(3) parts(2)] by (auto simp: str_at_Cons char_at_def)
  show ?thesis
    unfolding scanNumber_def Let_def sg ip fr ex by (simp add: 1(1))
qed

subsection \<open>Completeness of the parser\<close>

lemma skipSpaces_idem [simp]: "skipSpaces s (skipSpaces s p) = skipSpaces s p"
proof (induction s p rule: skipSpaces.induct)
  case (1 s p)
  show ?case
  proof (cases "p < length s \<and> s ! p \<noteq> CHR 0x00 \<and> isspace (s ! p)")
    case True
    with 1 show ?thesis by (simp add: skipSpaces.simps [of s p])
  next
    case False
    then have "skipSpaces s p = p" by (subst skipSpaces.simps) auto
    then show ?thesis by simp
  qed
qed

lemma parseValue_skip: "parseValue json (skipSpaces json p) = parseValue json p"
  by (simp add: parseValue.simps [of json p] parseValue.simps [of json "skipSpaces json p"])

lemma parseObject_loop_skip: "parseObject_loop json (skipSpaces json p) ms = parseObject_loop json p ms"
  by (simp add: parseObject_loop.simps [of json p] parseObject_loop.simps [of json "skipSpaces json p"])

lemma parseArray_loop_skip: "parseArray_loop json (skipSpaces json p) es = parseArray_loop json p es"
  by (simp add: parseArray_loop.simps [of json p] parseArray_loop.simps [of json "skipSpaces json p"])

lemma number_text_head:
  assumes "number_text t"
  shows "\<exists>c r. t = c # r \<and> (c = CHR ''-'' \<or> isdigit c)"
  using assms
proof cases
  case (1 sg ip fr ex)
  then obtain d ds where "ip = d # ds" "isdigit d" by (cases ip) (auto simp: digits_def)
  with 1(1,2) show ?thesis by auto
qed

lemma not_space [simp]: "\<not> isspace QUOTE" "\<not> isspace (CHR '':'')" "\<not> isspace (CHR '','')"
  "\<not> isspace (CHR ''}'')" "\<not> isspace (CHR '']'')" "\<not> isspace (CHR ''{'')" "\<not> isspace (CHR ''['')"
  "\<not> isspace (CHR ''t'')" "\<not> isspace (CHR ''f'')" "\<not> isspace (CHR ''n'')" "\<not> isspace (CHR ''-'')"
  by (simp_all add: isspace_def)

lemma number_char: "c = CHR ''-'' \<or> isdigit c \<Longrightarrow> \<not> isspace c \<and> c \<noteq> CHR '']''"
  by (auto simp: isspace_isdigit) (simp add: isdigit_def)

lemma json_text_head:
  assumes "json_text v t"
  shows "\<exists>c r. t = c # r \<and> \<not> isspace c \<and> c \<noteq> CHR '']''"
  using assms
proof cases
  case (text_number d)
  then obtain c r where cr: "t = c # r" "c = CHR ''-'' \<or> isdigit c"
    using number_text_head [of t] by blast
  show ?thesis using cr(1) number_char [OF cr(2)] by simp
qed auto

lemma delimited_ws:
  "ws w \<Longrightarrow> str_at s p (w @ c # t) \<Longrightarrow> c \<in> {CHR '','', CHR '']'', CHR ''}''} \<Longrightarrow> delimited s p"
  by (cases w) (auto simp: str_simps delimited_def)

lemma members_text_head: "members_text ms t \<Longrightarrow> \<exists>w r. ws w \<and> t = w @ QUOTE # r"
  by (erule members_text.cases) blast+

lemma elements_text_head:
  assumes "elements_text es t"
  shows "\<exists>w c r. ws w \<and> t = w @ c # r \<and> \<not> isspace c \<and> c \<noteq> CHR '']''"
  using assms
proof cases
  case (text_element w1 w2 v vt)
  with json_text_head [OF text_element(5)] show ?thesis by fastforce
next
  case (text_elements w1 w2 v vt es t)
  with json_text_head [OF text_elements(5)] show ?thesis by fastforce
qed

lemma parseValue_object:
  assumes at: "str_at json pos (CHR ''{'' # t)" and p: "\<not> char_at json (skipSpaces json (Suc pos)) (CHR ''}'')"
  shows "parseValue json pos = parseObject_loop json (Suc pos) []"
proof -
  have "skipSpaces json pos = pos" "pos < length json" "json ! pos = CHR ''{''"
    using at by (simp_all add: str_at_Cons skipSpaces_stop)
  then show ?thesis
    unfolding parseValue.simps [of json pos] Let_def using p by (simp add: parseObject_loop_skip)
qed

lemma parseValue_array:
  assumes at: "str_at json pos (CHR ''['' # t)" and p: "\<not> char_at json (skipSpaces json (Suc pos)) (CHR '']'')"
  shows "parseValue json pos = parseArray_loop json (Suc pos) []"
proof -
  have "skipSpaces json pos = pos" "pos < length json" "json ! pos = CHR ''[''"
    using at by (simp_all add: str_at_Cons skipSpaces_stop)
  then show ?thesis
    unfolding parseValue.simps [of json pos] Let_def using p by (simp add: parseArray_loop_skip)
qed

text \<open>One round of the object loop: up to the value, and from the value on.\<close>

lemma parseObject_loop_member:
  assumes w: "ws w1" "ws w2" "ws w3" "ws w4" and k: "string_text k kt"
    and at: "str_at json pos (w1 @ QUOTE # kt @ QUOTE # w2 @ CHR '':'' # w3 @ vt @ w4 @ c # rest)"
    and vt: "vt = vc # vr" "\<not> isspace vc"
    and pv: "\<And>p. str_at json p vt \<Longrightarrow> delimited json (p + length vt) \<Longrightarrow> parseValue json p = Inr (v, p + length vt)"
    and c: "c \<in> {CHR '','', CHR ''}''}"
    and q: "q = Suc (Suc (Suc (pos + length w1 + length kt + length w2 + length w3 + length vt + length w4)))"
  shows "parseObject_loop json pos ms =
     (if c = CHR ''}'' then Inr (JsonObject (ms @ [(k, Some v)]), Suc q)
      else parseObject_loop json (Suc q) (ms @ [(k, Some v)]))"
proof -
  define p0 where "p0 = pos + length w1"
  define p1 where "p1 = p0 + length kt + 2"
  define p2 where "p2 = p1 + length w2"
  define p3 where "p3 = Suc p2 + length w3"
  define p4 where "p4 = p3 + length vt"
  have at0: "str_at json p0 (QUOTE # kt @ [QUOTE])" and at1: "str_at json p1 (w2 @ CHR '':'' # w3 @ vt @ w4 @ c # rest)"
    and at2: "str_at json (Suc p2) (w3 @ vt @ w4 @ c # rest)" and at3: "str_at json p3 (vt @ w4 @ c # rest)"
    and at4: "str_at json p4 (w4 @ c # rest)" and at5: "str_at json q (c # rest)"
    using at by (simp_all add: p0_def p1_def p2_def p3_def p4_def q str_simps ac_simps)
  have s0: "skipSpaces json pos = p0" using skipSpaces_to [OF w(1) at] by (simp add: p0_def)
  have c0: "\<not> (length json \<le> p0 \<or> json ! p0 \<noteq> QUOTE)" using at0 by (simp add: str_at_Cons)
  have ps: "parseString json p0 = Inr (k, p1)" using parseString_text [OF k at0] by (simp add: p1_def)
  have s1: "skipSpaces json p1 = p2" using skipSpaces_to [OF w(2) at1] by (simp add: p2_def)
  have c1: "\<not> (length json \<le> p2 \<or> json ! p2 \<noteq> CHR '':'')" using at1 by (simp add: str_simps p2_def)
  have s2: "skipSpaces json (Suc p2) = p3"
    using skipSpaces_to [OF w(3), of json "Suc p2" vc "vr @ w4 @ c # rest"] at2 vt by (simp add: p3_def)
  have "str_at json p3 vt" using at3 by (simp add: str_simps)
  moreover have "delimited json (p3 + length vt)"
    using delimited_ws [OF w(4) at4] c by (auto simp: p4_def)
  ultimately have pv': "parseValue json p3 = Inr (v, p4)" using pv by (simp add: p4_def)
  have "\<not> isspace c" using c by auto
  then have s4: "skipSpaces json p4 = q" using skipSpaces_to [OF w(4) at4] by (simp add: q p0_def p1_def p2_def p3_def p4_def)
  have c4: "\<not> length json \<le> q" "json ! q = c" using at5 by (simp_all add: str_at_Cons)
  show ?thesis
    unfolding parseObject_loop.simps [of json pos ms] Let_def s0 if_not_P [OF c0]
    using c1 c4 c by (auto simp: ps s1 s2 pv' s4)
qed

lemma parseArray_loop_element:
  assumes w: "ws w1" "ws w2"
    and at: "str_at json pos (w1 @ vt @ w2 @ c # rest)"
    and vt: "vt = vc # vr" "\<not> isspace vc"
    and pv: "\<And>p. str_at json p vt \<Longrightarrow> delimited json (p + length vt) \<Longrightarrow> parseValue json p = Inr (v, p + length vt)"
    and c: "c \<in> {CHR '','', CHR '']''}"
    and q: "q = pos + length w1 + length vt + length w2"
  shows "parseArray_loop json pos es =
     (if c = CHR '']'' then Inr (JsonArray (es @ [Some v]), Suc q)
      else parseArray_loop json (Suc q) (es @ [Some v]))"
proof -
  define p0 where "p0 = pos + length w1"
  define p1 where "p1 = p0 + length vt"
  have at0: "str_at json p0 vt" and at1: "str_at json p1 (w2 @ c # rest)" and at2: "str_at json q (c # rest)"
    using at by (simp_all add: p0_def p1_def q str_simps ac_simps)
  have s0: "skipSpaces json pos = p0"
    using skipSpaces_to [OF w(1), of json pos vc "vr @ w2 @ c # rest"] at vt by (simp add: p0_def)
  have "delimited json (p0 + length vt)" using delimited_ws [OF w(2) at1] c by (auto simp: p1_def)
  then have pv': "parseValue json p0 = Inr (v, p1)" using pv [OF at0] by (simp add: p1_def)
  have "\<not> isspace c" using c by auto
  then have s1: "skipSpaces json p1 = q" using skipSpaces_to [OF w(2) at1] by (simp add: q p0_def p1_def)
  have c1: "\<not> length json \<le> q" "json ! q = c" using at2 by (simp_all add: str_at_Cons)
  show ?thesis
    unfolding parseArray_loop.simps [of json pos es] Let_def s0 using c1 c by (auto simp: pv' s1)
qed

lemma compare_at_str_at: "str_at s p t \<Longrightarrow> compare_at s p t"
  by (simp add: str_at_def compare_at_def)

lemma parseValue_scalar:
  assumes "str_at json pos (c # r)" "\<not> isspace c" "c \<noteq> CHR ''{''" "c \<noteq> CHR ''[''"
  shows "parseValue json pos =
    (if c = QUOTE then (case parseString json pos of Inl e \<Rightarrow> Inl e | Inr (s, p) \<Rightarrow> Inr (JsonString s, p))
     else if c = CHR ''t'' \<or> c = CHR ''f'' then parseBoolean json pos
     else if c = CHR ''n'' then parseNull json pos
     else if c = CHR ''-'' \<or> isdigit c then parseNumber json pos
     else Inl (RuntimeError (''Invalid JSON value at pos '' @ show_nat pos)))"
proof -
  have "skipSpaces json pos = pos" "pos < length json" "json ! pos = c"
    using assms by (simp_all add: str_at_Cons skipSpaces_stop)
  then show ?thesis using assms(3,4) unfolding parseValue.simps [of json pos] Let_def by simp
qed

lemma parseValue_empty_object:
  assumes "ws w" "str_at json pos (CHR ''{'' # w @ ''}'')"
  shows "parseValue json pos = Inr (JsonObject [], Suc (Suc (pos + length w)))"
proof -
  have "skipSpaces json pos = pos" "pos < length json" "json ! pos = CHR ''{''"
    using assms by (simp_all add: str_at_Cons skipSpaces_stop)
  moreover have "skipSpaces json (Suc pos) = Suc (pos + length w)"
    using assms skipSpaces_to [of w json "Suc pos" "CHR ''}''" "[]"] by (simp add: str_at_Cons)
  moreover have "char_at json (Suc (pos + length w)) (CHR ''}'')"
    using assms by (simp add: str_simps char_at_def)
  ultimately show ?thesis unfolding parseValue.simps [of json pos] Let_def by simp
qed

lemma parseValue_empty_array:
  assumes "ws w" "str_at json pos (CHR ''['' # w @ '']'')"
  shows "parseValue json pos = Inr (JsonArray [], Suc (Suc (pos + length w)))"
proof -
  have "skipSpaces json pos = pos" "pos < length json" "json ! pos = CHR ''[''"
    using assms by (simp_all add: str_at_Cons skipSpaces_stop)
  moreover have "skipSpaces json (Suc pos) = Suc (pos + length w)"
    using assms skipSpaces_to [of w json "Suc pos" "CHR '']''" "[]"] by (simp add: str_at_Cons)
  moreover have "char_at json (Suc (pos + length w)) (CHR '']'')"
    using assms by (simp add: str_simps char_at_def)
  ultimately show ?thesis unfolding parseValue.simps [of json pos] Let_def by simp
qed

lemma parse_text:
  "json_text v t \<Longrightarrow> str_at json pos t \<Longrightarrow> delimited json (pos + length t) \<Longrightarrow>
     parseValue json pos = Inr (v, pos + length t)"
  "members_text ms t \<Longrightarrow> str_at json pos (t @ ''}'') \<Longrightarrow>
     parseObject_loop json pos macc = Inr (JsonObject (macc @ ms), pos + length t + 1)"
  "elements_text es t \<Longrightarrow> str_at json pos (t @ '']'') \<Longrightarrow>
     parseArray_loop json pos eacc = Inr (JsonArray (eacc @ es), pos + length t + 1)"
proof (induction arbitrary: pos and pos macc and pos eacc rule: json_text_members_text_elements_text.inducts)
  case text_null
  then show ?case using parseValue_scalar [of json pos "CHR ''n''"]
    by (simp add: parseNull_def compare_at_str_at)
next
  case text_true
  then show ?case using parseValue_scalar [of json pos "CHR ''t''"]
    by (simp add: parseBoolean_def compare_at_str_at)
next
  case text_false
  moreover have "\<not> compare_at json pos ''true''"
    using text_false.prems(1) compare_at_def str_at_nth [of json pos "''false''" 0]
    by (auto simp: str_simps compare_at_def take_Suc_conv_app_nth)
  ultimately show ?case using parseValue_scalar [of json pos "CHR ''f''"]
    by (simp add: parseBoolean_def compare_at_str_at)
next
  case (text_string s t)
  then show ?case using parseValue_scalar [of json pos QUOTE "t @ [QUOTE]"] parseString_text [of s t json pos]
    by simp
next
  case (text_number t d)
  obtain c r where c: "t = c # r" "c = CHR ''-'' \<or> isdigit c" using number_text_head [OF text_number(1)] by blast
  have ne: "c \<noteq> CHR ''{''" "c \<noteq> CHR ''[''" "c \<noteq> QUOTE" "c \<noteq> CHR ''t''" "c \<noteq> CHR ''f''" "c \<noteq> CHR ''n''"
    using c(2) by (auto simp: isdigit_def)
  have "parseNumber json pos = Inr (JsonNumber d, pos + length t)"
    using scanNumber_text [OF text_number(1,3,4)] str_at_substr [OF text_number(3)] text_number(2)
    by (simp add: parseNumber_def)
  then show ?case using parseValue_scalar [of json pos c r] text_number(3) c ne number_char [OF c(2)] by simp
next
  case (text_object_empty w)
  then show ?case using parseValue_empty_object [of w json pos] by simp
next
  case (text_object ms t)
  obtain w r where w: "ws w" "t = w @ QUOTE # r" using members_text_head [OF text_object(1)] by blast
  have at: "str_at json (Suc pos) (t @ ''}'')" using text_object.prems by (simp add: str_at_Cons)
  have "skipSpaces json (Suc pos) = Suc pos + length w"
    using skipSpaces_to [OF w(1), of json "Suc pos" QUOTE "r @ ''}''"] at w(2) by simp
  moreover have "\<not> char_at json (Suc pos + length w) (CHR ''}'')"
    using at w(2) by (simp add: str_simps char_at_def)
  ultimately have "parseValue json pos = parseObject_loop json (Suc pos) []"
    using parseValue_object text_object.prems(1) by simp
  with text_object.IH [OF at] show ?case by simp
next
  case (text_array_empty w)
  then show ?case using parseValue_empty_array [of w json pos] by simp
next
  case (text_array es t)
  obtain w c r where w: "ws w" "t = w @ c # r" "\<not> isspace c" "c \<noteq> CHR '']''"
    using elements_text_head [OF text_array(1)] by blast
  have at: "str_at json (Suc pos) (t @ '']'')" using text_array.prems by (simp add: str_at_Cons)
  have "skipSpaces json (Suc pos) = Suc pos + length w"
    using skipSpaces_to [OF w(1), of json "Suc pos" c "r @ '']''"] at w(2,3) by simp
  moreover have "\<not> char_at json (Suc pos + length w) (CHR '']'')"
    using at w(2,4) by (simp add: str_simps char_at_def)
  ultimately have "parseValue json pos = parseArray_loop json (Suc pos) []"
    using parseValue_array text_array.prems(1) by simp
  with text_array.IH [OF at] show ?case by simp
next
  case (text_member w1 w2 w3 w4 k kt v vt)
  obtain c r where c: "vt = c # r" "\<not> isspace c" using json_text_head [OF text_member(6)] by blast
  show ?case
    using parseObject_loop_member [OF text_member(1-5) _ c text_member.IH, where c = "CHR ''}''" and rest = "[]"]
      text_member.prems by simp
next
  case (text_members w1 w2 w3 w4 k kt v vt ms t)
  obtain c r where c: "vt = c # r" "\<not> isspace c" using json_text_head [OF text_members(6)] by blast
  let ?q = "Suc (Suc (Suc (pos + length w1 + length kt + length w2 + length w3 + length vt + length w4)))"
  have at: "str_at json (Suc ?q) (t @ ''}'')"
    using text_members.prems by (simp add: str_simps ac_simps)
  have "parseObject_loop json pos macc = parseObject_loop json (Suc ?q) (macc @ [(k, Some v)])"
    using parseObject_loop_member [OF text_members(1-5) _ c text_members.IH(1), where c = "CHR '',''" and rest = "t @ ''}''"]
      text_members.prems by simp
  also have "\<dots> = Inr (JsonObject ((macc @ [(k, Some v)]) @ ms), Suc ?q + length t + 1)"
    by (rule text_members.IH(2) [OF at])
  finally show ?case by simp
next
  case (text_element w1 w2 v vt)
  obtain c r where c: "vt = c # r" "\<not> isspace c" using json_text_head [OF text_element(3)] by blast
  show ?case
    using parseArray_loop_element [OF text_element(1,2) _ c text_element.IH, where c = "CHR '']''" and rest = "[]"]
      text_element.prems by simp
next
  case (text_elements w1 w2 v vt es t)
  obtain c r where c: "vt = c # r" "\<not> isspace c" using json_text_head [OF text_elements(3)] by blast
  let ?q = "pos + length w1 + length vt + length w2"
  have at: "str_at json (Suc ?q) (t @ '']'')"
    using text_elements.prems by (simp add: str_simps ac_simps)
  have "parseArray_loop json pos eacc = parseArray_loop json (Suc ?q) (eacc @ [Some v])"
    using parseArray_loop_element [OF text_elements(1,2) _ c text_elements.IH(1), where c = "CHR '',''" and rest = "t @ '']''"]
      text_elements.prems by simp
  also have "\<dots> = Inr (JsonArray ((eacc @ [Some v]) @ es), Suc ?q + length t + 1)"
    by (rule text_elements.IH(2) [OF at])
  finally show ?case by simp
qed

lemma parse_complete:
  assumes "json_text v t" "ws w1" "ws w2"
  shows "parse (w1 @ t @ w2) = Inr v"
proof -
  let ?s = "w1 @ t @ w2"
  obtain c r where c: "t = c # r" "\<not> isspace c" using json_text_head [OF assms(1)] by blast
  have all: "str_at ?s 0 (w1 @ c # r @ w2)" using c(1) by (metis append_Cons str_at_self)
  have s0: "skipSpaces ?s 0 = length w1" using skipSpaces_to [OF assms(2) all c(2)] by simp
  have parts: "str_at ?s (length w1) t" "str_at ?s (length w1 + length t) w2"
    using str_at_self [of ?s] by (simp_all only: str_at_append) simp_all
  have "delimited ?s (length w1 + length t)"
    using assms(3) by (cases w2) (auto simp: delimited_def nth_append)
  then have "parseValue ?s (length w1) = Inr (v, length w1 + length t)"
    using parse_text(1) [OF assms(1) parts(1)] by blast
  moreover have "skipSpaces ?s (length w1 + length t) = length ?s"
    using skipSpaces_ws [OF assms(3) parts(2)] by (simp add: skipSpaces_end)
  ultimately show ?thesis by (simp add: parse_def s0)
qed

end
