(* ===== verification/JsonRoundtrip.thy ===== *)
theory JsonRoundtrip
  imports JsonGrammar
begin

text \<open>
  Printing and parsing JSON. The printers \<open>toString\<close> and \<open>dump\<close> write a text of the grammar for every
  value whose numbers print readably and whose member names contain neither quote nor backslash (the
  printers do not escape them), so that parsing gives the value back; null elements of arrays come back
  as JSON nulls. What a number has to satisfy is an interface, which the six-digit integers meet.
\<close>

subsection \<open>Values that print readably\<close>

fun printable :: "(double \<Rightarrow> bool) \<Rightarrow> json \<Rightarrow> bool"
  and printable_members :: "(double \<Rightarrow> bool) \<Rightarrow> members \<Rightarrow> bool"
  and printable_elements :: "(double \<Rightarrow> bool) \<Rightarrow> elements \<Rightarrow> bool"
where
  "printable ok (JsonNumber d) = ok d"
| "printable ok (JsonObject ms) = printable_members ok ms"
| "printable ok (JsonArray es) = printable_elements ok es"
| "printable ok _ = True"
| "printable_members ok [] = True"
| "printable_members ok ((k, None) # ms) = False"
| "printable_members ok ((k, Some v) # ms) =
     (QUOTE \<notin> set k \<and> BSLASH \<notin> set k \<and> printable ok v \<and> printable_members ok ms)"
| "printable_elements ok [] = True"
| "printable_elements ok (None # es) = printable_elements ok es"
| "printable_elements ok (Some v # es) = (printable ok v \<and> printable_elements ok es)"

text \<open>The value a printed value is read back as.\<close>

fun denull :: "json \<Rightarrow> json"
  and denull_members :: "members \<Rightarrow> members"
  and denull_elements :: "elements \<Rightarrow> elements"
where
  "denull (JsonObject ms) = JsonObject (denull_members ms)"
| "denull (JsonArray es) = JsonArray (denull_elements es)"
| "denull (JsonString s) = JsonString s"
| "denull (JsonNumber d) = JsonNumber d"
| "denull (JsonBoolean b) = JsonBoolean b"
| "denull JsonNull = JsonNull"
| "denull_members [] = []"
| "denull_members ((k, None) # ms) = (k, None) # denull_members ms"
| "denull_members ((k, Some v) # ms) = (k, Some (denull v)) # denull_members ms"
| "denull_elements [] = []"
| "denull_elements (None # es) = Some JsonNull # denull_elements es"
| "denull_elements (Some v # es) = Some (denull v) # denull_elements es"

subsection \<open>Strings\<close>

lemma string_text_escape: "string_text s (concat (map escape_char s))"
proof (induction s)
  case Nil
  then show ?case by (simp add: string_end)
next
  case (Cons c s)
  note esc = string_escape [OF _ Cons]
  consider "c = QUOTE" | "c = BSLASH" | "c = LF" | "c = CR" | "c = TAB"
    | "c \<noteq> QUOTE" "c \<noteq> BSLASH" "c \<noteq> LF" "c \<noteq> CR" "c \<noteq> TAB" by blast
  then show ?case
  proof cases
    case 1
    then show ?thesis using esc [of QUOTE] by (simp add: escape_char_def unescape_def)
  next
    case 2
    then show ?thesis using esc [of BSLASH] by (simp add: escape_char_def unescape_def)
  next
    case 3
    then show ?thesis using esc [of "CHR ''n''"] by (simp add: escape_char_def unescape_def)
  next
    case 4
    then show ?thesis using esc [of "CHR ''r''"] by (simp add: escape_char_def unescape_def)
  next
    case 5
    then show ?thesis using esc [of "CHR ''t''"] by (simp add: escape_char_def unescape_def)
  next
    case 6
    then show ?thesis using string_char [OF _ _ Cons] by (simp add: escape_char_def)
  qed
qed

lemma string_text_plain: "QUOTE \<notin> set k \<Longrightarrow> BSLASH \<notin> set k \<Longrightarrow> string_text k k"
  by (induction k) (auto intro: string_text.intros)

lemma quote_string_text: "json_text (JsonString s) (quote_string s)"
  unfolding quote_string_def by (rule text_string [OF string_text_escape])

lemma ws_spaces [simp]: "ws (spaces n)"
  by (simp add: spaces_def list_all_iff)

text \<open>Adding a member or element in front, whether or not others follow.\<close>

definition more_members :: "members \<Rightarrow> string \<Rightarrow> bool" where
  "more_members ms t \<longleftrightarrow> (if ms = [] then ws t else \<exists>w t'. ws w \<and> t = w @ CHR '','' # t' \<and> members_text ms t')"

definition more_elements :: "elements \<Rightarrow> string \<Rightarrow> bool" where
  "more_elements es t \<longleftrightarrow> (if es = [] then ws t else \<exists>w t'. ws w \<and> t = w @ CHR '','' # t' \<and> elements_text es t')"

lemma members_text_Cons:
  assumes "ws w1" "ws w3" "string_text k kt" "json_text v vt" "more_members ms t"
  shows "members_text ((k, Some v) # ms) (w1 @ QUOTE # kt @ QUOTE # CHR '':'' # w3 @ vt @ t)"
proof (cases "ms = []")
  case True
  then show ?thesis
    using text_member [OF assms(1) _ assms(2) _ assms(3,4), of "[]" t] assms(5) by (simp add: more_members_def)
next
  case False
  then obtain w t' where "ws w" "t = w @ CHR '','' # t'" "members_text ms t'"
    using assms(5) by (auto simp: more_members_def)
  then show ?thesis
    using text_members [OF assms(1) _ assms(2) _ assms(3,4), of "[]" w ms t'] by simp
qed

lemma elements_text_Cons:
  assumes "ws w1" "json_text v vt" "more_elements es t"
  shows "elements_text (Some v # es) (w1 @ vt @ t)"
proof (cases "es = []")
  case True
  then show ?thesis using text_element [OF assms(1) _ assms(2), of t] assms(3) by (simp add: more_elements_def)
next
  case False
  then obtain w t' where "ws w" "t = w @ CHR '','' # t'" "elements_text es t'"
    using assms(3) by (auto simp: more_elements_def)
  then show ?thesis using text_elements [OF assms(1) _ assms(2), of w es t'] by simp
qed

lemma more_members_comma: "ms \<noteq> [] \<Longrightarrow> members_text ms t \<Longrightarrow> more_members ms (CHR '','' # t)"
  unfolding more_members_def by (simp, rule exI [of _ "[]"]) simp

lemma more_elements_comma: "es \<noteq> [] \<Longrightarrow> elements_text es t \<Longrightarrow> more_elements es (CHR '','' # t)"
  unfolding more_elements_def by (simp, rule exI [of _ "[]"]) simp

lemmas more_comma = more_members_comma more_elements_comma

lemma more_Nil: "ws t \<Longrightarrow> more_members [] t" "ws t \<Longrightarrow> more_elements [] t"
  by (simp_all add: more_members_def more_elements_def)

lemma object_text: "ms = [] \<and> ws t \<or> members_text ms t \<Longrightarrow> json_text (JsonObject ms) (CHR ''{'' # t @ ''}'')"
  using text_object text_object_empty by blast

lemma array_text: "es = [] \<and> ws t \<or> elements_text es t \<Longrightarrow> json_text (JsonArray es) (CHR ''['' # t @ '']'')"
  using text_array text_array_empty by blast

lemma denull_Nil [simp]: "denull_members ms = [] \<longleftrightarrow> ms = []" "denull_elements es = [] \<longleftrightarrow> es = []"
  by (cases ms rule: denull_members.cases; simp) (cases es rule: denull_elements.cases; simp)

subsection \<open>The interface to number output\<close>

locale readable_numbers =
  fixes ok :: "double \<Rightarrow> bool"
  assumes ok_text: "ok d \<Longrightarrow> number_text (show_double d)"
    and ok_stod: "ok d \<Longrightarrow> stod (show_double d) = Inr d"
begin

lemma number_json_text: "ok d \<Longrightarrow> json_text (JsonNumber d) (show_double d)"
  by (intro text_number ok_text ok_stod)

lemma toString_text:
  "printable ok v \<Longrightarrow> \<exists>t. toString v = Some t \<and> json_text (denull v) t"
  "printable_members ok ms \<Longrightarrow>
     \<exists>t. toString_members first ms = Some t \<and>
         (if first then ms = [] \<and> t = [] \<or> members_text (denull_members ms) t
          else more_members (denull_members ms) t)"
  "printable_elements ok es \<Longrightarrow>
     \<exists>t. toString_elements efirst es = Some t \<and>
         (if efirst then es = [] \<and> t = [] \<or> elements_text (denull_elements es) t
          else more_elements (denull_elements es) t)"
proof (induction v and first ms and efirst es rule: toString_toString_members_toString_elements.induct)
  case (5 ms)
  then obtain t where "toString_members True ms = Some t" "ms = [] \<and> t = [] \<or> members_text (denull_members ms) t"
    by auto
  then show ?case using object_text [of "denull_members ms" t] by auto
next
  case (6 es)
  then obtain t where "toString_elements True es = Some t" "es = [] \<and> t = [] \<or> elements_text (denull_elements es) t"
    by auto
  then show ?case using array_text [of "denull_elements es" t] by auto
next
  case (9 first key v ms)
  then obtain s where s: "toString v = Some s" "json_text (denull v) s" by auto
  with 9 obtain r where r: "toString_members False ms = Some r" "more_members (denull_members ms) r" by auto
  have "string_text key key" using 9(3) by (intro string_text_plain) auto
  from members_text_Cons [OF _ _ this s(2) r(2), of "[]" "[]"]
  have "members_text ((key, Some (denull v)) # denull_members ms) (QUOTE # key @ QUOTE # CHR '':'' # s @ r)" by simp
  with s r show ?case by (simp add: more_comma)
next
  case (11 first es)
  then obtain r where r: "toString_elements False es = Some r" "more_elements (denull_elements es) r" by auto
  from elements_text_Cons [OF _ text_null r(2), of "[]"]
  have "elements_text (Some JsonNull # denull_elements es) (''null'' @ r)" by simp
  with r show ?case by (simp add: more_comma)
next
  case (12 first v es)
  then obtain s where s: "toString v = Some s" "json_text (denull v) s" by auto
  with 12 obtain r where r: "toString_elements False es = Some r" "more_elements (denull_elements es) r" by auto
  from elements_text_Cons [OF _ s(2) r(2), of "[]"]
  have "elements_text (Some (denull v) # denull_elements es) (s @ r)" by simp
  with s r show ?case by (simp add: more_comma)
qed (auto simp: quote_string_text number_json_text text_true text_false text_null more_members_def more_elements_def)

lemma dump_text:
  "0 \<le> depth \<Longrightarrow> printable ok v \<Longrightarrow> \<exists>t. dump indent depth v = Some t \<and> json_text (denull v) t"
  "0 \<le> depth \<Longrightarrow> printable_members ok ms \<Longrightarrow>
     \<exists>t. dump_members indent depth ms = Some t \<and> (ms = [] \<longrightarrow> t = []) \<and>
       (\<forall>w w'. ws w \<longrightarrow> ws w' \<longrightarrow> ms \<noteq> [] \<longrightarrow> members_text (denull_members ms) (w @ t @ w'))"
  "0 \<le> depth \<Longrightarrow> printable_elements ok es \<Longrightarrow>
     \<exists>t. dump_elements indent depth es = Some t \<and> (es = [] \<longrightarrow> t = []) \<and>
       (\<forall>w w'. ws w \<longrightarrow> ws w' \<longrightarrow> es \<noteq> [] \<longrightarrow> elements_text (denull_elements es) (w @ t @ w'))"
proof (induction indent depth v and indent depth ms and indent depth es
    rule: dump_dump_members_dump_elements.induct)
  case (1 indent depth ms)
  show ?case
  proof (cases "indent < 0")
    case True
    then show ?thesis using toString_text(1) [OF "1.prems"(2)] by simp
  next
    case False
    then have w: "\<not> depth * indent < 0" using "1.prems"(1) by (simp add: not_less)
    with False 1 obtain t where t: "dump_members indent depth ms = Some t" "ms = [] \<longrightarrow> t = []"
      "\<forall>w w'. ws w \<longrightarrow> ws w' \<longrightarrow> ms \<noteq> [] \<longrightarrow> members_text (denull_members ms) (w @ t @ w')" by auto
    then show ?thesis
      using False w object_text [of "denull_members ms" "LF # t @ spaces (depth * indent)"] t(3) [rule_format, of "[LF]"]
      by (cases "ms = []") auto
  qed
next
  case (2 indent depth es)
  show ?case
  proof (cases "indent < 0")
    case True
    then show ?thesis using toString_text(1) [OF "2.prems"(2)] by simp
  next
    case False
    then have w: "\<not> depth * indent < 0" using "2.prems"(1) by (simp add: not_less)
    with False 2 obtain t where t: "dump_elements indent depth es = Some t" "es = [] \<longrightarrow> t = []"
      "\<forall>w w'. ws w \<longrightarrow> ws w' \<longrightarrow> es \<noteq> [] \<longrightarrow> elements_text (denull_elements es) (w @ t @ w')" by auto
    then show ?thesis
      using False w array_text [of "denull_elements es" "LF # t @ spaces (depth * indent)"] t(3) [rule_format, of "[LF]"]
      by (cases "es = []") auto
  qed
next
  case (6 indent depth key v ms)
  then obtain s where s: "dump indent (depth + 1) v = Some s" "json_text (denull v) s" by auto
  with 6 obtain t where t: "dump_members indent depth ms = Some t" "ms = [] \<longrightarrow> t = []"
    "\<forall>w w'. ws w \<longrightarrow> ws w' \<longrightarrow> ms \<noteq> [] \<longrightarrow> members_text (denull_members ms) (w @ t @ w')" by auto
  have k: "string_text key key" using 6(4) by (intro string_text_plain) auto
  let ?r = "\<lambda>w'. (if ms \<noteq> [] then '','' else []) @ [LF] @ t @ w'"
  have more: "more_members (denull_members ms) (?r w')" if "ws w'" for w'
    using that t(2) t(3) [rule_format, of "[LF]" w'] by (cases "ms = []") (auto intro: more_comma more_Nil)
  have "members_text (denull_members ((key, Some v) # ms))
      (w @ (spaces ((depth + 1) * indent) @ [QUOTE] @ key @ [QUOTE, CHR '':'', CHR '' ''] @ s @ ?r []) @ w')"
    if "ws w" "ws w'" for w w'
    using members_text_Cons [OF _ _ k s(2) more [OF that(2)], of "w @ spaces ((depth + 1) * indent)" "'' ''"] that
    by simp
  with s t show ?case by auto
next
  case (8 indent depth es)
  then obtain t where t: "dump_elements indent depth es = Some t" "es = [] \<longrightarrow> t = []"
    "\<forall>w w'. ws w \<longrightarrow> ws w' \<longrightarrow> es \<noteq> [] \<longrightarrow> elements_text (denull_elements es) (w @ t @ w')" by auto
  let ?r = "\<lambda>w'. (if es \<noteq> [] then '','' else []) @ [LF] @ t @ w'"
  have more: "more_elements (denull_elements es) (?r w')" if "ws w'" for w'
    using that t(2) t(3) [rule_format, of "[LF]" w'] by (cases "es = []") (auto intro: more_comma more_Nil)
  have "elements_text (denull_elements (None # es)) (w @ (spaces ((depth + 1) * indent) @ ''null'' @ ?r []) @ w')"
    if "ws w" "ws w'" for w w'
    using elements_text_Cons [OF _ text_null more [OF that(2)], of "w @ spaces ((depth + 1) * indent)"] that by simp
  with t show ?case by auto
next
  case (9 indent depth v es)
  then obtain s where s: "dump indent (depth + 1) v = Some s" "json_text (denull v) s" by auto
  with 9 obtain t where t: "dump_elements indent depth es = Some t" "es = [] \<longrightarrow> t = []"
    "\<forall>w w'. ws w \<longrightarrow> ws w' \<longrightarrow> es \<noteq> [] \<longrightarrow> elements_text (denull_elements es) (w @ t @ w')" by auto
  let ?r = "\<lambda>w'. (if es \<noteq> [] then '','' else []) @ [LF] @ t @ w'"
  have more: "more_elements (denull_elements es) (?r w')" if "ws w'" for w'
    using that t(2) t(3) [rule_format, of "[LF]" w'] by (cases "es = []") (auto intro: more_comma more_Nil)
  have "elements_text (denull_elements (Some v # es)) (w @ (spaces ((depth + 1) * indent) @ s @ ?r []) @ w')"
    if "ws w" "ws w'" for w w'
    using elements_text_Cons [OF _ s(2) more [OF that(2)], of "w @ spaces ((depth + 1) * indent)"] that by simp
  with s t show ?case by auto
qed (auto simp: quote_string_text number_json_text text_true text_false text_null)

end

subsection \<open>Integers of up to six digits\<close>

lemma digits_show_nat: "digits (show_nat n)"
  using show_nat_digits [of n] by (auto simp: digits_def list_all_iff)

lemma number_text_show_int: "number_text (show_int i)"
  using number_text.intros [of "''-''" "show_nat (nat (- i))" "[]" "[]"]
    number_text.intros [of "[]" "show_nat (nat i)" "[]" "[]"] digits_show_nat
  by (simp add: show_int_def)

interpretation small: readable_numbers small_int
proof
  fix d
  assume "small_int d"
  then obtain i where i: "\<bar>i\<bar> < 10 ^ 6" "d = double_of_int i" by (auto simp: small_int_def)
  then show "number_text (show_double d)" by (simp add: show_double_int number_text_show_int)
  from i(1) have "\<bar>i\<bar> < 2 ^ 53" by simp
  with i show "stod (show_double d) = Inr d" by (simp add: show_double_int stod_show_int)
qed

lemma small_int_double_of_int [intro]: "\<bar>i\<bar> < 10 ^ 6 \<Longrightarrow> small_int (double_of_int i)"
  unfolding small_int_def by blast

lemma parseString_loop_open:
  assumes "pos \<le> length json" and "QUOTE \<notin> set (drop pos json)" and "BSLASH \<notin> set (drop pos json)"
  shows "parseString_loop json pos out = Inr (out @ drop pos json, length json)"
  using assms
proof (induction json pos out rule: parseString_loop.induct)
  case (1 json pos out)
  show ?case
  proof (cases "pos < length json")
    case True
    then have d: "drop pos json = json ! pos # drop (Suc pos) json" by (simp add: Cons_nth_drop_Suc)
    with 1 True show ?thesis by (subst parseString_loop.simps) (auto simp: d)
  next
    case False
    with 1(3) show ?thesis by (subst parseString_loop.simps) simp
  qed
qed

subsection \<open>Properties\<close>



text \<open>
  C7: The compact form of a value is parsed back to the value, when its numbers are integers of at
  most six digits and its member names contain neither quote nor backslash; strings may contain any
  character. Null elements of arrays come back as JSON nulls.
\<close>

theorem toString_roundtrip:
  assumes "printable small_int v"
  shows "\<exists>t. toString v = Some t \<and> parse t = Inr (denull v)"
  using small.toString_text(1) [OF assms] parse_complete [of "denull v" _ "[]" "[]"] by auto

theorem toString_roundtrip_witness:
  "\<exists>t. toString (JsonArray [Some (JsonNumber (double_of_int 42)), None, Some (JsonString [QUOTE, LF])]) = Some t
       \<and> parse t = Inr (denull (JsonArray [Some (JsonNumber (double_of_int 42)), None, Some (JsonString [QUOTE, LF])]))"
  by (rule toString_roundtrip) auto



text \<open>
  A string that is never closed is accepted: the parser takes everything up to the end of the
  text as its contents instead of reporting an error.
\<close>

lemma unterminated_string_accepted:
  assumes "QUOTE \<notin> set s" and "BSLASH \<notin> set s"
  shows "parse (QUOTE # s) = Inr (JsonString s)"
proof -
  have "skipSpaces (QUOTE # s) 0 = 0" by (subst skipSpaces.simps) (simp add: isspace_def)
  moreover have "skipSpaces (QUOTE # s) (Suc (length s)) = Suc (length s)" by (subst skipSpaces.simps) simp
  moreover have "parseString (QUOTE # s) 0 = Inr (s, Suc (length s))"
    using parseString_loop_open [of 1 "QUOTE # s" "[]"] assms by (simp add: parseString_def)
  ultimately show ?thesis by (simp add: parse_def parseValue.simps [of "QUOTE # s" 0])
qed

lemma unterminated_string_accepted_witness: "parse (QUOTE # ''abc'') = Inr (JsonString ''abc'')"
  by (rule unterminated_string_accepted) simp_all

text \<open>
  Numbers are printed with six significant digits, so that the compact form of 1234567 reads back
  as another number.
\<close>

lemma number_precision_lost:
  "toString (JsonNumber (double_of_int 1234567)) = Some ''1.23457e+06''
   \<and> parse ''1.23457e+06'' = Inr (JsonNumber (double_of_int 1234570))
   \<and> double_of_int 1234570 \<noteq> double_of_int 1234567"
  by code_simp

text \<open>
  Member names are printed without escaping, so that the compact form of an object with a quote in
  a member name is not accepted by the parser.
\<close>

lemma unescaped_key_rejected:
  "map_option parse (toString (JsonObject [([QUOTE], Some JsonNull)])) = Some (Inl (RuntimeError ''Expected ':' after key''))"
  by code_simp

end
