(* ===== verification/Main_Program.thy ===== *)
theory Main_Program
  imports JsonValue JsonRoundtrip
begin
















end
