(* ===== verification/JsonAssign.thy ===== *)
theory JsonAssign
  imports JsonValue
begin

text \<open>
  The assignment operators of the proxy class \<open>JsonValue\<close> of \<open>include/protocol/Json.hpp\<close> for the types of C++:
  integers of 32 and 64 bits are converted to \<open>double\<close>, a C string ends at its first null character, and
  assigning a proxy to a proxy makes it refer to the other slot and leaves the document alone. The lemmas
  show which integers survive the conversion.
\<close>

subsection \<open>Operators\<close>

definition assign_cstr :: "json option \<Rightarrow> json_ref \<Rightarrow> string \<Rightarrow> json option option" where
  "assign_cstr doc r s = assignString doc r (takeWhile (\<lambda>c. c \<noteq> CHR 0x00) s)"

definition assign_str :: "json option \<Rightarrow> json_ref \<Rightarrow> string \<Rightarrow> json option option" where
  "assign_str doc r s = assignString doc r s"

definition assign_double :: "json option \<Rightarrow> json_ref \<Rightarrow> double \<Rightarrow> json option option" where
  "assign_double doc r d = assignNumber doc r d"

text \<open>Every \<open>float\<close> is a \<open>double\<close>; the argument is that value.\<close>

definition assign_float :: "json option \<Rightarrow> json_ref \<Rightarrow> double \<Rightarrow> json option option" where
  "assign_float doc r f = assignNumber doc r f"

definition assign_int :: "json option \<Rightarrow> json_ref \<Rightarrow> 32 word \<Rightarrow> json option option" where
  "assign_int doc r i = assignNumber doc r (double_of_int (sint i))"

definition assign_long :: "json option \<Rightarrow> json_ref \<Rightarrow> 64 word \<Rightarrow> json option option" where
  "assign_long doc r l = assignNumber doc r (double_of_int (sint l))"

definition assign_bool :: "json option \<Rightarrow> json_ref \<Rightarrow> bool \<Rightarrow> json option option" where
  "assign_bool doc r b = assignBool doc r b"

definition assign_nullptr :: "json option \<Rightarrow> json_ref \<Rightarrow> json option option" where
  "assign_nullptr doc r = assignNull doc r"

definition assign_proxy :: "json option \<Rightarrow> json_ref \<Rightarrow> json_ref \<Rightarrow> json option \<times> json_ref" where
  "assign_proxy doc this other = (doc, other)"

subsection \<open>Integers as doubles\<close>

text \<open>The integer that a double is, if it is one.\<close>

fun int_of_double :: "double \<Rightarrow> int option" where
  "int_of_double (Fin neg m e) =
     (let sgn = (if neg then - 1 else 1) in
      if 0 \<le> e then Some (sgn * (int m * 2 ^ nat e))
      else if 2 ^ nat (- e) dvd m then Some (sgn * int (m div 2 ^ nat (- e))) else None)"
| "int_of_double _ = None"

lemma int_of_double_of_int:
  assumes "\<bar>i\<bar> < 2 ^ 53"
  shows "int_of_double (double_of_int i) = Some i"
proof (cases "i = 0")
  case True
  then show ?thesis by (simp add: double_of_int_def round_double_def)
next
  case False
  have "0 < nat \<bar>i\<bar>" "nat \<bar>i\<bar> < 2 ^ 53" using False assms by (auto simp: nat_less_iff)
  from round_double_int [OF this, of "i < 0"] obtain j
    where j: "double_of_int i = Fin (i < 0) (nat \<bar>i\<bar> * 2 ^ j) (- int j)" by (auto simp: double_of_int_def)
  show ?thesis by (cases "j = 0") (auto simp: j)
qed

lemma read_number: "assignNumber doc r d = Some doc' \<Longrightarrow> jv_asNumber doc' r = Some (Inr d)"
  by (auto simp: assignNumber_def jv_asNumber_def jv_read_def jv_get_def dest: slot_get_set)

subsection \<open>Assigned numbers\<close>

text \<open>Every \<open>int\<close>, and every \<open>long\<close> below \<open>2 ^ 53\<close> in magnitude, is read back as the same number.\<close>

lemma assign_int_exact:
  assumes "slot_get doc r = Some x"
  shows "\<exists>doc' d. assign_int doc r i = Some doc' \<and> jv_asNumber doc' r = Some (Inr d) \<and> int_of_double d = Some (sint i)"
proof -
  obtain doc' where d: "assign_int doc r i = Some doc'"
    using slot_set_defined [OF assms] by (auto simp: assign_int_def assignNumber_def)
  have "- (2 ^ 31) \<le> sint i \<and> sint i < 2 ^ 31" using sint_ge [of i] sint_lt [of i] by simp
  then have "\<bar>sint i\<bar> < 2 ^ 53" by (simp add: abs_less_iff)
  with d show ?thesis using read_number int_of_double_of_int unfolding assign_int_def by blast
qed

lemma assign_long_exact:
  assumes "slot_get doc r = Some x" "\<bar>sint l\<bar> < 2 ^ 53"
  shows "\<exists>doc' d. assign_long doc r l = Some doc' \<and> jv_asNumber doc' r = Some (Inr d) \<and> int_of_double d = Some (sint l)"
proof -
  obtain doc' where "assign_long doc r l = Some doc'"
    using slot_set_defined [OF assms(1)] by (auto simp: assign_long_def assignNumber_def)
  then show ?thesis using read_number int_of_double_of_int [OF assms(2)] unfolding assign_long_def by blast
qed

text \<open>Beyond that two values of \<open>long\<close> become the same number.\<close>

lemma assign_long_collides: "assign_long doc r (2 ^ 53 + 1) = assign_long doc r (2 ^ 53)"
proof -
  have "double_of_int (2 ^ 53 + 1) = double_of_int (2 ^ 53)" by code_simp
  moreover have "sint (2 ^ 53 + 1 :: 64 word) = 2 ^ 53 + 1" "sint (2 ^ 53 :: 64 word) = 2 ^ 53" by simp_all
  ultimately show ?thesis by (simp add: assign_long_def)
qed

text \<open>A null character inside a string is kept by the overload for \<open>std::string\<close> and ends the text of a C string.\<close>

lemma assign_cstr_prefix: "list_all (\<lambda>c. c \<noteq> CHR 0x00) s \<Longrightarrow> assign_cstr doc r (s @ CHR 0x00 # rest) = assign_str doc r s"
  by (simp add: assign_cstr_def assign_str_def takeWhile_append2 list_all_iff)

end
