(* ===== verification/Http.thy ===== *)
theory Http
  imports Prelude
begin

text \<open>
  HTTP messages of \<open>include/protocol/Http.hpp\<close>: the names of methods and versions, printing a message
  and parsing one. Headers are a map, as \<open>std::unordered_map\<close> is; the order in which it iterates is an
  argument of the printer. Parsing follows the source through \<open>find\<close>, \<open>substr\<close> with its \<open>size_t\<close>
  arithmetic, \<open>operator>>\<close> and \<open>getline\<close>.
\<close>

subsection \<open>State\<close>

datatype HttpMethod = GET | POST | PUT | DELETE | HEAD | OPTIONS | TRACE | CONNECT | PATCH | UNKNOWN_METHOD

datatype HttpVersion = HTTP_1_0 | HTTP_1_1 | HTTP_2_0 | UNKNOWN_VERSION

record http_message =
  request_method :: HttpMethod
  version :: HttpVersion
  url :: string
  headers :: "string \<rightharpoonup> string"
  body :: string

definition set_method :: "HttpMethod \<Rightarrow> http_message \<Rightarrow> http_message" where
  "set_method x m = m\<lparr>request_method := x\<rparr>"

definition set_version :: "HttpVersion \<Rightarrow> http_message \<Rightarrow> http_message" where
  "set_version x m = m\<lparr>version := x\<rparr>"

definition set_url :: "string \<Rightarrow> http_message \<Rightarrow> http_message" where
  "set_url x m = m\<lparr>url := x\<rparr>"

definition set_headers :: "(string \<rightharpoonup> string) \<Rightarrow> http_message \<Rightarrow> http_message" where
  "set_headers x m = m\<lparr>headers := x\<rparr>"

definition set_body :: "string \<Rightarrow> http_message \<Rightarrow> http_message" where
  "set_body x m = m\<lparr>body := x\<rparr>"

definition add_header :: "string \<Rightarrow> string \<Rightarrow> http_message \<Rightarrow> http_message" where
  "add_header key val m = m\<lparr>headers := (headers m)(key \<mapsto> val)\<rparr>"

definition parse_method :: "string \<Rightarrow> HttpMethod" where
  "parse_method s =
     (if s = ''GET'' then GET
      else if s = ''POST'' then POST
      else if s = ''PUT'' then PUT
      else if s = ''DELETE'' then DELETE
      else if s = ''HEAD'' then HEAD
      else if s = ''OPTIONS'' then OPTIONS
      else if s = ''TRACE'' then TRACE
      else if s = ''CONNECT'' then CONNECT
      else if s = ''PATCH'' then PATCH
      else UNKNOWN_METHOD)"

definition parse_version :: "string \<Rightarrow> HttpVersion" where
  "parse_version s =
     (if s = ''HTTP/1.0'' then HTTP_1_0
      else if s = ''HTTP/1.1'' then HTTP_1_1
      else if s = ''HTTP/2.0'' then HTTP_2_0
      else UNKNOWN_VERSION)"

fun version_to_str :: "HttpVersion \<Rightarrow> string" where
  "version_to_str HTTP_1_0 = ''HTTP/1.0''"
| "version_to_str HTTP_1_1 = ''HTTP/1.1''"
| "version_to_str HTTP_2_0 = ''HTTP/2.0''"
| "version_to_str UNKNOWN_VERSION = ''HTTP/1.1''"

fun method_to_str :: "HttpMethod \<Rightarrow> string" where
  "method_to_str GET = ''GET''"
| "method_to_str POST = ''POST''"
| "method_to_str PUT = ''PUT''"
| "method_to_str DELETE = ''DELETE''"
| "method_to_str HEAD = ''HEAD''"
| "method_to_str OPTIONS = ''OPTIONS''"
| "method_to_str TRACE = ''TRACE''"
| "method_to_str CONNECT = ''CONNECT''"
| "method_to_str PATCH = ''PATCH''"
| "method_to_str UNKNOWN_METHOD = ''UNKNOWN''"

definition line_sep :: string where
  "line_sep = [CR, LF]"

subsection \<open>Printing\<close>

definition header_line :: "string \<times> string \<Rightarrow> string" where
  "header_line h = fst h @ '': '' @ snd h @ line_sep"

definition serialize_to_string :: "((string \<rightharpoonup> string) \<Rightarrow> (string \<times> string) list) \<Rightarrow> http_message \<Rightarrow> string" where
  "serialize_to_string iter m =
     method_to_str (request_method m) @ '' '' @ url m @ '' '' @ version_to_str (version m) @ line_sep
     @ concat (map header_line (iter (headers m))) @ line_sep @ body m"

subsection \<open>Library functions the parser uses\<close>

fun find_str :: "string \<Rightarrow> string \<Rightarrow> nat option" where
  "find_str sub [] = (if sub = [] then Some 0 else None)"
| "find_str sub (c # s) = (if prefix sub (c # s) then Some 0 else map_option Suc (find_str sub s))"

definition substr :: "string \<Rightarrow> nat \<Rightarrow> nat \<Rightarrow> string result" where
  "substr s pos n = (if length s < pos then Inl (OutOfRange ''basic_string::substr'') else Inr (take n (drop pos s)))"

text \<open>\<open>operator>>\<close> into an empty string: the token and what is left of the stream.\<close>

definition next_token :: "string \<Rightarrow> string \<times> string" where
  "next_token s =
     (let t = dropWhile isspace s in (takeWhile (\<lambda>c. \<not> isspace c) t, dropWhile (\<lambda>c. \<not> isspace c) t))"

text \<open>The lines successive calls of \<open>getline\<close> give: a last line that is empty is not one.\<close>

function getlines :: "string \<Rightarrow> string list" where
  "getlines s =
     (if s = [] then []
      else takeWhile (\<lambda>c. c \<noteq> LF) s # getlines (drop 1 (dropWhile (\<lambda>c. c \<noteq> LF) s)))"
  by pat_completeness auto
termination
proof (relation "measure length", rule wf_measure, goal_cases)
  case (1 s)
  then have "0 < length s" by simp
  moreover have "length (dropWhile (\<lambda>c. c \<noteq> LF) s) \<le> length s" by (rule length_dropWhile_le)
  ultimately have "length (dropWhile (\<lambda>c. c \<noteq> LF) s) - 1 < length s" by linarith
  then show ?case unfolding in_measure length_drop .
qed

declare getlines.simps [simp del]

subsection \<open>Parsing\<close>

definition parse_start_line :: "string \<Rightarrow> http_message \<Rightarrow> http_message" where
  "parse_start_line start_line m =
     (let (method_s, r1) = next_token start_line;
          (url_s, r2) = next_token r1;
          (version_s, _) = next_token r2
      in m\<lparr>request_method := parse_method method_s, url := url_s, version := parse_version version_s\<rparr>)"

definition parse_header_line :: "(string \<rightharpoonup> string) \<Rightarrow> string \<Rightarrow> (string \<rightharpoonup> string) result" where
  "parse_header_line hs line0 =
     (let line = (if line0 \<noteq> [] \<and> last line0 = CR then butlast line0 else line0) in
      case find_str '':'' line of
        None \<Rightarrow> Inr hs
      | Some colon \<Rightarrow>
          (case substr line 0 colon of
             Inl e \<Rightarrow> Inl e
           | Inr key \<Rightarrow>
               (case substr line (colon + 1) (length line) of
                  Inl e \<Rightarrow> Inl e
                | Inr v \<Rightarrow> Inr (hs(key \<mapsto> dropWhile (\<lambda>c. c = CHR '' '') v)))))"

fun parse_header_lines :: "(string \<rightharpoonup> string) \<Rightarrow> string list \<Rightarrow> (string \<rightharpoonup> string) result" where
  "parse_header_lines hs [] = Inr hs"
| "parse_header_lines hs (l # ls) =
     (case parse_header_line hs l of Inl e \<Rightarrow> Inl e | Inr hs' \<Rightarrow> parse_header_lines hs' ls)"

definition parse_from_string :: "string \<Rightarrow> http_message \<Rightarrow> (bool \<times> http_message) result" where
  "parse_from_string data m =
     (case find_str line_sep data of
        None \<Rightarrow> Inr (False, m)
      | Some pos \<Rightarrow>
          (case substr data 0 pos of
             Inl e \<Rightarrow> Inl e
           | Inr start_line \<Rightarrow>
               (let m1 = parse_start_line start_line m;
                    header_start = pos + length line_sep
                in case find_str (line_sep @ line_sep) data of
                     None \<Rightarrow> Inr (False, m1)
                   | Some header_end \<Rightarrow>
                       (case substr data header_start (sz_sub header_end header_start) of
                          Inl e \<Rightarrow> Inl e
                        | Inr header_block \<Rightarrow>
                            (case parse_header_lines Map.empty (getlines header_block) of
                               Inl e \<Rightarrow> Inl e
                             | Inr hs \<Rightarrow>
                                 (case substr data (header_end + length line_sep * 2) (length data) of
                                    Inl e \<Rightarrow> Inl e
                                  | Inr b \<Rightarrow> Inr (True, m1\<lparr>headers := hs, body := b\<rparr>)))))))"

subsection \<open>Searching\<close>

lemma find_str_Some:
  "find_str sub s = Some i \<Longrightarrow> i + length sub \<le> length s \<and> s = take i s @ sub @ drop (i + length sub) s"
proof (induction s arbitrary: i)
  case (Cons c s)
  show ?case
  proof (cases "prefix sub (c # s)")
    case True
    with Cons.prems prefix_length_le [OF True] show ?thesis by (auto simp: prefix_def)
  next
    case False
    with Cons.prems obtain j where "i = Suc j" "find_str sub s = Some j" by auto
    with Cons.IH [of j] show ?thesis by auto
  qed
qed (simp split: if_splits)

lemma find_str_bound: "find_str sub s = Some i \<Longrightarrow> i + length sub \<le> length s"
  by (simp add: find_str_Some)

lemma find_str_first: "find_str sub s = Some i \<Longrightarrow> j < i \<Longrightarrow> \<not> prefix sub (drop j s)"
proof (induction s arbitrary: i j)
  case (Cons c s)
  then show ?case by (cases j) (auto split: if_splits)
qed (simp split: if_splits)

lemma find_str_None: "find_str sub s = None \<longleftrightarrow> \<not> sublist sub s"
  by (induction s) (auto simp: sublist_Cons_right)

lemma find_str_skip:
  "c \<notin> set a \<Longrightarrow> find_str (c # sub) (a @ s) = map_option (\<lambda>i. length a + i) (find_str (c # sub) s)"
  by (induction a; cases "find_str (c # sub) s") auto

lemma substr_ok [simp]: "p \<le> length s \<Longrightarrow> substr s p n = Inr (take n (drop p s))"
  by (simp add: substr_def)

subsection \<open>Header lines\<close>

definition header_text :: "string \<times> string \<Rightarrow> string" where
  "header_text h = fst h @ '': '' @ snd h"

definition clean_header :: "string \<times> string \<Rightarrow> bool" where
  "clean_header h \<longleftrightarrow>
     CHR '':'' \<notin> set (fst h) \<and> CR \<notin> set (fst h) \<and> LF \<notin> set (fst h) \<and> CR \<notin> set (snd h) \<and> LF \<notin> set (snd h)
     \<and> (snd h = [] \<or> hd (snd h) \<noteq> CHR '' '')"

lemma header_line_eq: "header_line h = header_text h @ [CR, LF]"
  by (simp add: header_line_def header_text_def line_sep_def)

lemma header_text_clean:
  assumes "clean_header h"
  shows "CR \<notin> set (header_text h)" "LF \<notin> set (header_text h)" "header_text h \<noteq> []"
  using assms by (auto simp: clean_header_def header_text_def)

lemma parse_header_line_cr:
  "CR \<notin> set l \<Longrightarrow> parse_header_line hs (l @ [CR]) = parse_header_line hs l"
  unfolding parse_header_line_def by (cases "l = []") (auto dest: last_in_set simp: Let_def)

lemma parse_header_text:
  assumes "clean_header h"
  shows "parse_header_line hs (header_text h) = Inr (hs(fst h \<mapsto> snd h))"
proof -
  have cr: "\<not> (header_text h \<noteq> [] \<and> last (header_text h) = CR)"
    using header_text_clean(1) [OF assms] last_in_set by metis
  have f: "find_str '':'' (header_text h) = Some (length (fst h))"
    using assms find_str_skip [of "CHR '':''" "fst h" "[]" "'': '' @ snd h"]
    by (simp add: header_text_def clean_header_def)
  have "dropWhile (\<lambda>c. c = CHR '' '') (snd h) = snd h"
    using assms by (cases "snd h") (auto simp: clean_header_def)
  then show ?thesis unfolding parse_header_line_def Let_def if_not_P [OF cr] f by (simp add: header_text_def)
qed

lemma getlines_single:
  assumes "LF \<notin> set l" and "l \<noteq> []"
  shows "getlines l = [l]"
proof -
  have t: "takeWhile (\<lambda>c. c \<noteq> LF) l = l" and d: "dropWhile (\<lambda>c. c \<noteq> LF) l = []"
    using assms(1) by (auto simp: takeWhile_eq_all_conv dropWhile_eq_Nil_conv)
  show ?thesis using assms(2) unfolding getlines.simps [of l] t d by (simp add: getlines.simps)
qed

lemma getlines_line: "LF \<notin> set l \<Longrightarrow> getlines (l @ LF # r) = l # getlines r"
proof -
  assume l: "LF \<notin> set l"
  have "takeWhile (\<lambda>c. c \<noteq> LF) (l @ LF # r) = l" "dropWhile (\<lambda>c. c \<noteq> LF) (l @ LF # r) = LF # r"
    using l by (simp_all add: takeWhile_append dropWhile_append)
  then show ?thesis by (simp add: getlines.simps [of "l @ LF # r"])
qed

text \<open>The header block is the header lines without the last line end.\<close>

definition header_block :: "(string \<times> string) list \<Rightarrow> string" where
  "header_block hs = take (length (concat (map header_line hs)) - 2) (concat (map header_line hs))"

lemma header_block_Cons:
  "header_block (h # hs) = (if hs = [] then header_text h else header_text h @ CR # LF # header_block hs)"
proof (cases hs)
  case (Cons h' hs')
  then have "2 \<le> length (concat (map header_line hs))" by (simp add: header_line_eq)
  then show ?thesis using Cons by (simp add: header_block_def header_line_eq take_Cons')
qed (simp add: header_block_def header_line_eq)

lemma parse_header_block:
  "hs \<noteq> [] \<Longrightarrow> list_all clean_header hs \<Longrightarrow>
     parse_header_lines m (getlines (header_block hs)) = Inr (m ++ map_of (rev hs))"
proof (induction hs arbitrary: m)
  case (Cons h hs)
  note c = header_text_clean [of h]
  obtain k v where h: "h = (k, v)" by fastforce
  show ?case
  proof (cases "hs = []")
    case True
    with Cons.prems c show ?thesis
      by (auto simp: header_block_Cons getlines_single parse_header_text h map_add_def fun_eq_iff)
  next
    case False
    have "getlines (header_block (h # hs)) = (header_text h @ [CR]) # getlines (header_block hs)"
      using getlines_line [of "header_text h @ [CR]"] c Cons.prems False by (simp add: header_block_Cons)
    with Cons False c show ?thesis by (simp add: parse_header_line_cr parse_header_text h)
  qed
qed simp

lemma map_of_rev_distinct: "distinct (map fst hs) \<Longrightarrow> map_of (rev hs) = map_of hs"
  by (subst map_of_inject_set) (simp_all add: rev_map [symmetric])

lemma getlines_chars: "l \<in> set (getlines s) \<Longrightarrow> set l \<subseteq> set s"
proof (induction s rule: getlines.induct)
  case (1 s)
  show ?case
  proof (cases "s = []")
    case True
    with 1(2) show ?thesis by (simp add: getlines.simps)
  next
    case False
    with 1(2) consider "l = takeWhile (\<lambda>c. c \<noteq> LF) s" | "l \<in> set (getlines (drop 1 (dropWhile (\<lambda>c. c \<noteq> LF) s)))"
      unfolding getlines.simps [of s] by auto
    then show ?thesis
    proof cases
      case 1
      then show ?thesis by (auto dest: set_takeWhileD)
    next
      case 2
      then show ?thesis using "1.IH" [OF False] by (fastforce dest: in_set_dropD set_dropWhileD)
    qed
  qed
qed

lemma find_str_absent: "c \<notin> set s \<Longrightarrow> find_str (c # sub) s = None"
  by (induction s) auto

lemma parse_header_line_no_colon:
  assumes "CHR '':'' \<notin> set l"
  shows "parse_header_line hs l = Inr hs"
proof -
  have "CHR '':'' \<notin> set (butlast l)" using assms in_set_butlastD by metis
  with assms show ?thesis by (simp add: parse_header_line_def Let_def find_str_absent)
qed

lemma parse_header_lines_no_colon:
  "(\<And>l. l \<in> set ls \<Longrightarrow> CHR '':'' \<notin> set l) \<Longrightarrow> parse_header_lines hs ls = Inr hs"
  by (induction ls) (simp_all add: parse_header_line_no_colon)

lemma parse_block_no_colon: "CHR '':'' \<notin> set s \<Longrightarrow> parse_header_lines hs (getlines s) = Inr hs"
  by (rule parse_header_lines_no_colon) (use getlines_chars in blast)

text \<open>No line makes the header loop throw.\<close>

lemma parse_header_line_total: "\<exists>hs'. parse_header_line hs l = Inr hs'"
  unfolding parse_header_line_def Let_def
  by (auto split: option.splits dest!: find_str_bound)

lemma parse_header_lines_total: "\<exists>hs'. parse_header_lines hs ls = Inr hs'"
proof (induction ls arbitrary: hs)
  case (Cons l ls)
  obtain hs1 where "parse_header_line hs l = Inr hs1" using parse_header_line_total by blast
  with Cons [of hs1] show ?case by simp
qed simp

subsection \<open>The start line\<close>

definition token :: "string \<Rightarrow> bool" where
  "token t \<longleftrightarrow> t \<noteq> [] \<and> list_all (\<lambda>c. \<not> isspace c) t"

lemma next_token_end: "token t \<Longrightarrow> next_token t = (t, [])"
  by (cases t) (auto simp: token_def next_token_def Let_def list_all_iff takeWhile_eq_all_conv)

lemma next_token_word:
  assumes "token t"
  shows "next_token (t @ CHR '' '' # r) = (t, CHR '' '' # r)"
proof -
  have "dropWhile isspace (t @ CHR '' '' # r) = t @ CHR '' '' # r"
    using assms by (cases t) (auto simp: token_def)
  moreover have "\<And>x. x \<in> set t \<Longrightarrow> \<not> isspace x" using assms by (auto simp: token_def list_all_iff)
  ultimately show ?thesis by (simp add: next_token_def takeWhile_append2 dropWhile_append2)
qed

lemma next_token_space: "next_token (CHR '' '' # r) = next_token r"
  by (simp add: next_token_def)

lemma token_names [simp]: "token (method_to_str me)" "token (version_to_str v)"
  by (cases me; simp add: token_def isspace_def) (cases v; simp add: token_def isspace_def)

lemma parse_method_to_str [simp]: "parse_method (method_to_str me) = me"
  by (cases me) (simp_all add: parse_method_def)

lemma parse_version_to_str: "v \<noteq> UNKNOWN_VERSION \<Longrightarrow> parse_version (version_to_str v) = v"
  by (cases v) (simp_all add: parse_version_def)

definition start_line :: "http_message \<Rightarrow> string" where
  "start_line m = method_to_str (request_method m) @ '' '' @ url m @ '' '' @ version_to_str (version m)"

lemma parse_start_line_eq:
  assumes "token (url m)" and "version m \<noteq> UNKNOWN_VERSION"
  shows "parse_start_line (start_line m) m0 = m0\<lparr>request_method := request_method m, url := url m, version := version m\<rparr>"
  using assms
  by (simp add: parse_start_line_def start_line_def next_token_word next_token_space next_token_end
      parse_version_to_str)

lemma token_no_CR: "token t \<Longrightarrow> CR \<notin> set t"
proof
  assume "token t" and "CR \<in> set t"
  then have "\<not> isspace CR" unfolding token_def list_all_iff by blast
  then show False by simp
qed

lemma start_line_no_CR: "token (url m) \<Longrightarrow> CR \<notin> set (start_line m)"
  using token_no_CR [of "url m"] token_no_CR [OF token_names(1)] token_no_CR [OF token_names(2)]
  by (simp add: start_line_def)

subsection \<open>Where the parts of a printed message are\<close>

lemma blank_line_after:
  assumes "c \<noteq> CR"
  shows "find_str (line_sep @ line_sep) (CR # LF # c # r)
         = map_option (\<lambda>i. 2 + i) (find_str (line_sep @ line_sep) (c # r))"
  using assms by (simp add: line_sep_def option.map_comp comp_def)

lemma find_blank_line:
  assumes "list_all clean_header hs"
  shows "find_str (line_sep @ line_sep) (line_sep @ concat (map header_line hs) @ line_sep @ b)
         = Some (length (concat (map header_line hs)))"
  using assms
proof (induction hs)
  case (Cons h hs)
  let ?rest = "line_sep @ concat (map header_line hs) @ line_sep @ b"
  have ne: "CR \<notin> set (header_text h)" using Cons.prems header_text_clean(1) by simp
  obtain c r where c: "header_text h = c # r" "c \<noteq> CR"
    using ne header_text_clean(3) [of h] Cons.prems by (cases "header_text h") auto
  have "find_str (line_sep @ line_sep) (header_text h @ ?rest)
        = Some (length (header_text h) + length (concat (map header_line hs)))"
    using find_str_skip [OF ne, of "[LF] @ line_sep" ?rest] Cons by (simp add: line_sep_def)
  then have skip: "find_str (line_sep @ line_sep) (c # r @ ?rest)
        = Some (length (header_text h) + length (concat (map header_line hs)))"
    using c(1) by simp
  have "line_sep @ concat (map header_line (h # hs)) @ line_sep @ b = CR # LF # c # r @ ?rest"
    using c(1) by (simp add: header_line_eq [of h] line_sep_def)
  then have "find_str (line_sep @ line_sep) (line_sep @ concat (map header_line (h # hs)) @ line_sep @ b)
        = Some (2 + (length (header_text h) + length (concat (map header_line hs))))"
    using blank_line_after [OF c(2), of "r @ ?rest"] skip by (simp only: option.map)
  then show ?case by (simp add: header_line_eq [of h])
qed (simp add: line_sep_def)

lemma find_first_line:
  assumes "CR \<notin> set a"
  shows "find_str line_sep (a @ line_sep @ r) = Some (length a)"
  using find_str_skip [OF assms, of "[LF]" "line_sep @ r"] by (simp add: line_sep_def)

text \<open>What the parser does with a message whose start line and blank line are known.\<close>

lemma parse_parts:
  assumes "CR \<notin> set a" and "list_all clean_header hs"
    and "data = a @ line_sep @ concat (map header_line hs) @ line_sep @ b"
  shows "parse_from_string data m =
    (case parse_header_lines Map.empty (getlines (if hs = [] then take (2 ^ 64 - 2) (line_sep @ b) else header_block hs)) of
       Inl e \<Rightarrow> Inl e
     | Inr h \<Rightarrow> Inr (True, (parse_start_line a m)\<lparr>headers := h, body := b\<rparr>))"
proof -
  let ?L = "concat (map header_line hs)"
  have p: "find_str line_sep data = Some (length a)" using find_first_line [OF assms(1)] assms(3) by simp
  have e: "find_str (line_sep @ line_sep) data = Some (length a + length ?L)"
    using find_str_skip [OF assms(1), of "[LF] @ line_sep" "line_sep @ ?L @ line_sep @ b"]
      find_blank_line [OF assms(2), of b] assms(3) by (simp add: line_sep_def)
  have sep: "length line_sep = 2" by (simp add: line_sep_def)
  have blk: "substr data (length a + 2) (sz_sub (length a + length ?L) (length a + 2))
      = Inr (if hs = [] then take (2 ^ 64 - 2) (line_sep @ b) else header_block hs)"
  proof (cases hs)
    case Nil
    then show ?thesis using assms(3) sep by (simp add: sz_sub_wrap line_sep_def)
  next
    case (Cons h hs')
    then have "2 \<le> length ?L" by (simp add: header_line_eq [of h])
    then show ?thesis using Cons assms(3) sep by (simp add: header_block_def)
  qed
  have bdy: "substr data (length a + length ?L + 4) (length data) = Inr b"
  proof -
    have "data = (a @ line_sep @ ?L @ line_sep) @ b" using assms(3) by simp
    then have "drop (length (a @ line_sep @ ?L @ line_sep)) data = b" by (metis append_eq_conv_conj)
    moreover have "length (a @ line_sep @ ?L @ line_sep) = length a + length ?L + 4" using sep by simp
    ultimately have "drop (length a + length ?L + 4) data = b" by (simp only:)
    moreover have "length a + length ?L + 4 \<le> length data" "length b \<le> length data" using assms(3) sep by simp_all
    ultimately show ?thesis by simp
  qed
  then have bdy': "substr data (length a + length ?L + 2 * 2) (length data) = Inr b" by simp
  have st: "substr data 0 (length a) = Inr a" using assms(3) by simp
  show ?thesis
    unfolding parse_from_string_def p e option.case st sum.case Let_def sep blk bdy' ..
qed

subsection \<open>Properties\<close>

text \<open>Messages that can be told apart from their printed form, and orders a map can iterate in.\<close>

definition clean_message :: "http_message \<Rightarrow> bool" where
  "clean_message m \<longleftrightarrow> token (url m) \<and> version m \<noteq> UNKNOWN_VERSION"

definition iterates :: "((string \<rightharpoonup> string) \<Rightarrow> (string \<times> string) list) \<Rightarrow> (string \<rightharpoonup> string) \<Rightarrow> bool" where
  "iterates iter h \<longleftrightarrow> distinct (map fst (iter h)) \<and> map_of (iter h) = h"

lemma serialize_eq:
  "serialize_to_string iter m = start_line m @ line_sep @ concat (map header_line (iter (headers m))) @ line_sep @ body m"
  by (simp add: serialize_to_string_def start_line_def)

text \<open>
  C6: A printed message is parsed back to the message, whatever the state of the object that parses it
  and whatever the order in which the headers are iterated. The conditions are that the URL is one
  word, the version is known, no header contains a line end, no header name a colon and no header value
  a leading blank; a message without headers must not have a colon in its body. The body is arbitrary
  otherwise.
\<close>

theorem http_roundtrip:
  assumes "clean_message m" and "iterates iter (headers m)" and "list_all clean_header (iter (headers m))"
    and "headers m = Map.empty \<longrightarrow> CHR '':'' \<notin> set (body m)"
  shows "parse_from_string (serialize_to_string iter m) m0 = Inr (True, m)"
proof -
  let ?hs = "iter (headers m)"
  have url: "token (url m)" "version m \<noteq> UNKNOWN_VERSION" using assms(1) by (auto simp: clean_message_def)
  have it: "map_of ?hs = headers m" "distinct (map fst ?hs)" using assms(2) by (auto simp: iterates_def)
  have "parse_header_lines Map.empty
      (getlines (if ?hs = [] then take (2 ^ 64 - 2) (line_sep @ body m) else header_block ?hs)) = Inr (headers m)"
  proof (cases "?hs = []")
    case True
    then have "headers m = Map.empty" using it(1) by simp
    then have "CHR '':'' \<notin> set (take (2 ^ 64 - 2) (line_sep @ body m))"
      using assms(4) by (auto simp: line_sep_def dest: in_set_takeD)
    then show ?thesis using True \<open>headers m = Map.empty\<close> by (simp add: parse_block_no_colon)
  next
    case False
    then show ?thesis using parse_header_block [OF False assms(3)] it by (simp add: map_of_rev_distinct)
  qed
  then show ?thesis
    using parse_parts [OF start_line_no_CR [OF url(1)] assms(3) serialize_eq [of iter m]] url
    by (simp add: parse_start_line_eq)
qed

text \<open>A message and an order for its headers that meet the conditions.\<close>

definition sample_headers :: "(string \<times> string) list" where
  "sample_headers = [(''Host'', ''a.org''), (''Accept'', ''*/*'')]"

definition sample_message :: http_message where
  "sample_message = \<lparr>request_method = PUT, version = HTTP_1_1, url = ''/x'', headers = map_of sample_headers, body = ''k: v''\<rparr>"

theorem http_roundtrip_witness:
  "parse_from_string (serialize_to_string (\<lambda>_. sample_headers) sample_message) sample_message = Inr (True, sample_message)"
  by (rule http_roundtrip)
     (simp_all add: sample_message_def sample_headers_def clean_message_def iterates_def clean_header_def
       token_def isspace_def map_upd_nonempty)

text \<open>
  Without headers the length of the header block wraps around, and the parser reads the body as
  header lines: a message whose body is one line of the form name, colon, blank, value is parsed back
  with that line as a header.
\<close>

lemma http_body_read_as_headers:
  assumes "clean_message m" and "headers m = Map.empty" and "iterates iter (headers m)"
    and "clean_header (k, v)" and "body m = header_text (k, v)" and "length (body m) < 2 ^ 32"
  shows "parse_from_string (serialize_to_string iter m) m0 = Inr (True, m\<lparr>headers := [k \<mapsto> v]\<rparr>)"
proof -
  have url: "token (url m)" "version m \<noteq> UNKNOWN_VERSION" using assms(1) by (auto simp: clean_message_def)
  have hs: "iter (headers m) = []" using assms(2,3) by (auto simp: iterates_def)
  have "take (2 ^ 64 - 2) (line_sep @ body m) = [CR] @ LF # body m" using assms(6) by (simp add: line_sep_def)
  moreover have "getlines ([CR] @ LF # body m) = [[CR], body m]"
    using getlines_line [of "[CR]" "body m"] getlines_single [of "body m"] header_text_clean [OF assms(4)] assms(5)
    by simp
  moreover have "parse_header_lines Map.empty [[CR], body m] = Inr [k \<mapsto> v]"
    using parse_header_line_no_colon [of "[CR]"] parse_header_text [OF assms(4)] assms(5) by simp
  ultimately show ?thesis
    using parse_parts [OF start_line_no_CR [OF url(1)] _ serialize_eq [of iter m], of m0] hs url
    by (simp add: parse_start_line_eq)
qed

lemma http_body_read_as_headers_witness:
  "parse_from_string (serialize_to_string (\<lambda>_. []) (sample_message\<lparr>headers := Map.empty\<rparr>)) sample_message
   = Inr (True, sample_message\<lparr>headers := Map.empty, headers := [''k'' \<mapsto> ''v'']\<rparr>)"
  by (rule http_body_read_as_headers)
     (simp_all add: sample_message_def clean_message_def iterates_def clean_header_def header_text_def
       token_def isspace_def)

text \<open>
  C30: Parsing never throws. It succeeds exactly on data with a blank line, and then the body is what
  follows the first blank line; otherwise headers and body keep their old values.
\<close>

theorem http_parse_total:
  "\<exists>ok m'. parse_from_string data m = Inr (ok, m')
     \<and> ok = sublist (line_sep @ line_sep) data
     \<and> (if ok then \<exists>n. find_str (line_sep @ line_sep) data = Some n \<and> body m' = drop (n + 4) data
        else headers m' = headers m \<and> body m' = body m)"
proof (cases "find_str line_sep data")
  case None
  then have "\<not> sublist line_sep data" by (simp add: find_str_None)
  then have "\<not> sublist (line_sep @ line_sep) data" using sublist_append_leftI sublist_order.order.trans by blast
  with None show ?thesis by (intro exI [of _ False] exI [of _ m]) (simp add: parse_from_string_def)
next
  case (Some pos)
  note pos = find_str_bound [OF Some]
  show ?thesis
  proof (cases "find_str (line_sep @ line_sep) data")
    case None
    then have "\<not> sublist (line_sep @ line_sep) data" by (simp add: find_str_None)
    with Some None pos show ?thesis
      by (auto simp: parse_from_string_def parse_start_line_def Let_def split: prod.splits)
  next
    case blank: (Some n)
    then have sub: "sublist (line_sep @ line_sep) data" using find_str_None by (metis option.distinct(1))
    have n: "n + 4 \<le> length data" using find_str_bound [OF blank] by (simp add: line_sep_def)
    obtain h where "parse_header_lines Map.empty
        (getlines (take (sz_sub n (pos + 2)) (drop (pos + 2) data))) = Inr h"
      using parse_header_lines_total by blast
    with Some blank pos sub n show ?thesis by (intro exI [of _ True]) (simp add: parse_from_string_def line_sep_def)
  qed
qed

text \<open>The setters determine every field, whatever the message was before, and added headers are those of the list.\<close>

lemma message_from_setters:
  "fold (\<lambda>(k, v). add_header k v) hs (set_headers (\<lambda>_. None) (set_body b (set_url u (set_version v (set_method x m)))))
     = \<lparr>request_method = x, version = v, url = u, headers = map_of (rev hs), body = b\<rparr>"
proof -
  have "fold (\<lambda>(k, v). add_header k v) hs m = m\<lparr>headers := headers m ++ map_of (rev hs)\<rparr>" for m
    by (induction hs arbitrary: m) (auto simp: add_header_def)
  then show ?thesis by (simp add: set_headers_def set_body_def set_url_def set_version_def set_method_def)
qed

end
