(* ===== verification/Transition.thy ===== *)
theory Transition
  imports Prelude
begin

text \<open>
  Transition systems for the components that run in several threads. A step is a partial function of a
  label, which says which thread does what, and of the state; every sequence of enabled steps is an
  interleaving of the threads. Invariants are an interface that each component interprets on its own
  steps.
\<close>

inductive reach :: "('l \<Rightarrow> 's \<Rightarrow> 's option) \<Rightarrow> 's \<Rightarrow> 's \<Rightarrow> bool" for fire s0 where
  reach_init: "reach fire s0 s0"
| reach_step: "reach fire s0 s \<Longrightarrow> fire l s = Some s' \<Longrightarrow> reach fire s0 s'"

fun run_labels :: "('l \<Rightarrow> 's \<Rightarrow> 's option) \<Rightarrow> 'l list \<Rightarrow> 's \<Rightarrow> 's option" where
  "run_labels fire [] s = Some s"
| "run_labels fire (l # ls) s = (case fire l s of None \<Rightarrow> None | Some s' \<Rightarrow> run_labels fire ls s')"

lemma reach_trans: "reach fire s0 s \<Longrightarrow> run_labels fire ls s = Some s' \<Longrightarrow> reach fire s0 s'"
  by (induction ls arbitrary: s) (auto split: option.splits intro: reach_step)

lemma reach_run: "run_labels fire ls s0 = Some s \<Longrightarrow> reach fire s0 s"
  by (rule reach_trans [OF reach_init])

locale system_invariant =
  fixes fire :: "'l \<Rightarrow> 's \<Rightarrow> 's option" and s0 :: 's and inv :: "'s \<Rightarrow> bool"
  assumes inv_init: "inv s0"
    and inv_step: "inv s \<Longrightarrow> fire l s = Some s' \<Longrightarrow> inv s'"
begin

lemma always: "reach fire s0 s \<Longrightarrow> inv s"
  by (induction rule: reach.induct) (auto intro: inv_init inv_step)

lemma run_keeps: "inv s \<Longrightarrow> run_labels fire ls s = Some s' \<Longrightarrow> inv s'"
  by (induction ls arbitrary: s) (auto split: option.splits intro: inv_step)

end

text \<open>
  A system refines another one when every step of it is a step of the other or leaves the other's part
  of the state as it is; then every run of it is a run of the other.
\<close>

locale system_refinement =
  fixes fire :: "'l \<Rightarrow> 's \<Rightarrow> 's option" and s0 :: 's
    and abstract_fire :: "'k \<Rightarrow> 'a \<Rightarrow> 'a option" and a0 :: 'a and part :: "'s \<Rightarrow> 'a"
  assumes part_init: "part s0 = a0"
    and part_step: "fire l s = Some s' \<Longrightarrow> part s' = part s \<or> (\<exists>k. abstract_fire k (part s) = Some (part s'))"
begin

lemma reach_part: "reach fire s0 s \<Longrightarrow> reach abstract_fire a0 (part s)"
proof (induction rule: reach.induct)
  case reach_init
  show ?case unfolding part_init by (rule reach.reach_init)
next
  case (reach_step s l s')
  then show ?case using part_step [OF reach_step.hyps(2)] reach.reach_step by fastforce
qed

end

text \<open>
  A mutex held by exactly the threads whose program counter is inside a critical section stays so when
  one thread moves, enters only a free section and frees it on leaving.
\<close>

lemma lock_update:
  fixes f :: "nat \<Rightarrow> 'p"
  assumes inv: "\<And>j. held (f j) \<longleftrightarrow> h = Some j"
    and h': "h' = (if held p then (if held (f i) then h else Some i) else if held (f i) then None else h)"
    and free: "held p \<Longrightarrow> \<not> held (f i) \<Longrightarrow> h = None"
  shows "held ((f(i := p)) j) \<longleftrightarrow> h' = Some j"
proof (cases "j = i")
  case True
  show ?thesis
  proof (cases "held p")
    case lp: True
    show ?thesis using True lp h' inv [of i] by (cases "held (f i)") auto
  next
    case lp: False
    show ?thesis using True lp h' inv [of i] by (cases "held (f i)") auto
  qed
next
  case False
  show ?thesis
  proof (cases "held (f i)")
    case li: True
    then have "h = Some i" using inv by blast
    then have "\<not> held (f j)" using inv [of j] False by simp
    then show ?thesis using False h' li \<open>h = Some i\<close> by simp
  next
    case li: False
    show ?thesis
    proof (cases "held p")
      case True
      then have "h = None" using free li by blast
      then have "\<not> held (f j)" using inv [of j] by simp
      then show ?thesis using False h' li True by simp
    next
      case lp: False
      then show ?thesis using False h' li inv [of j] by simp
    qed
  qed
qed
end
