(* ===== verification/ThreadPool.thy ===== *)
theory ThreadPool
  imports Transition
begin

text \<open>
  The thread pool of \<open>include/tools/ThreadPool.hpp\<close> as a transition system. Workers, callers of
  \<open>addTask\<close> and the one thread that calls \<open>run\<close>, \<open>stop\<close> and \<open>stopHard\<close> interleave. Every access to the
  atomic \<open>running_\<close> and every operation on the condition variable is a step of its own; a critical
  section of \<open>addTask\<close> or \<open>stop\<close>, which touches only data the mutex protects and the counter
  \<open>task_num_\<close>, is one step that needs the mutex to be free. A waiting thread gives up the mutex and
  enters the wait set in one step, and may wake up without a notification.

  The fields \<open>submitted\<close>, \<open>taken\<close>, \<open>at_stop\<close> and \<open>log_lines\<close> record what happened: the tasks in the order of
  their submission, the tasks removed from the queue with whether a worker got them, the number of
  submissions when the last stop began, and the lines given to the logger.
\<close>

subsection \<open>State\<close>

datatype wpc =
    Unborn | Start | Check | Blocking | Waiting | Notified | Woken | Deciding | Taking
  | Running nat | Done

datatype opc = Idle | Spawning nat | Notifying bool | Joining | Detaching | Draining

record pool =
  task_queue :: "nat list"
  task_num :: int
  waiting_threads :: int
  running :: bool
  mtx :: "nat option"
  pcs :: "nat \<Rightarrow> wpc"
  threads :: "nat list"
  born :: nat
  owner :: opc
  pending :: nat
  notifying :: nat
  submitted :: "nat list"
  taken :: "(nat \<times> bool) list"
  at_stop :: nat
  log_lines :: "string list"

definition THREADS_NUM :: nat where
  "THREADS_NUM = 2"

definition new_ThreadPool :: pool where
  "new_ThreadPool =
     \<lparr>task_queue = [], task_num = 0, waiting_threads = 0, running = False, mtx = None,
      pcs = (\<lambda>_. Unborn), threads = [], born = 0, owner = Idle, pending = 0, notifying = 0,
      submitted = [], taken = [], at_stop = 0, log_lines = []\<rparr>"

definition at :: "nat \<Rightarrow> wpc \<Rightarrow> pool \<Rightarrow> pool" where
  "at i p s = s\<lparr>pcs := (pcs s)(i := p)\<rparr>"

subsection \<open>Steps of a worker\<close>

text \<open>Entering the critical section of the loop and the wait on the condition variable.\<close>

definition worker_lock :: "nat \<Rightarrow> pool \<Rightarrow> pool option" where
  "worker_lock i s =
     (if pcs s i = Start \<and> mtx s = None
      then Some ((at i Check s)\<lparr>mtx := Some i, waiting_threads := waiting_threads s + 1\<rparr>) else None)"

definition worker_check :: "nat \<Rightarrow> pool \<Rightarrow> pool option" where
  "worker_check i s =
     (if pcs s i = Check
      then Some (at i (if \<not> running s \<or> task_queue s \<noteq> [] then Woken else Blocking) s) else None)"

definition worker_block :: "nat \<Rightarrow> pool \<Rightarrow> pool option" where
  "worker_block i s = (if pcs s i = Blocking then Some ((at i Waiting s)\<lparr>mtx := None\<rparr>) else None)"

definition worker_spurious :: "nat \<Rightarrow> pool \<Rightarrow> pool option" where
  "worker_spurious i s = (if pcs s i = Waiting then Some (at i Notified s) else None)"

definition worker_relock :: "nat \<Rightarrow> pool \<Rightarrow> pool option" where
  "worker_relock i s =
     (if pcs s i = Notified \<and> mtx s = None then Some ((at i Check s)\<lparr>mtx := Some i\<rparr>) else None)"

definition worker_woken :: "nat \<Rightarrow> pool \<Rightarrow> pool option" where
  "worker_woken i s =
     (if pcs s i = Woken then Some ((at i Deciding s)\<lparr>waiting_threads := waiting_threads s - 1\<rparr>) else None)"

text \<open>The exit test, taking a task, and running it; returning releases the mutex.\<close>

definition worker_decide :: "nat \<Rightarrow> pool \<Rightarrow> pool option" where
  "worker_decide i s =
     (if pcs s i = Deciding
      then Some (if \<not> running s \<and> task_queue s = [] then (at i Done s)\<lparr>mtx := None\<rparr> else at i Taking s)
      else None)"

definition worker_take :: "nat \<Rightarrow> pool \<Rightarrow> pool option" where
  "worker_take i s =
     (if pcs s i = Taking
      then Some (case task_queue s of
          [] \<Rightarrow> (at i Start s)\<lparr>mtx := None\<rparr>
        | t # q \<Rightarrow> (at i (Running t) s)\<lparr>task_queue := q, task_num := task_num s - 1, mtx := None,
                     taken := taken s @ [(t, True)]\<rparr>)
      else None)"

text \<open>A task ends normally, with a standard exception and its message, or with another exception.\<close>

datatype outcome = Returned | Threw string | ThrewUnknown

definition worker_finish :: "nat \<Rightarrow> outcome \<Rightarrow> pool \<Rightarrow> pool option" where
  "worker_finish i r s =
     (case pcs s i of
        Running t \<Rightarrow> Some ((at i Start s)\<lparr>log_lines := log_lines s @
          (case r of
             Returned \<Rightarrow> []
           | Threw what \<Rightarrow> [''Exception in worker thread: '' @ what]
           | ThrewUnknown \<Rightarrow> [''Unknown exception in worker thread''])\<rparr>)
      | _ \<Rightarrow> None)"

subsection \<open>Steps of \<open>addTask\<close>\<close>

definition add_push :: "nat \<Rightarrow> pool \<Rightarrow> pool option" where
  "add_push t s =
     (if mtx s = None
      then Some (s\<lparr>task_queue := task_queue s @ [t], task_num := task_num s + 1, pending := pending s + 1,
                   submitted := submitted s @ [t]\<rparr>)
      else None)"

definition add_read_waiting :: "pool \<Rightarrow> pool option" where
  "add_read_waiting s =
     (if 0 < pending s
      then Some (s\<lparr>pending := pending s - 1,
                   notifying := (if 0 < waiting_threads s then notifying s + 1 else notifying s)\<rparr>)
      else None)"

text \<open>\<open>notify_one\<close> wakes some waiting thread, or none if no thread waits.\<close>

definition add_notify_one :: "nat option \<Rightarrow> pool \<Rightarrow> pool option" where
  "add_notify_one w s =
     (if 0 < notifying s
      then (case w of
          Some i \<Rightarrow> if pcs s i = Waiting then Some ((at i Notified s)\<lparr>notifying := notifying s - 1\<rparr>) else None
        | None \<Rightarrow> if list_all (\<lambda>i. pcs s i \<noteq> Waiting) [0..<born s] then Some (s\<lparr>notifying := notifying s - 1\<rparr>) else None)
      else None)"

subsection \<open>Steps of \<open>run\<close>, \<open>stop\<close> and \<open>stopHard\<close>\<close>

definition run_begin :: "pool \<Rightarrow> pool option" where
  "run_begin s =
     (if owner s = Idle
      then Some (if running s then s else s\<lparr>running := True, owner := Spawning THREADS_NUM\<rparr>)
      else None)"

definition run_spawn :: "pool \<Rightarrow> pool option" where
  "run_spawn s =
     (case owner s of
        Spawning 0 \<Rightarrow> Some (s\<lparr>owner := Idle\<rparr>)
      | Spawning (Suc k) \<Rightarrow>
          Some ((at (born s) Start s)\<lparr>threads := threads s @ [born s], born := born s + 1, owner := Spawning k\<rparr>)
      | _ \<Rightarrow> None)"

definition stop_begin :: "bool \<Rightarrow> pool \<Rightarrow> pool option" where
  "stop_begin hard s =
     (if owner s = Idle
      then Some (if \<not> running s then s
                 else s\<lparr>running := False, owner := Notifying hard, at_stop := length (submitted s),
                        log_lines := log_lines s @ (if hard then [''ThreadPool stopping forcefully''] else [])\<rparr>)
      else None)"

definition stop_notify_all :: "pool \<Rightarrow> pool option" where
  "stop_notify_all s =
     (case owner s of
        Notifying hard \<Rightarrow>
          Some (s\<lparr>pcs := (\<lambda>i. if pcs s i = Waiting then Notified else pcs s i),
                  owner := (if hard then Detaching else Joining)\<rparr>)
      | _ \<Rightarrow> None)"

definition stop_join :: "pool \<Rightarrow> pool option" where
  "stop_join s =
     (if owner s = Joining \<and> list_all (\<lambda>i. pcs s i = Done) (threads s)
      then Some (s\<lparr>threads := [], owner := Draining\<rparr>) else None)"

definition stop_drain :: "pool \<Rightarrow> pool option" where
  "stop_drain s =
     (if owner s = Draining \<and> mtx s = None
      then Some (s\<lparr>task_queue := [], task_num := task_num s - int (length (task_queue s)),
                   taken := taken s @ map (\<lambda>t. (t, False)) (task_queue s), owner := Idle,
                   log_lines := log_lines s @ [''ThreadPool stopped'']\<rparr>)
      else None)"

definition stop_detach :: "pool \<Rightarrow> pool option" where
  "stop_detach s = (if owner s = Detaching then Some (s\<lparr>threads := [], owner := Idle\<rparr>) else None)"

subsection \<open>The transition system\<close>

datatype label =
    WLock nat | WCheck nat | WBlock nat | WSpurious nat | WRelock nat | WWoken nat | WDecide nat | WTake nat
  | WFinish nat outcome | Push nat | ReadWaiting | NotifyOne "nat option"
  | RunBegin | RunSpawn | StopBegin bool | NotifyAll | Join | Drain | Detach

fun pool_step :: "label \<Rightarrow> pool \<Rightarrow> pool option" where
  "pool_step (WLock i) s = worker_lock i s"
| "pool_step (WCheck i) s = worker_check i s"
| "pool_step (WBlock i) s = worker_block i s"
| "pool_step (WSpurious i) s = worker_spurious i s"
| "pool_step (WRelock i) s = worker_relock i s"
| "pool_step (WWoken i) s = worker_woken i s"
| "pool_step (WDecide i) s = worker_decide i s"
| "pool_step (WTake i) s = worker_take i s"
| "pool_step (WFinish i r) s = worker_finish i r s"
| "pool_step (Push t) s = add_push t s"
| "pool_step ReadWaiting s = add_read_waiting s"
| "pool_step (NotifyOne w) s = add_notify_one w s"
| "pool_step RunBegin s = run_begin s"
| "pool_step RunSpawn s = run_spawn s"
| "pool_step (StopBegin hard) s = stop_begin hard s"
| "pool_step NotifyAll s = stop_notify_all s"
| "pool_step Join s = stop_join s"
| "pool_step Drain s = stop_drain s"
| "pool_step Detach s = stop_detach s"

lemmas pool_step_defs = at_def worker_lock_def worker_check_def worker_block_def worker_spurious_def
  worker_relock_def worker_woken_def worker_decide_def worker_take_def worker_finish_def add_push_def
  add_read_waiting_def add_notify_one_def run_begin_def run_spawn_def stop_begin_def stop_notify_all_def
  stop_join_def stop_drain_def stop_detach_def

lemmas pool_splits = if_splits option.splits list.splits wpc.splits opc.splits nat.splits outcome.splits

subsection \<open>Invariants\<close>

text \<open>Who holds the mutex, who is counted as waiting, and who will look at the queue again by itself.\<close>

fun holds :: "wpc \<Rightarrow> bool" where
  "holds Check = True" | "holds Blocking = True" | "holds Woken = True" | "holds Deciding = True"
| "holds Taking = True" | "holds _ = False"

fun counted :: "wpc \<Rightarrow> bool" where
  "counted Check = True" | "counted Blocking = True" | "counted Waiting = True" | "counted Notified = True"
| "counted Woken = True" | "counted _ = False"

fun active :: "wpc \<Rightarrow> bool" where
  "active Unborn = False" | "active Blocking = False" | "active Waiting = False" | "active Done = False"
| "active _ = True"

definition mutex_inv :: "pool \<Rightarrow> bool" where
  "mutex_inv s \<longleftrightarrow> (\<forall>i. holds (pcs s i) \<longleftrightarrow> mtx s = Some i) \<and> (\<forall>i. born s \<le> i \<longrightarrow> pcs s i = Unborn)"

definition queue_inv :: "pool \<Rightarrow> bool" where
  "queue_inv s \<longleftrightarrow> task_num s = int (length (task_queue s)) \<and> submitted s = map fst (taken s) @ task_queue s
     \<and> (\<forall>i. pcs s i = Blocking \<longrightarrow> task_queue s = [])"

definition count_inv :: "pool \<Rightarrow> bool" where
  "count_inv s \<longleftrightarrow> waiting_threads s = int (card {i. counted (pcs s i)})"

definition wake_inv :: "pool \<Rightarrow> bool" where
  "wake_inv s \<longleftrightarrow> task_queue s \<noteq> [] \<longrightarrow> (\<exists>i. pcs s i = Waiting) \<longrightarrow>
     0 < pending s \<or> 0 < notifying s \<or> (\<exists>j. active (pcs s j))"

fun owner_inv :: "opc \<Rightarrow> pool \<Rightarrow> bool" where
  "owner_inv Idle s = (length (threads s) = (if running s then THREADS_NUM else 0))"
| "owner_inv (Spawning k) s = (running s \<and> length (threads s) + k = THREADS_NUM)"
| "owner_inv (Notifying h) s = (\<not> running s \<and> length (threads s) = THREADS_NUM)"
| "owner_inv Joining s = (\<not> running s \<and> length (threads s) = THREADS_NUM)"
| "owner_inv Detaching s = (\<not> running s \<and> length (threads s) = THREADS_NUM)"
| "owner_inv Draining s = (\<not> running s \<and> threads s = [] \<and> (length (submitted s) = at_stop s \<longrightarrow> task_queue s = []))"

definition stop_inv :: "pool \<Rightarrow> bool" where
  "stop_inv s \<longleftrightarrow> owner_inv (owner s) s
     \<and> (\<forall>i \<in> set (threads s). pcs s i = Done \<longrightarrow>
          \<not> running s \<and> (length (submitted s) = at_stop s \<longrightarrow> task_queue s = []))
     \<and> (\<not> running s \<longrightarrow> at_stop s \<le> length (submitted s))"

definition pool_inv :: "pool \<Rightarrow> bool" where
  "pool_inv s \<longleftrightarrow> mutex_inv s \<and> queue_inv s \<and> count_inv s \<and> wake_inv s \<and> stop_inv s"

text \<open>
  What a step does to the program counters, the mutex and the number of waiting threads: one worker
  moves, one is created, all waiting ones are notified, or none is touched.
\<close>

inductive pc_move :: "pool \<Rightarrow> pool \<Rightarrow> bool" where
  one: "pcs s i \<noteq> Unborn \<Longrightarrow> p \<noteq> Unborn \<Longrightarrow> pcs s' = (pcs s)(i := p) \<Longrightarrow> born s' = born s \<Longrightarrow>
        mtx s' = (if holds p then (if holds (pcs s i) then mtx s else Some i)
                  else if holds (pcs s i) then None else mtx s) \<Longrightarrow>
        (holds p \<Longrightarrow> \<not> holds (pcs s i) \<Longrightarrow> mtx s = None) \<Longrightarrow>
        waiting_threads s' = waiting_threads s + of_bool (counted p) - of_bool (counted (pcs s i)) \<Longrightarrow> pc_move s s'"
| new: "pcs s' = (pcs s)(born s := Start) \<Longrightarrow> born s' = Suc (born s) \<Longrightarrow> mtx s' = mtx s \<Longrightarrow>
        waiting_threads s' = waiting_threads s \<Longrightarrow> pc_move s s'"
| all: "pcs s' = (\<lambda>i. if pcs s i = Waiting then Notified else pcs s i) \<Longrightarrow> born s' = born s \<Longrightarrow> mtx s' = mtx s \<Longrightarrow>
        waiting_threads s' = waiting_threads s \<Longrightarrow> pc_move s s'"
| none: "pcs s' = pcs s \<Longrightarrow> born s' = born s \<Longrightarrow> mtx s' = mtx s \<Longrightarrow>
        waiting_threads s' = waiting_threads s \<Longrightarrow> pc_move s s'"

lemma worker_moves:
  "worker_lock i s = Some s' \<Longrightarrow> pc_move s s'" "worker_check i s = Some s' \<Longrightarrow> pc_move s s'"
  "worker_block i s = Some s' \<Longrightarrow> pc_move s s'" "worker_spurious i s = Some s' \<Longrightarrow> pc_move s s'"
  "worker_relock i s = Some s' \<Longrightarrow> pc_move s s'" "worker_woken i s = Some s' \<Longrightarrow> pc_move s s'"
  "worker_decide i s = Some s' \<Longrightarrow> pc_move s s'" "worker_take i s = Some s' \<Longrightarrow> pc_move s s'"
  "worker_finish i r s = Some s' \<Longrightarrow> pc_move s s'"
  by ((rule pc_move.one [where i = i and p = "pcs s' i"];
       auto simp: pool_step_defs fun_eq_iff split: pool_splits)+)

lemma step_moves:
  assumes "pool_step l s = Some s'"
  shows "pc_move s s'"
proof (cases l)
  case (NotifyOne w)
  with assms show ?thesis
    by (cases w) (auto simp: pool_step_defs split: if_splits
        intro: pc_move.none pc_move.one [where i = "the w" and p = Notified])
next
  case RunSpawn
  with assms show ?thesis by (auto simp: pool_step_defs split: pool_splits intro: pc_move.none pc_move.new)
next
  case NotifyAll
  with assms show ?thesis by (auto simp: pool_step_defs split: opc.splits intro: pc_move.all)
qed (use assms in \<open>auto simp: add_push_def add_read_waiting_def run_begin_def stop_begin_def stop_join_def
      stop_drain_def stop_detach_def split: if_splits intro: worker_moves pc_move.none\<close>)

lemma mutex_move: "pc_move s s' \<Longrightarrow> mutex_inv s \<Longrightarrow> mutex_inv s'"
proof (induction rule: pc_move.induct)
  case (one s i p s')
  have i: "i < born s" using one by (auto simp: mutex_inv_def not_le [symmetric])
  have "holds (pcs s j) \<longleftrightarrow> mtx s = Some j" for j using one.prems by (simp add: mutex_inv_def)
  from lock_update [of holds, OF this one(5,6)]
  have "holds (pcs s' j) \<longleftrightarrow> mtx s' = Some j" for j unfolding one(3) by blast
  with one i show ?case by (simp add: mutex_inv_def)
next
  case (new s' s)
  then have "pcs s (born s) = Unborn" by (simp add: mutex_inv_def)
  then have "mtx s \<noteq> Some (born s)" using new.prems mutex_inv_def holds.simps(6) by metis
  with new show ?case by (simp add: mutex_inv_def)
next
  case (all s' s)
  then have "holds (pcs s' j) \<longleftrightarrow> holds (pcs s j)" for j by simp
  with all show ?case by (simp add: mutex_inv_def)
qed (simp add: mutex_inv_def)

lemma finite_counted: "mutex_inv s \<Longrightarrow> finite {i. counted (pcs s i)}"
  by (rule finite_subset [of _ "{..<born s}"]) (auto simp: mutex_inv_def not_le [symmetric])

lemma count_move: "pc_move s s' \<Longrightarrow> mutex_inv s \<Longrightarrow> count_inv s \<Longrightarrow> count_inv s'"
proof (induction rule: pc_move.induct)
  case (one s i p s')
  have "{j. counted (pcs s' j)} = (if counted p then insert i {j. counted (pcs s j)} else {j. counted (pcs s j)} - {i})"
    using one(3) by auto
  moreover have "0 < card {j. counted (pcs s j)}" if "counted (pcs s i)"
    using that finite_counted [OF one.prems(1)] by (auto simp: card_gt_0_iff)
  ultimately show ?case
    using one finite_counted [OF one.prems(1)] by (auto simp: count_inv_def card_insert_if of_nat_diff Suc_leI)
next
  case (new s' s)
  then have "{j. counted (pcs s' j)} = {j. counted (pcs s j)}" by (auto simp: mutex_inv_def)
  with new show ?case by (simp add: count_inv_def)
next
  case (all s' s)
  then have "{j. counted (pcs s' j)} = {j. counted (pcs s j)}" by auto
  with all show ?case by (simp add: count_inv_def)
qed (simp add: count_inv_def)

lemma blocking_locked: "mutex_inv s \<Longrightarrow> mtx s = None \<Longrightarrow> pcs s i \<noteq> Blocking"
  by (metis mutex_inv_def holds.simps(2) option.distinct(1))

lemma queue_step: "mutex_inv s \<Longrightarrow> queue_inv s \<Longrightarrow> pool_step l s = Some s' \<Longrightarrow> queue_inv s'"
  by (cases l) (auto simp: pool_step_defs queue_inv_def comp_def blocking_locked split: pool_splits)

lemma waiting_counted:
  assumes "mutex_inv s" and "count_inv s" and "pcs s i = Waiting"
  shows "0 < waiting_threads s"
  using finite_counted [OF assms(1)] assms(2,3) by (auto simp: count_inv_def card_gt_0_iff intro!: exI [of _ i])

text \<open>Steps that leave a worker that will look at the queue, and steps after which there is nothing to do.\<close>

lemma wake_active: "active (pcs s i) \<Longrightarrow> wake_inv s"
  by (auto simp: wake_inv_def)

lemma wake_empty: "task_queue s = [] \<Longrightarrow> wake_inv s"
  by (simp add: wake_inv_def)

lemma wake_worker:
  assumes "queue_inv s" and "l \<in> {WLock i, WCheck i, WBlock i, WSpurious i, WRelock i, WWoken i, WDecide i, WTake i, WFinish i r}"
    and "pool_step l s = Some s'"
  shows "wake_inv s'"
proof (cases "task_queue s' = []")
  case False
  then have "active (pcs s' i)"
    using assms by (auto simp: pool_step_defs queue_inv_def split: pool_splits)
  then show ?thesis by (rule wake_active)
qed (rule wake_empty)

lemma wake_step:
  assumes "mutex_inv s" "queue_inv s" "count_inv s" "wake_inv s" "pool_step l s = Some s'"
  shows "wake_inv s'"
proof (cases l)
  case (NotifyOne w)
  show ?thesis
  proof (cases w)
    case (Some i)
    then have "active (pcs s' i)" using assms(5) NotifyOne by (auto simp: pool_step_defs split: if_splits)
    then show ?thesis by (rule wake_active)
  next
    case None
    then have "\<forall>i < born s. pcs s i \<noteq> Waiting" "pcs s' = pcs s"
      using assms(5) NotifyOne by (auto simp: pool_step_defs list_all_iff split: if_splits)
    moreover have "pcs s i \<noteq> Waiting" if "born s \<le> i" for i using assms(1) that by (simp add: mutex_inv_def)
    ultimately have "pcs s' i \<noteq> Waiting" for i using not_le by metis
    then show ?thesis by (simp add: wake_inv_def)
  qed
next
  case ReadWaiting
  then show ?thesis
    using assms by (auto simp: pool_step_defs wake_inv_def split: if_splits dest: waiting_counted [OF assms(1,3)])
next
  case RunSpawn
  then show ?thesis using assms(4,5) by (auto simp: pool_step_defs wake_inv_def split: pool_splits)
qed (use assms wake_worker [OF assms(2) _ assms(5)] in \<open>auto simp: wake_inv_def add_push_def run_begin_def
      stop_begin_def stop_notify_all_def stop_join_def stop_drain_def stop_detach_def split: if_splits opc.splits\<close>)

lemma stop_step_join:
  assumes "stop_inv s" "stop_join s = Some s'"
  shows "stop_inv s'"
proof -
  have j: "threads s \<noteq> []" "\<forall>i \<in> set (threads s). pcs s i = Done" "owner s = Joining"
    and s': "s' = s\<lparr>threads := [], owner := Draining\<rparr>"
    using assms by (auto simp: stop_join_def stop_inv_def THREADS_NUM_def list_all_iff split: if_splits)
  have "hd (threads s) \<in> set (threads s)" using j(1) by simp
  with j(2,3) assms(1) have "length (submitted s) = at_stop s \<longrightarrow> task_queue s = []" "\<not> running s"
    "at_stop s \<le> length (submitted s)"
    unfolding stop_inv_def by auto
  then show ?thesis by (simp add: stop_inv_def s')
qed

lemma stop_frame:
  assumes "stop_inv s" "owner s' = owner s" "threads s' = threads s" "running s' = running s"
    "submitted s' = submitted s" "at_stop s' = at_stop s" "task_queue s = [] \<longrightarrow> task_queue s' = []"
    "\<And>i. pcs s' i = Done \<Longrightarrow> pcs s i = Done \<or> \<not> running s \<and> task_queue s' = []"
  shows "stop_inv s'"
proof -
  have "owner_inv (owner s') s'" using assms(1-7) by (cases "owner s") (auto simp: stop_inv_def)
  then show ?thesis using assms unfolding stop_inv_def by metis
qed

lemma stop_step_worker:
  assumes "stop_inv s" and "pool_step l s = Some s'"
    and "l \<in> {WLock i, WCheck i, WBlock i, WSpurious i, WRelock i, WWoken i, WDecide i, WTake i, WFinish i r}"
  shows "stop_inv s'"
  using assms(2,3)
  by (intro stop_frame [OF assms(1)]) (auto simp: pool_step_defs split: pool_splits)

lemma stop_step:
  assumes "stop_inv s" and "pool_step l s = Some s'"
  shows "stop_inv s'"
proof (cases l)
  case (Push t)
  with assms show ?thesis by (cases "owner s") (auto simp: add_push_def stop_inv_def split: if_splits)
next
  case ReadWaiting
  with assms show ?thesis by (intro stop_frame [OF assms(1)]) (auto simp: add_read_waiting_def split: if_splits)
next
  case (NotifyOne w)
  with assms show ?thesis
    by (intro stop_frame [OF assms(1)]; cases w) (auto simp: add_notify_one_def at_def split: if_splits)
next
  case RunBegin
  with assms show ?thesis by (auto simp: run_begin_def stop_inv_def split: if_splits)
next
  case RunSpawn
  with assms show ?thesis by (auto simp: run_spawn_def at_def stop_inv_def split: opc.splits nat.splits if_splits)
next
  case (StopBegin hard)
  with assms show ?thesis by (auto simp: stop_begin_def stop_inv_def split: if_splits)
next
  case NotifyAll
  with assms show ?thesis by (auto simp: stop_notify_all_def stop_inv_def split: opc.splits if_splits)
next
  case Join
  with assms show ?thesis using stop_step_join by simp
next
  case Drain
  with assms show ?thesis by (auto simp: stop_drain_def stop_inv_def split: if_splits)
next
  case Detach
  with assms show ?thesis by (auto simp: stop_detach_def stop_inv_def split: if_splits)
qed (use stop_step_worker [OF assms] in simp_all)

lemma pool_inv_step: "pool_inv s \<Longrightarrow> pool_step l s = Some s' \<Longrightarrow> pool_inv s'"
  unfolding pool_inv_def using step_moves mutex_move count_move queue_step wake_step stop_step by blast

lemma pool_inv_init: "pool_inv new_ThreadPool"
  by (simp add: pool_inv_def mutex_inv_def queue_inv_def count_inv_def wake_inv_def stop_inv_def new_ThreadPool_def)

interpretation tp: system_invariant pool_step new_ThreadPool pool_inv
  by unfold_locales (rule pool_inv_init, rule pool_inv_step)

abbreviation reachable_pool :: "pool \<Rightarrow> bool" where
  "reachable_pool \<equiv> reach pool_step new_ThreadPool"

subsection \<open>Properties\<close>

text \<open>A run in which worker 0 waits while worker 1 takes one of two tasks.\<close>

definition sample_run :: "label list" where
  "sample_run = [RunBegin, RunSpawn, RunSpawn, RunSpawn, WLock 0, WCheck 0, WBlock 0, Push 7, ReadWaiting,
     NotifyOne (Some 0), WRelock 0, WCheck 0, WWoken 0, WDecide 0, WTake 0, WFinish 0 (Threw ''x''),
     WLock 0, WCheck 0, WBlock 0, WLock 1, WCheck 1, WBlock 1, Push 8, ReadWaiting, NotifyOne (Some 1)]"

lemma run_reachable:
  assumes "case run_labels pool_step ls new_ThreadPool of None \<Rightarrow> False | Some s \<Rightarrow> P s"
  shows "\<exists>s. reachable_pool s \<and> P s"
  using assms reach_run by (fastforce split: option.splits)

text \<open>
  C22: In every reachable state of the pool the number of tasks is the length of the queue, the mutex
  is held by exactly the worker inside its critical section, and the number of waiting threads is the
  number of workers inside the wait.
\<close>

theorem pool_consistent:
  assumes "reachable_pool s"
  shows "task_num s = int (length (task_queue s)) \<and> (\<forall>i. holds (pcs s i) = (mtx s = Some i))
     \<and> waiting_threads s = int (card {i. counted (pcs s i)})"
  using tp.always [OF assms] by (simp add: pool_inv_def queue_inv_def mutex_inv_def count_inv_def)

theorem pool_consistent_witness:
  "\<exists>s. reachable_pool s \<and> task_queue s = [8] \<and> task_num s = int (length (task_queue s))
     \<and> (\<forall>i. holds (pcs s i) = (mtx s = Some i)) \<and> waiting_threads s = int (card {i. counted (pcs s i)})"
proof -
  have "\<exists>s. reachable_pool s \<and> task_queue s = [8]" by (rule run_reachable [where ls = sample_run]) code_simp
  then show ?thesis using pool_consistent by blast
qed

text \<open>
  C14: Tasks leave the queue in the order of their submission and each once: what was submitted is what
  was taken followed by what is still queued.
\<close>

theorem pool_fifo:
  assumes "reachable_pool s"
  shows "submitted s = map fst (taken s) @ task_queue s"
  using tp.always [OF assms] by (simp add: pool_inv_def queue_inv_def)

theorem pool_fifo_witness:
  "\<exists>s. reachable_pool s \<and> taken s = [(7, True)] \<and> submitted s = map fst (taken s) @ task_queue s"
proof -
  have "\<exists>s. reachable_pool s \<and> taken s = [(7, True)]" by (rule run_reachable [where ls = sample_run]) code_simp
  then show ?thesis using pool_fifo by blast
qed

text \<open>
  C18: No submission is missed: when a task is queued and a worker waits, then a caller of \<open>addTask\<close> has
  still to notify, or some worker is on its way to look at the queue.
\<close>

theorem pool_no_missed_submission:
  assumes "reachable_pool s" and "task_queue s \<noteq> []" and "pcs s i = Waiting"
    and "pending s = 0" and "notifying s = 0"
  shows "\<exists>j. active (pcs s j)"
  using tp.always [OF assms(1)] assms(2-) by (auto simp: pool_inv_def wake_inv_def)

theorem pool_no_missed_submission_witness:
  "\<exists>s. reachable_pool s \<and> task_queue s \<noteq> [] \<and> pcs s 0 = Waiting \<and> (\<exists>j. active (pcs s j))"
proof -
  have "\<exists>s. reachable_pool s \<and> task_queue s \<noteq> [] \<and> pcs s 0 = Waiting \<and> pending s = 0 \<and> notifying s = 0"
    by (rule run_reachable [where ls = sample_run]) code_simp
  then show ?thesis using pool_no_missed_submission by blast
qed




text \<open>The run in which \<open>stop\<close> notifies between a worker's test of \<open>running_\<close> and its entry into the wait.\<close>

definition lost_wakeup_run :: "label list" where
  "lost_wakeup_run = [RunBegin, RunSpawn, RunSpawn, RunSpawn, WLock 0, WCheck 0, StopBegin False, NotifyAll, WBlock 0,
     WLock 1, WCheck 1, WWoken 1, WDecide 1]"

lemma waiting_forever:
  assumes "pcs s = (\<lambda>_. Unborn)(0 := Waiting, 1 := Done)" "owner s = Joining" "0 \<in> set (threads s)"
    "pending s = 0" "notifying s = 0"
  shows "{l. pool_step l s \<noteq> None} \<subseteq> range WSpurious \<union> range Push"
proof
  fix l
  assume "l \<in> {l. pool_step l s \<noteq> None}"
  with assms show "l \<in> range WSpurious \<union> range Push"
    by (cases l) (auto simp: pool_step_defs list_all_iff split: if_splits)
qed

lemma lost_wakeup_state:
  "\<exists>s. run_labels pool_step lost_wakeup_run new_ThreadPool = Some s \<and> pcs s = (\<lambda>_. Unborn)(0 := Waiting, 1 := Done)
     \<and> owner s = Joining \<and> 0 \<in> set (threads s) \<and> pending s = 0 \<and> notifying s = 0 \<and> \<not> running s"
  by (simp add: lost_wakeup_run_def pool_step_defs new_ThreadPool_def THREADS_NUM_def numeral_2_eq_2 fun_eq_iff)

text \<open>
  C39: \<open>stop\<close> changes \<open>running_\<close> without holding the mutex, so that its notification can fall between a
  worker's test and its entry into the wait. There is a run after which \<open>stop\<close> waits for a worker that
  waits for a notification, and nothing is enabled but a spurious wake-up or a further submission.
\<close>

theorem stop_can_deadlock:
  "\<exists>s. reachable_pool s \<and> owner s = Joining \<and> \<not> running s \<and> 0 \<in> set (threads s) \<and> pcs s 0 = Waiting
     \<and> {l. pool_step l s \<noteq> None} \<subseteq> range WSpurious \<union> range Push"
proof -
  obtain s where s: "run_labels pool_step lost_wakeup_run new_ThreadPool = Some s"
    "pcs s = (\<lambda>_. Unborn)(0 := Waiting, 1 := Done)" "owner s = Joining" "0 \<in> set (threads s)"
    "pending s = 0" "notifying s = 0" "\<not> running s"
    using lost_wakeup_state by blast
  have "pcs s 0 = Waiting" by (simp add: s(2))
  with s reach_run [OF s(1)] waiting_forever [OF s(2-6)] show ?thesis by blast
qed

end
