(* ===== verification/Future.thy ===== *)
theory Future
  imports ThreadPool
begin

text \<open>
  The futures of the tasks of a thread pool: \<open>addTask\<close> of \<open>include/tools/ThreadPool.hpp\<close> wraps the callable in a
  new \<open>std::packaged_task\<close> and returns its future. What the callables return or throw is an argument
  \<open>result_of\<close>, by the number of the task. Calling a packaged task stores this in the shared state and never
  throws, so that the exception handlers of the worker are not reached; a packaged task that is
  discarded without having been called leaves a broken promise behind (the model breaks it when the
  queue is cleared; a caller still inside \<open>addTask\<close> keeps it until the return). The pool is the transition
  system of the thread pool. Of its steps those happen here that submit a new task and in which a task
  returns normally. At the end the theory has the destructor and the deleter of the pool.
\<close>

record 'a futures =
  pool_of :: pool
  shared_state :: "nat \<Rightarrow> 'a result option"

definition new_futures :: "'a futures" where
  "new_futures = \<lparr>pool_of = new_ThreadPool, shared_state = (\<lambda>_. None)\<rparr>"

definition broken_promise :: "'a result" where
  "broken_promise = Inl (FutureError ''Broken promise'')"

definition call_packaged :: "(nat \<Rightarrow> 'a result) \<Rightarrow> nat \<Rightarrow> (nat \<Rightarrow> 'a result option) \<Rightarrow> nat \<Rightarrow> 'a result option" where
  "call_packaged result_of t sh = sh(t \<mapsto> result_of t)"

definition discard_packaged :: "nat list \<Rightarrow> (nat \<Rightarrow> 'a result option) \<Rightarrow> nat \<Rightarrow> 'a result option" where
  "discard_packaged ts sh = (\<lambda>t. if t \<in> set ts then Some broken_promise else sh t)"

text \<open>Each call of \<open>addTask\<close> makes a new packaged task; a packaged task returns normally.\<close>

fun packaged_label :: "label \<Rightarrow> pool \<Rightarrow> bool" where
  "packaged_label (Push t) s \<longleftrightarrow> t \<notin> set (submitted s)"
| "packaged_label (WFinish i r) s \<longleftrightarrow> r = Returned"
| "packaged_label _ s \<longleftrightarrow> True"

fun shared_after :: "(nat \<Rightarrow> 'a result) \<Rightarrow> label \<Rightarrow> pool \<Rightarrow> (nat \<Rightarrow> 'a result option) \<Rightarrow> nat \<Rightarrow> 'a result option" where
  "shared_after result_of (WFinish i r) s sh = (case pcs s i of Running t \<Rightarrow> call_packaged result_of t sh | _ \<Rightarrow> sh)"
| "shared_after result_of Drain s sh = discard_packaged (task_queue s) sh"
| "shared_after result_of _ s sh = sh"

definition future_step :: "(nat \<Rightarrow> 'a result) \<Rightarrow> label \<Rightarrow> 'a futures \<Rightarrow> 'a futures option" where
  "future_step result_of l f =
     (if packaged_label l (pool_of f)
      then
        map_option (\<lambda>s. \<lparr>pool_of = s, shared_state = shared_after result_of l (pool_of f) (shared_state f)\<rparr>) (pool_step l (pool_of f))
      else None)"

definition pool_addTask :: "(nat \<Rightarrow> 'a result) \<Rightarrow> nat \<Rightarrow> 'a futures \<Rightarrow> 'a futures option" where
  "pool_addTask result_of t f = future_step result_of (Push t) f"

text \<open>\<open>future::get\<close> blocks while there is no result.\<close>

definition future_get :: "nat \<Rightarrow> 'a futures \<Rightarrow> 'a result option" where
  "future_get t f = shared_state f t"

subsection \<open>Invariant\<close>

definition runs :: "pool \<Rightarrow> nat \<Rightarrow> nat \<Rightarrow> bool" where
  "runs s i t \<longleftrightarrow> pcs s i = Running t"

definition run_inv :: "pool \<Rightarrow> bool" where
  "run_inv s \<longleftrightarrow> distinct (submitted s) \<and> (\<forall>i t. runs s i t \<longrightarrow> (t, True) \<in> set (taken s))
     \<and> (\<forall>i j t. runs s i t \<longrightarrow> runs s j t \<longrightarrow> i = j)"

definition state_of :: "(nat \<Rightarrow> 'a result) \<Rightarrow> pool \<Rightarrow> nat \<Rightarrow> 'a result option" where
  "state_of result_of s t =
     (if (t, False) \<in> set (taken s) then Some broken_promise
      else if (t, True) \<in> set (taken s) \<and> (\<forall>i. \<not> runs s i t) then Some (result_of t) else None)"

definition future_inv :: "(nat \<Rightarrow> 'a result) \<Rightarrow> 'a futures \<Rightarrow> bool" where
  "future_inv result_of f \<longleftrightarrow> pool_inv (pool_of f) \<and> run_inv (pool_of f) \<and> shared_state f = state_of result_of (pool_of f)"

text \<open>Most steps neither take a task nor end one.\<close>

fun plain :: "label \<Rightarrow> bool" where
  "plain (WTake i) = False"
| "plain (WFinish i r) = False"
| "plain Drain = False"
| "plain (Push t) = False"
| "plain _ = True"

lemma plain_step:
  assumes "plain l" "pool_step l s = Some s'" "mutex_inv s"
  shows "taken s' = taken s" "submitted s' = submitted s" "runs s' = runs s" "shared_after result_of l s sh = sh"
proof -
  have b: "pcs s (born s) = Unborn" using assms(3) by (simp add: mutex_inv_def)
  have "taken s' = taken s \<and> submitted s' = submitted s \<and> runs s' i t = runs s i t \<and> shared_after result_of l s sh = sh" for i t
    using assms(1,2) b by (cases l) (auto simp: pool_step_defs runs_def split: pool_splits)
  then show "taken s' = taken s" "submitted s' = submitted s" "runs s' = runs s" "shared_after result_of l s sh = sh"
    by (auto simp: fun_eq_iff)
qed

lemma queued_not_taken:
  assumes "queue_inv s" "run_inv s" "t \<in> set (task_queue s)"
  shows "(t, b) \<notin> set (taken s)"
  using assms by (force simp: queue_inv_def run_inv_def)

lemma taken_once:
  assumes "queue_inv s" "run_inv s" "(t, True) \<in> set (taken s)"
  shows "(t, False) \<notin> set (taken s)"
proof
  assume f: "(t, False) \<in> set (taken s)"
  have "distinct (map fst (taken s))" using assms(1,2) by (simp add: queue_inv_def run_inv_def)
  with f assms(3) have "(t, False) = (t, True)" by (metis distinct_map fst_conv inj_onD)
  then show False by simp
qed

lemma take_step:
  assumes s: "worker_take i s = Some s'" and q: "queue_inv s" and r: "run_inv s"
  shows "run_inv s' \<and> state_of c s' = state_of c s"
proof (cases "task_queue s")
  case Nil
  with s have "taken s' = taken s" "submitted s' = submitted s" "runs s' = runs s"
    by (auto simp: worker_take_def at_def runs_def fun_eq_iff split: if_splits)
  with r show ?thesis by (simp add: run_inv_def state_of_def fun_eq_iff)
next
  case (Cons t ts)
  have s': "taken s' = taken s @ [(t, True)]" "submitted s' = submitted s" "runs s' j u \<longleftrightarrow> (if j = i then u = t else runs s j u)" for j u
    using s Cons by (auto simp: worker_take_def at_def runs_def split: if_splits)
  have old: "\<not> runs s i u" for u using s by (auto simp: worker_take_def runs_def split: if_splits)
  have new: "(t, b) \<notin> set (taken s)" for b using queued_not_taken [OF q r] Cons by simp
  have fresh: "\<not> runs s j t" for j using r new by (auto simp: run_inv_def)
  have "run_inv s'" using r s' fresh by (auto simp: run_inv_def)
  moreover have "state_of c s' u = state_of c s u" for u
    using new fresh old by (auto simp: state_of_def s')
  ultimately show ?thesis by (simp add: fun_eq_iff)
qed

lemma finish_step:
  assumes s: "worker_finish i Returned s = Some s'" and q: "queue_inv s" and r: "run_inv s"
  shows "run_inv s' \<and> shared_after c (WFinish i Returned) s (state_of c s) = state_of c s'"
proof -
  obtain t where t: "runs s i t" using s by (auto simp: worker_finish_def runs_def split: wpc.splits)
  have s': "taken s' = taken s" "submitted s' = submitted s" "runs s' j u \<longleftrightarrow> j \<noteq> i \<and> runs s j u" for j u
    using s by (auto simp: worker_finish_def at_def runs_def split: wpc.splits if_splits)
  have tk: "(t, True) \<in> set (taken s)" using r t by (auto simp: run_inv_def)
  have only: "runs s j t \<Longrightarrow> j = i" "runs s i u \<Longrightarrow> u = t" for j u using r t by (auto simp: run_inv_def runs_def)
  have "run_inv s'" using r s' by (auto simp: run_inv_def)
  moreover have "(call_packaged c t (state_of c s)) u = state_of c s' u" for u
  proof (cases "u = t")
    case True
    have "\<not> runs s' j t" for j using only(1) by (auto simp: s')
    then show ?thesis using True taken_once [OF q r tk] tk by (simp add: call_packaged_def state_of_def s'(1))
  next
    case False
    have "runs s' j u = runs s j u" for j using False only(2) by (auto simp: s')
    then show ?thesis using False by (simp add: call_packaged_def state_of_def s'(1))
  qed
  ultimately show ?thesis using t by (auto simp: fun_eq_iff runs_def)
qed

lemma drain_step:
  assumes s: "stop_drain s = Some s'" and q: "queue_inv s" and r: "run_inv s"
  shows "run_inv s' \<and> shared_after c Drain s (state_of c s) = state_of c s'"
proof -
  have s': "taken s' = taken s @ map (\<lambda>t. (t, False)) (task_queue s)" "submitted s' = submitted s" "runs s' = runs s"
    using s by (auto simp: stop_drain_def runs_def fun_eq_iff split: if_splits)
  have "run_inv s'" using r by (auto simp: run_inv_def s')
  moreover have "discard_packaged (task_queue s) (state_of c s) u = state_of c s' u" for u
    using queued_not_taken [OF q r, of u] by (auto simp: discard_packaged_def state_of_def s')
  ultimately show ?thesis by (simp add: fun_eq_iff)
qed

lemma push_step:
  assumes "add_push t s = Some s'" "t \<notin> set (submitted s)" "run_inv s"
  shows "run_inv s' \<and> state_of c s' = state_of c s"
  using assms by (auto simp: add_push_def run_inv_def state_of_def runs_def fun_eq_iff split: if_splits)

lemma future_inv_step:
  assumes inv: "future_inv c f" and st: "future_step c l f = Some f'"
  shows "future_inv c f'"
proof -
  let ?s = "pool_of f" and ?s' = "pool_of f'"
  have ps: "pool_step l ?s = Some ?s'" and ok: "packaged_label l ?s" and sh: "shared_state f' = shared_after c l ?s (state_of c ?s)"
    using st inv by (auto simp: future_step_def future_inv_def split: if_splits)
  have p: "pool_inv ?s" "run_inv ?s" "mutex_inv ?s" "queue_inv ?s" using inv by (simp_all add: future_inv_def pool_inv_def)
  have "run_inv ?s' \<and> shared_after c l ?s (state_of c ?s) = state_of c ?s'"
  proof (cases "plain l")
    case True
    note pl = plain_step [OF True ps p(3)]
    show ?thesis using p(2) by (simp add: pl run_inv_def state_of_def fun_eq_iff)
  next
    case False
    then consider i where "l = WTake i" | i where "l = WFinish i Returned" | "l = Drain" | t where "l = Push t"
      using ok by (cases l) auto
    then show ?thesis
    proof cases
      case (1 i)
      then show ?thesis using take_step [of i ?s ?s' c] ps p(2,4) by simp
    next
      case (2 i)
      then show ?thesis using finish_step [of i ?s ?s' c] ps p(2,4) by simp
    next
      case 3
      then show ?thesis using drain_step [of ?s ?s' c] ps p(2,4) by simp
    next
      case (4 t)
      then show ?thesis using push_step [of t ?s ?s' c] ps ok p(2) by simp
    qed
  qed
  then show ?thesis using pool_inv_step [OF p(1) ps] sh by (simp add: future_inv_def)
qed

lemma future_inv_init: "future_inv c new_futures"
proof -
  have "run_inv new_ThreadPool" "state_of c new_ThreadPool = (\<lambda>_. None)"
    by (simp_all add: run_inv_def state_of_def runs_def new_ThreadPool_def fun_eq_iff)
  then show ?thesis by (simp add: future_inv_def new_futures_def pool_inv_init)
qed

interpretation fu: system_invariant "future_step c" new_futures "future_inv c"
  by unfold_locales (rule future_inv_init, rule future_inv_step)

text \<open>The futures do not change what the pool does.\<close>

interpretation fp: system_refinement "future_step c" new_futures pool_step new_ThreadPool pool_of
  by unfold_locales (auto simp: new_futures_def future_step_def split: if_splits)

subsection \<open>Properties\<close>

text \<open>
  C16: under every interleaving of workers, callers and the thread that stops the pool, the future of a
  task has the value or exception of its callable exactly when a worker has run the task to its end, and
  a broken promise exactly when the task was discarded; until then it is not ready.
\<close>

theorem future_has_result:
  assumes "reach (future_step result_of) new_futures f"
  shows "future_get t f =
     (if (t, False) \<in> set (taken (pool_of f)) then Some (Inl (FutureError ''Broken promise''))
      else if (t, True) \<in> set (taken (pool_of f)) \<and> (\<forall>i. pcs (pool_of f) i \<noteq> Running t) then Some (result_of t)
      else None)"
  using fu.always [OF assms] by (simp add: future_inv_def future_get_def state_of_def broken_promise_def runs_def)

text \<open>Worker 0 runs task 7 to its end and task 8 is discarded, having been submitted after the workers left.\<close>

definition sample_futures :: "label list" where
  "sample_futures = [RunBegin, RunSpawn, RunSpawn, RunSpawn, Push 7, ReadWaiting, StopBegin False, NotifyAll,
     WLock 0, WCheck 0, WWoken 0, WDecide 0, WTake 0, WLock 1, WCheck 1, WWoken 1, WDecide 1, WFinish 0 Returned,
     WLock 0, WCheck 0, WWoken 0, WDecide 0, Push 8, ReadWaiting, Join, Drain]"

definition sample_results :: "nat \<Rightarrow> nat result" where
  "sample_results t = Inr (6 * t)"

lemma run_future:
  assumes "case run_labels (future_step c) ls new_futures of None \<Rightarrow> False | Some f \<Rightarrow> P f"
  shows "\<exists>f. reach (future_step c) new_futures f \<and> P f"
  using assms reach_run by (fastforce split: option.splits)

theorem future_has_result_witness:
  "\<exists>f. reach (future_step sample_results) new_futures f
     \<and> future_get 8 f = Some (Inl (FutureError ''Broken promise''))"
proof -
  have "\<exists>f. reach (future_step sample_results) new_futures f \<and> (8, False) \<in> set (taken (pool_of f))"
    by (rule run_future [where ls = sample_futures]) code_simp
  then show ?thesis using future_has_result [where t = 8] by fastforce
qed

lemma sample_future_ready:
  "\<exists>f. reach (future_step sample_results) new_futures f \<and> future_get 7 f = Some (Inr 42)"
  by (rule run_future [where ls = sample_futures]) code_simp

subsection \<open>Counters\<close>

text \<open>The counters as the class shows them; the number of tasks is converted to \<open>size_t\<close>.\<close>

definition getTaskCount :: "pool \<Rightarrow> 64 word" where
  "getTaskCount s = word_of_int (task_num s)"

definition getWaitingThreads :: "pool \<Rightarrow> int" where
  "getWaitingThreads s = waiting_threads s"

lemma task_count_is_queue_length:
  assumes "reachable_pool s" "length (task_queue s) < 2 ^ 64"
  shows "unat (getTaskCount s) = length (task_queue s)"
  using tp.always [OF assms(1)] assms(2)
  by (simp add: getTaskCount_def pool_inv_def queue_inv_def unat_of_nat take_bit_nat_eq_self)

lemma waiting_threads_bounded:
  assumes "reachable_pool s"
  shows "0 \<le> getWaitingThreads s \<and> getWaitingThreads s \<le> int (born s)"
proof -
  have inv: "mutex_inv s" "count_inv s" using tp.always [OF assms] by (simp_all add: pool_inv_def)
  have "{i. counted (pcs s i)} \<subseteq> {..<born s}" using inv(1) by (force simp: mutex_inv_def not_le [symmetric])
  from card_mono [OF _ this] show ?thesis using inv(2) by (simp add: getWaitingThreads_def count_inv_def)
qed

subsection \<open>Destruction\<close>

text \<open>
  The destructor stops a running pool; the deleter stops it and then deletes it. The members are destroyed
  afterwards, and a \<open>std::thread\<close> that is still joinable would then terminate the program.
\<close>

definition destroy_ThreadPool :: "pool \<Rightarrow> pool option" where
  "destroy_ThreadPool s = (if running s then stop_begin False s else Some s)"

definition delete_ThreadPool :: "pool \<Rightarrow> pool option" where
  "delete_ThreadPool s = stop_begin False s"

lemma destructor_joins:
  assumes "reachable_pool s" "owner s = Idle" "destroy_ThreadPool s = Some s'"
  shows "if running s then owner s' = Notifying False \<and> \<not> running s' else s' = s \<and> threads s' = []"
  using tp.always [OF assms(1)] assms(2,3)
  by (auto simp: destroy_ThreadPool_def stop_begin_def pool_inv_def stop_inv_def split: if_splits)

lemma deleted_once_stopped:
  assumes "owner s = Idle" "\<not> running s"
  shows "delete_ThreadPool s = Some s" "destroy_ThreadPool s = Some s"
  using assms by (simp_all add: delete_ThreadPool_def destroy_ThreadPool_def stop_begin_def)

text \<open>After \<open>stopHard\<close> the destructor returns at once, while a detached worker still uses the mutex and the queue.\<close>

lemma detached_worker_outlives:
  "\<exists>s. reachable_pool s \<and> owner s = Idle \<and> destroy_ThreadPool s = Some s \<and> mtx s = Some 0 \<and> pcs s 0 = Check"
proof -
  have "\<exists>s. reachable_pool s \<and> owner s = Idle \<and> \<not> running s \<and> mtx s = Some 0 \<and> pcs s 0 = Check"
    by (rule run_reachable [where ls = "[RunBegin, RunSpawn, RunSpawn, RunSpawn, WLock 0, StopBegin True, NotifyAll, Detach]"])
      code_simp
  then show ?thesis using deleted_once_stopped(2) by blast
qed

end
