(* ===== verification/Strand.thy ===== *)
theory Strand
  imports Transition
begin

text \<open>
  The strand of \<open>include/net/Strand.hpp\<close>, which runs tasks one after the other on a pool of several
  threads, as a transition system. A thread between the end of one critical section and its next action
  is counted in the state: threads that are about to call \<open>scheduleNext\<close>, tasks that were taken from the
  queue and not yet given to the executor, closures the executor holds, and closures its workers are
  running. Of the executor it is used only that every closure given to it is started at most once;
  the order in which it starts them and the number of its workers are arbitrary.
\<close>

subsection \<open>State and steps\<close>

record strand =
  queue :: "nat list"
  running :: bool
  calling :: nat
  submitting :: "nat list"
  scheduled :: "nat list"
  executing :: "nat list"
  added :: "nat list"
  started :: "nat list"

definition new_Strand :: strand where
  "new_Strand = \<lparr>queue = [], running = False, calling = 0, submitting = [], scheduled = [], executing = [],
     added = [], started = []\<rparr>"

text \<open>The critical section of \<open>addTask\<close>; if the strand was not running, the caller goes on to \<open>scheduleNext\<close>.\<close>

definition addTask :: "nat \<Rightarrow> strand \<Rightarrow> strand option" where
  "addTask t s = Some (s\<lparr>queue := queue s @ [t], running := True,
     calling := (if running s then calling s else calling s + 1), added := added s @ [t]\<rparr>)"

text \<open>The critical section of \<open>scheduleNext\<close>, and the call of the executor after it.\<close>

definition scheduleNext :: "strand \<Rightarrow> strand option" where
  "scheduleNext s =
     (if 0 < calling s
      then Some (case queue s of
          [] \<Rightarrow> s\<lparr>calling := calling s - 1, running := False\<rparr>
        | t # q \<Rightarrow> s\<lparr>calling := calling s - 1, queue := q, submitting := submitting s @ [t]\<rparr>)
      else None)"

definition executor_addTask :: "nat \<Rightarrow> strand \<Rightarrow> strand option" where
  "executor_addTask k s =
     (if k < length (submitting s)
      then Some (s\<lparr>submitting := take k (submitting s) @ drop (Suc k) (submitting s),
                   scheduled := scheduled s @ [submitting s ! k]\<rparr>)
      else None)"

text \<open>A worker of the executor starts a closure, and after the task in it goes on to \<open>scheduleNext\<close>.\<close>

definition executor_start :: "nat \<Rightarrow> strand \<Rightarrow> strand option" where
  "executor_start k s =
     (if k < length (scheduled s)
      then Some (s\<lparr>scheduled := take k (scheduled s) @ drop (Suc k) (scheduled s),
                   executing := executing s @ [scheduled s ! k], started := started s @ [scheduled s ! k]\<rparr>)
      else None)"

definition task_done :: "nat \<Rightarrow> strand \<Rightarrow> strand option" where
  "task_done k s =
     (if k < length (executing s)
      then Some (s\<lparr>executing := take k (executing s) @ drop (Suc k) (executing s), calling := calling s + 1\<rparr>)
      else None)"

datatype strand_label = Add nat | Next | Submit nat | Begin nat | End nat

fun strand_step :: "strand_label \<Rightarrow> strand \<Rightarrow> strand option" where
  "strand_step (Add t) s = addTask t s"
| "strand_step Next s = scheduleNext s"
| "strand_step (Submit k) s = executor_addTask k s"
| "strand_step (Begin k) s = executor_start k s"
| "strand_step (End k) s = task_done k s"


subsection \<open>Invariant\<close>

text \<open>
  The strand is running exactly while one activity for it exists, and what was added is what was
  started, what is on its way to a worker, and what is queued.
\<close>

definition activities :: "strand \<Rightarrow> nat" where
  "activities s = calling s + length (submitting s) + length (scheduled s) + length (executing s)"

definition strand_inv :: "strand \<Rightarrow> bool" where
  "strand_inv s \<longleftrightarrow> activities s = (if running s then 1 else 0) \<and> (\<not> running s \<longrightarrow> queue s = [])
     \<and> added s = started s @ scheduled s @ submitting s @ queue s"

text \<open>With one activity there is one place where it can be.\<close>

lemma only_activity:
  assumes "strand_inv s"
  shows "0 < calling s \<Longrightarrow> running s \<and> calling s = 1 \<and> submitting s = [] \<and> scheduled s = [] \<and> executing s = []"
    and "k < length (submitting s) \<Longrightarrow> running s \<and> k = 0 \<and> calling s = 0 \<and> (\<exists>t. submitting s = [t]) \<and> scheduled s = [] \<and> executing s = []"
    and "k < length (scheduled s) \<Longrightarrow> running s \<and> k = 0 \<and> calling s = 0 \<and> submitting s = [] \<and> (\<exists>t. scheduled s = [t]) \<and> executing s = []"
    and "k < length (executing s) \<Longrightarrow> running s \<and> k = 0 \<and> calling s = 0 \<and> submitting s = [] \<and> scheduled s = [] \<and> (\<exists>t. executing s = [t])"
proof -
  have "activities s = (if running s then 1 else 0)" using assms by (simp add: strand_inv_def)
  then show "0 < calling s \<Longrightarrow> running s \<and> calling s = 1 \<and> submitting s = [] \<and> scheduled s = [] \<and> executing s = []"
    and "k < length (submitting s) \<Longrightarrow> running s \<and> k = 0 \<and> calling s = 0 \<and> (\<exists>t. submitting s = [t]) \<and> scheduled s = [] \<and> executing s = []"
    and "k < length (scheduled s) \<Longrightarrow> running s \<and> k = 0 \<and> calling s = 0 \<and> submitting s = [] \<and> (\<exists>t. scheduled s = [t]) \<and> executing s = []"
    and "k < length (executing s) \<Longrightarrow> running s \<and> k = 0 \<and> calling s = 0 \<and> submitting s = [] \<and> scheduled s = [] \<and> (\<exists>t. executing s = [t])"
    unfolding activities_def
    by (cases "running s"; cases "submitting s"; cases "scheduled s"; cases "executing s"; simp)+
qed

lemma addTask_inv: "strand_inv s \<Longrightarrow> addTask t s = Some s' \<Longrightarrow> strand_inv s'"
  unfolding strand_inv_def addTask_def activities_def by (cases "running s") auto

lemma scheduleNext_inv: "strand_inv s \<Longrightarrow> scheduleNext s = Some s' \<Longrightarrow> strand_inv s'"
  using only_activity(1) [of s] unfolding scheduleNext_def strand_inv_def activities_def
  by (cases "queue s") (simp_all split: if_splits, clarsimp+)

lemma executor_addTask_inv:
  assumes "strand_inv s" "executor_addTask k s = Some s'"
  shows "strand_inv s'"
proof -
  have "k < length (submitting s)" using assms(2) by (simp add: executor_addTask_def split: if_splits)
  note o = only_activity(2) [OF assms(1) this]
  then obtain t where t: "submitting s = [t]" by blast
  have "s' = s\<lparr>submitting := [], scheduled := [t]\<rparr>" using assms(2) o t by (simp add: executor_addTask_def)
  then show ?thesis using assms(1) o t by (simp add: strand_inv_def activities_def)
qed

lemma executor_start_inv:
  assumes "strand_inv s" "executor_start k s = Some s'"
  shows "strand_inv s'"
proof -
  have "k < length (scheduled s)" using assms(2) by (simp add: executor_start_def split: if_splits)
  note o = only_activity(3) [OF assms(1) this]
  then obtain t where t: "scheduled s = [t]" by blast
  have "s' = s\<lparr>scheduled := [], executing := [t], started := started s @ [t]\<rparr>"
    using assms(2) o t by (simp add: executor_start_def)
  then show ?thesis using assms(1) o t by (simp add: strand_inv_def activities_def)
qed

lemma task_done_inv:
  assumes "strand_inv s" "task_done k s = Some s'"
  shows "strand_inv s'"
proof -
  have "k < length (executing s)" using assms(2) by (simp add: task_done_def split: if_splits)
  note o = only_activity(4) [OF assms(1) this]
  then obtain t where t: "executing s = [t]" by blast
  have "s' = s\<lparr>executing := [], calling := 1\<rparr>" using assms(2) o t by (simp add: task_done_def)
  then show ?thesis using assms(1) o t by (simp add: strand_inv_def activities_def)
qed

lemma strand_inv_step:
  assumes "strand_inv s" and "strand_step l s = Some s'"
  shows "strand_inv s'"
proof (cases l)
  case (Add t)
  with assms(2) show ?thesis by (auto intro: addTask_inv [OF assms(1)])
next
  case Next
  with assms(2) show ?thesis by (auto intro: scheduleNext_inv [OF assms(1)])
next
  case (Submit k)
  with assms(2) show ?thesis by (auto intro: executor_addTask_inv [OF assms(1)])
next
  case (Begin k)
  with assms(2) show ?thesis by (auto intro: executor_start_inv [OF assms(1)])
next
  case (End k)
  with assms(2) show ?thesis by (auto intro: task_done_inv [OF assms(1)])
qed

interpretation st: system_invariant strand_step new_Strand strand_inv
  by unfold_locales
     (simp add: strand_inv_def activities_def new_Strand_def, rule strand_inv_step)

abbreviation reachable_strand :: "strand \<Rightarrow> bool" where
  "reachable_strand \<equiv> reach strand_step new_Strand"

lemma strand_run:
  assumes "case run_labels strand_step ls new_Strand of None \<Rightarrow> False | Some s \<Rightarrow> P s"
  shows "\<exists>s. reachable_strand s \<and> P s"
  using assms reach_run by (fastforce split: option.splits)

subsection \<open>Properties\<close>

text \<open>
  C23: At most one task of a strand runs at a time, and tasks are started in the order in which they
  were added, whatever the executor does.
\<close>

theorem strand_serialises:
  assumes "reachable_strand s"
  shows "length (executing s) \<le> 1 \<and> prefix (started s) (added s)"
  using st.always [OF assms] by (auto simp: strand_inv_def activities_def prefix_def split: if_splits)

theorem strand_serialises_witness:
  "\<exists>s. reachable_strand s \<and> added s = [1, 2, 3] \<and> executing s = [2] \<and> started s = [1, 2]
     \<and> length (executing s) \<le> 1 \<and> prefix (started s) (added s)"
proof -
  have "\<exists>s. reachable_strand s \<and> added s = [1, 2, 3] \<and> executing s = [2] \<and> started s = [1, 2]"
    by (rule strand_run [where ls = "[Add 1, Add 2, Next, Submit 0, Begin 0, Add 3, End 0, Next, Submit 0, Begin 0]"])
       code_simp
  then show ?thesis using strand_serialises by blast
qed



end
