(* ===== verification/StrandPool.thy ===== *)
theory StrandPool
  imports Future Strand
begin

text \<open>
  A strand of \<open>include/net/Strand.hpp\<close> on the thread pool of \<open>include/tools/ThreadPool.hpp\<close>, which is its
  \<open>Executor_t\<close>: the two transition systems run together, with other clients of the pool beside the
  strand. The closure that \<open>scheduleNext\<close> gives to the pool for the task \<open>t\<close> is the pool's task number
  \<open>2 * t\<close>, the tasks of other clients have odd numbers. A worker that takes such a closure starts the task,
  and ends it before it leaves the closure; \<open>addTask\<close> of the strand wraps every task in a new
  \<open>std::packaged_task\<close>, whose results are an argument and whose shared states a field.

  The critical section of \<open>scheduleNext\<close> and the submission to the pool are steps of whichever thread has
  come to them. The model lets a worker go on to its next closure before these two steps, so that it has all runs
  of the program and some more.
\<close>

subsection \<open>State and steps\<close>

record 'a strand_pool =
  strand_of :: strand
  executor :: pool
  promised :: "nat \<Rightarrow> 'a result option"

definition new_strand_pool :: "'a strand_pool" where
  "new_strand_pool = \<lparr>strand_of = new_Strand, executor = new_ThreadPool, promised = (\<lambda>_. None)\<rparr>"

definition closure :: "nat \<Rightarrow> nat" where
  "closure t = 2 * t"

definition position :: "nat \<Rightarrow> nat list \<Rightarrow> nat" where
  "position t ts = length (takeWhile (\<lambda>u. u \<noteq> t) ts)"

datatype joint_label = Client nat | Schedule | Handover nat | Ended nat | Pool label

definition joint_handover :: "nat \<Rightarrow> 'a strand_pool \<Rightarrow> 'a strand_pool option" where
  "joint_handover k f =
     (if k < length (submitting (strand_of f))
      then (case (executor_addTask k (strand_of f), add_push (closure (submitting (strand_of f) ! k)) (executor f)) of
          (Some s, Some p) \<Rightarrow> Some (f\<lparr>strand_of := s, executor := p\<rparr>)
        | _ \<Rightarrow> None)
      else None)"

definition joint_end :: "(nat \<Rightarrow> 'a result) \<Rightarrow> nat \<Rightarrow> 'a strand_pool \<Rightarrow> 'a strand_pool option" where
  "joint_end result_of i f =
     (case pcs (executor f) i of
        Running u \<Rightarrow>
          (if even u
           then map_option (\<lambda>s. f\<lparr>strand_of := s, promised := call_packaged result_of (u div 2) (promised f)\<rparr>)
                  (task_done (position (u div 2) (executing (strand_of f))) (strand_of f))
           else None)
      | _ \<Rightarrow> None)"

text \<open>The steps of the pool: other clients submit, and a worker leaves a closure after its task.\<close>

fun pool_may :: "label \<Rightarrow> strand \<Rightarrow> pool \<Rightarrow> bool" where
  "pool_may (Push u) s p \<longleftrightarrow> odd u \<and> u \<notin> set (submitted p)"
| "pool_may (WFinish i r) s p \<longleftrightarrow> r = Returned \<and> list_all (\<lambda>t. pcs p i \<noteq> Running (closure t)) (executing s)"
| "pool_may _ s p \<longleftrightarrow> True"

fun strand_after :: "label \<Rightarrow> pool \<Rightarrow> strand \<Rightarrow> strand option" where
  "strand_after (WTake i) p s =
     (case task_queue p of
        [] \<Rightarrow> Some s
      | u # q \<Rightarrow> if even u then executor_start (position (u div 2) (scheduled s)) s else Some s)"
| "strand_after _ p s = Some s"

fun promised_after :: "label \<Rightarrow> pool \<Rightarrow> (nat \<Rightarrow> 'a result option) \<Rightarrow> nat \<Rightarrow> 'a result option" where
  "promised_after Drain p sh = discard_packaged (map (\<lambda>u. u div 2) (filter even (task_queue p))) sh"
| "promised_after _ p sh = sh"

definition joint_pool :: "label \<Rightarrow> 'a strand_pool \<Rightarrow> 'a strand_pool option" where
  "joint_pool l f =
     (if pool_may l (strand_of f) (executor f)
      then (case (strand_after l (executor f) (strand_of f), pool_step l (executor f)) of
          (Some s, Some p) \<Rightarrow> Some \<lparr>strand_of = s, executor = p, promised = promised_after l (executor f) (promised f)\<rparr>
        | _ \<Rightarrow> None)
      else None)"

fun joint_step :: "(nat \<Rightarrow> 'a result) \<Rightarrow> joint_label \<Rightarrow> 'a strand_pool \<Rightarrow> 'a strand_pool option" where
  "joint_step result_of (Client t) f =
     (if t \<in> set (added (strand_of f)) then None
      else map_option (\<lambda>s. f\<lparr>strand_of := s\<rparr>) (addTask t (strand_of f)))"
| "joint_step result_of Schedule f = map_option (\<lambda>s. f\<lparr>strand_of := s\<rparr>) (scheduleNext (strand_of f))"
| "joint_step result_of (Handover k) f = joint_handover k f"
| "joint_step result_of (Ended i) f = joint_end result_of i f"
| "joint_step result_of (Pool l) f = joint_pool l f"

subsection \<open>Invariant\<close>

text \<open>What the pool has of the strand.\<close>

definition links :: "strand \<Rightarrow> pool \<Rightarrow> bool" where
  "links s p \<longleftrightarrow> filter even (submitted p) = map closure (started s @ scheduled s)
     \<and> (\<forall>t. closure t \<in> set (task_queue p) \<longrightarrow> t \<in> set (scheduled s))
     \<and> filter even (map fst (filter snd (taken p))) = map closure (started s)
     \<and> (\<forall>t \<in> set (executing s). t \<in> set (started s) \<and> (\<exists>i. runs p i (closure t)))"

definition promise_of :: "(nat \<Rightarrow> 'a result) \<Rightarrow> strand \<Rightarrow> pool \<Rightarrow> nat \<Rightarrow> 'a result option" where
  "promise_of result_of s p t =
     (if (closure t, False) \<in> set (taken p) then Some broken_promise
      else if t \<in> set (started s) \<and> t \<notin> set (executing s) then Some (result_of t) else None)"

definition joint_inv :: "(nat \<Rightarrow> 'a result) \<Rightarrow> 'a strand_pool \<Rightarrow> bool" where
  "joint_inv result_of f \<longleftrightarrow> strand_inv (strand_of f) \<and> distinct (added (strand_of f))
     \<and> pool_inv (executor f) \<and> run_inv (executor f) \<and> links (strand_of f) (executor f)
     \<and> promised f = promise_of result_of (strand_of f) (executor f)"

lemma closure_simps [simp]: "even (closure t)" "closure t div 2 = t" "closure t = closure u \<longleftrightarrow> t = u"
  by (simp_all add: closure_def)

lemma even_closure: "even u \<Longrightarrow> closure (u div 2) = u"
  by (simp add: closure_def)

lemma closure_head: "\<not> (case us of [] \<Rightarrow> True | u # q \<Rightarrow> odd u) \<Longrightarrow> \<exists>t ts. us = closure t # ts"
  by (cases us) (auto dest: even_closure [symmetric])

lemma position_single [simp]: "position t [t] = 0" "position t [u] = 0 \<longleftrightarrow> u = t" "position t [u] < Suc 0 \<longleftrightarrow> u = t"
  by (simp_all add: position_def)

lemma position_bound: "position t ts < length ts \<longleftrightarrow> t \<in> set ts"
  by (induction ts) (auto simp: position_def)

lemma run_inv_step:
  assumes "pool_inv p" "run_inv p" "packaged_label l p" "pool_step l p = Some p'"
  shows "run_inv p'"
proof -
  let ?f = "\<lparr>pool_of = p, shared_state = state_of (\<lambda>_. Inr ()) p\<rparr>"
  have "future_inv (\<lambda>_. Inr ()) ?f" using assms by (simp add: future_inv_def)
  moreover have "future_step (\<lambda>_. Inr ()) l ?f = Some \<lparr>pool_of = p', shared_state = shared_after (\<lambda>_. Inr ()) l p (state_of (\<lambda>_. Inr ()) p)\<rparr>"
    using assms by (simp add: future_step_def)
  ultimately show ?thesis using future_inv_step by (fastforce simp: future_inv_def)
qed

lemma pool_may_packaged: "pool_may l s p \<Longrightarrow> packaged_label l p"
  by (cases l) auto

lemma joint_inv_init: "joint_inv c new_strand_pool"
proof -
  have "run_inv new_ThreadPool" "links new_Strand new_ThreadPool" "promise_of c new_Strand new_ThreadPool = (\<lambda>_. None)"
    by (simp_all add: run_inv_def runs_def links_def promise_of_def new_ThreadPool_def new_Strand_def fun_eq_iff)
  moreover have "strand_inv new_Strand" "distinct (added new_Strand)"
    by (simp_all add: strand_inv_def activities_def new_Strand_def)
  ultimately show ?thesis by (simp add: joint_inv_def new_strand_pool_def pool_inv_init)
qed

text \<open>The steps of the strand alone, and the submission to the pool.\<close>

lemma links_frame:
  assumes "started s' = started s" "scheduled s' = scheduled s" "executing s' = executing s"
  shows "links s' p = links s p" "promise_of c s' p = promise_of c s p"
  using assms by (simp_all add: links_def promise_of_def fun_eq_iff)

lemma client_step:
  assumes "joint_inv c f" "joint_step c (Client t) f = Some f'"
  shows "joint_inv c f'"
proof -
  obtain s' where s': "addTask t (strand_of f) = Some s'" "f' = f\<lparr>strand_of := s'\<rparr>" "t \<notin> set (added (strand_of f))"
    using assms(2) by (auto split: if_splits)
  have "started s' = started (strand_of f)" "scheduled s' = scheduled (strand_of f)" "executing s' = executing (strand_of f)"
    and d: "distinct (added s')"
    using s' assms(1) by (auto simp: addTask_def joint_inv_def)
  note fr = links_frame [OF this(1-3)]
  show ?thesis using assms(1) addTask_inv [OF _ s'(1)] s'(2) d by (simp add: joint_inv_def fr)
qed

lemma schedule_step:
  assumes "joint_inv c f" "joint_step c Schedule f = Some f'"
  shows "joint_inv c f'"
proof -
  obtain s' where s': "scheduleNext (strand_of f) = Some s'" "f' = f\<lparr>strand_of := s'\<rparr>"
    using assms(2) by auto
  have "started s' = started (strand_of f)" "scheduled s' = scheduled (strand_of f)" "executing s' = executing (strand_of f)"
    and d: "distinct (added s')"
    using s' assms(1) by (auto simp: scheduleNext_def joint_inv_def split: if_splits list.splits)
  note fr = links_frame [OF this(1-3)]
  show ?thesis using assms(1) scheduleNext_inv [OF _ s'(1)] s'(2) d by (simp add: joint_inv_def fr)
qed

lemma submitted_closure:
  assumes "links s p"
  shows "closure t \<in> set (submitted p) \<longleftrightarrow> t \<in> set (started s) \<or> t \<in> set (scheduled s)"
proof -
  have "closure t \<in> set (submitted p) \<longleftrightarrow> closure t \<in> set (filter even (submitted p))" by simp
  also have "\<dots> \<longleftrightarrow> t \<in> set (started s @ scheduled s)"
    using assms by (auto simp: links_def)
  finally show ?thesis by simp
qed

lemma handover_step:
  assumes inv: "joint_inv c f" and st: "joint_step c (Handover k) f = Some f'"
  shows "joint_inv c f'"
proof -
  let ?s = "strand_of f" and ?p = "executor f"
  have I: "strand_inv ?s" "distinct (added ?s)" "pool_inv ?p" "run_inv ?p" "links ?s ?p"
    using inv by (simp_all add: joint_inv_def)
  obtain s' p' where k: "k < length (submitting ?s)" and s': "executor_addTask k ?s = Some s'"
    and p': "add_push (closure (submitting ?s ! k)) ?p = Some p'" and f': "f' = f\<lparr>strand_of := s', executor := p'\<rparr>"
    using st by (auto simp: joint_handover_def split: if_splits option.splits)
  note o = only_activity(2) [OF I(1) k]
  then obtain t where t: "submitting ?s = [t]" by blast
  have s: "s' = ?s\<lparr>submitting := [], scheduled := [t]\<rparr>" using s' o t by (simp add: executor_addTask_def)
  have "added ?s = started ?s @ t # Strand.queue ?s" using I(1) o t by (simp add: strand_inv_def)
  with I(2) have "t \<notin> set (started ?s)" by simp
  then have new: "closure t \<notin> set (submitted ?p)" using submitted_closure [OF I(5)] o by simp
  have push: "add_push (closure t) ?p = Some p'" using p' o t by simp
  then have p: "task_queue p' = task_queue ?p @ [closure t]" "submitted p' = submitted ?p @ [closure t]" "taken p' = taken ?p"
    "runs p' = runs ?p"
    by (auto simp: add_push_def runs_def fun_eq_iff split: if_splits)
  have "pool_inv p'" using pool_inv_step [OF I(3), of "Push (closure t)"] push by simp
  moreover have "run_inv p'" using run_inv_step [OF I(3,4), of "Push (closure t)"] new push by simp
  moreover have "links s' p'" using I(5) o by (auto simp: links_def s p)
  moreover have "promise_of c s' p' = promise_of c ?s ?p" by (simp add: promise_of_def fun_eq_iff s p)
  ultimately show ?thesis
    using inv executor_addTask_inv [OF I(1) s'] by (simp add: joint_inv_def f' s)
qed

lemma end_step:
  assumes inv: "joint_inv c f" and st: "joint_step c (Ended i) f = Some f'"
  shows "joint_inv c f'"
proof -
  let ?s = "strand_of f" and ?p = "executor f"
  have I: "strand_inv ?s" "pool_inv ?p" "queue_inv ?p" "run_inv ?p" "links ?s ?p" "promised f = promise_of c ?s ?p"
    using inv by (simp_all add: joint_inv_def pool_inv_def)
  obtain u s' where u: "pcs ?p i = Running u" "even u" and st': "task_done (position (u div 2) (executing ?s)) ?s = Some s'"
    and fu: "f' = f\<lparr>strand_of := s', promised := call_packaged c (u div 2) (promised f)\<rparr>"
    using st by (auto simp: joint_end_def split: wpc.splits if_splits)
  define t where "t = u div 2"
  have r: "runs ?p i (closure t)" using u by (simp add: runs_def t_def even_closure)
  have s': "task_done (position t (executing ?s)) ?s = Some s'"
    and f': "f' = f\<lparr>strand_of := s', promised := call_packaged c t (promised f)\<rparr>"
    using st' fu by (simp_all add: t_def)
  have "position t (executing ?s) < length (executing ?s)" using s' by (simp add: task_done_def split: if_splits)
  note o = only_activity(4) [OF I(1) this] and this
  then have t: "executing ?s = [t]" by (auto simp: position_bound)
  have s: "s' = ?s\<lparr>executing := [], calling := 1\<rparr>" using s' o t by (simp add: task_done_def)
  have "(closure t, True) \<in> set (taken ?p)" using I(4) r by (auto simp: run_inv_def)
  from taken_once [OF I(3,4) this] have "(closure t, False) \<notin> set (taken ?p)" .
  moreover have "t \<in> set (started ?s)" using I(5) t by (auto simp: links_def)
  ultimately have "call_packaged c t (promise_of c ?s ?p) = promise_of c s' ?p"
    by (auto simp: call_packaged_def promise_of_def fun_eq_iff s t)
  moreover have "links s' ?p" using I(5) by (simp add: links_def s)
  ultimately show ?thesis
    using inv task_done_inv [OF I(1) s'] by (simp add: joint_inv_def f' s)
qed

text \<open>The steps of the pool.\<close>

lemma pool_frame:
  assumes "plain l" "pool_step l p = Some p'" "pool_inv p"
  shows "task_queue p' = task_queue p" "taken p' = taken p" "submitted p' = submitted p" "runs p' = runs p"
    "strand_after l p s = Some s" "promised_after l p sh = sh"
proof -
  have m: "mutex_inv p" using assms(3) by (simp add: pool_inv_def)
  show "task_queue p' = task_queue p" using assms(1,2) by (cases l) (auto simp: pool_step_defs split: pool_splits)
  show "taken p' = taken p" by (rule plain_step(1) [OF assms(1,2) m])
  show "submitted p' = submitted p" by (rule plain_step(2) [OF assms(1,2) m])
  show "runs p' = runs p" by (rule plain_step(3) [OF assms(1,2) m])
  show "strand_after l p s = Some s" using assms(1) by (cases l) simp_all
  show "promised_after l p sh = sh" using assms(1) by (cases l) simp_all
qed

text \<open>A worker takes a closure of the strand: it is the only one that was submitted and not started.\<close>

lemma take_closure:
  assumes I: "strand_inv s" "distinct (added s)" "queue_inv p" "run_inv p" "links s p"
    and q: "task_queue p = closure t # q" and st: "worker_take i p = Some p'"
  shows "executor_start (position t (scheduled s)) s = Some (s\<lparr>scheduled := [], executing := [t], started := started s @ [t]\<rparr>)"
    "links (s\<lparr>scheduled := [], executing := [t], started := started s @ [t]\<rparr>) p'"
    "promise_of c (s\<lparr>scheduled := [], executing := [t], started := started s @ [t]\<rparr>) p' = promise_of c s p"
proof -
  have "t \<in> set (scheduled s)" using I(5) q by (simp add: links_def)
  then have "position t (scheduled s) < length (scheduled s)" by (simp add: position_bound)
  note o = only_activity(3) [OF I(1) this] and this
  then have t: "scheduled s = [t]" "executing s = []" by auto
  then show "executor_start (position t (scheduled s)) s = Some (s\<lparr>scheduled := [], executing := [t], started := started s @ [t]\<rparr>)"
    by (simp add: executor_start_def)
  have p': "task_queue p' = q" "taken p' = taken p @ [(closure t, True)]" "submitted p' = submitted p" "runs p' i (closure t)"
    using st q by (auto simp: worker_take_def at_def runs_def split: if_splits)
  have "distinct (task_queue p)" using I(3,4) by (simp add: queue_inv_def run_inv_def)
  then have "closure t \<notin> set q" using q by simp
  then show "links (s\<lparr>scheduled := [], executing := [t], started := started s @ [t]\<rparr>) p'"
    using I(5) t q p' by (auto simp: links_def)
  have "(closure t, False) \<notin> set (taken p)" using queued_not_taken [OF I(3,4)] q by simp
  moreover have "t \<notin> set (started s)" using I(1,2) t by (simp add: strand_inv_def)
  ultimately show "promise_of c (s\<lparr>scheduled := [], executing := [t], started := started s @ [t]\<rparr>) p' = promise_of c s p"
    by (auto simp: promise_of_def fun_eq_iff p' t)
qed

text \<open>The other steps of the pool leave the strand as it is.\<close>

lemma take_other:
  assumes "links s p" "worker_take i p = Some p'" "case task_queue p of [] \<Rightarrow> True | u # q \<Rightarrow> odd u"
  shows "links s p'" "promise_of c s p' = promise_of c s p"
proof -
  have "runs p j u \<Longrightarrow> runs p' j u" for j u
    using assms(2) by (auto simp: worker_take_def at_def runs_def split: if_splits list.splits)
  then have keep: "\<forall>t \<in> set (executing s). t \<in> set (started s) \<and> (\<exists>j. runs p' j (closure t))"
    using assms(1) unfolding links_def by blast
  consider "task_queue p' = task_queue p" "taken p' = taken p" "submitted p' = submitted p"
    | u where "odd u" "task_queue p = u # task_queue p'" "taken p' = taken p @ [(u, True)]" "submitted p' = submitted p"
    using assms(2,3) by (auto simp: worker_take_def at_def split: if_splits list.splits)
  then have "links s p' \<and> promise_of c s p' = promise_of c s p"
  proof cases
    case 1
    then show ?thesis using assms(1) keep by (simp add: links_def promise_of_def fun_eq_iff)
  next
    case (2 u)
    then have "closure t \<noteq> u" for t by auto
    then show ?thesis using assms(1) keep 2 by (simp add: links_def promise_of_def fun_eq_iff)
  qed
  then show "links s p'" "promise_of c s p' = promise_of c s p" by simp_all
qed

lemma finish_other:
  assumes "links s p" "worker_finish i r p = Some p'" "pool_may (WFinish i r) s p"
  shows "links s p'" "promise_of c s p' = promise_of c s p"
proof -
  have p': "task_queue p' = task_queue p" "taken p' = taken p" "submitted p' = submitted p"
    and keep: "runs p j u \<Longrightarrow> j \<noteq> i \<Longrightarrow> runs p' j u" for j u
    using assms(2) by (auto simp: worker_finish_def at_def runs_def split: wpc.splits)
  have "\<not> runs p i (closure t)" if "t \<in> set (executing s)" for t
    using assms(3) that by (auto simp: runs_def list_all_iff)
  then have "\<forall>t \<in> set (executing s). t \<in> set (started s) \<and> (\<exists>j. runs p' j (closure t))"
    using assms(1) keep unfolding links_def by metis
  then show "links s p'" using assms(1) by (simp add: links_def p')
  show "promise_of c s p' = promise_of c s p" by (simp add: promise_of_def fun_eq_iff p')
qed

lemma drain_other:
  assumes "links s p" "stop_drain p = Some p'"
  shows "links s p'" "promise_of c s p' = promised_after Drain p (promise_of c s p)"
proof -
  have p': "task_queue p' = []" "taken p' = taken p @ map (\<lambda>t. (t, False)) (task_queue p)" "submitted p' = submitted p"
    "runs p' = runs p"
    using assms(2) by (auto simp: stop_drain_def runs_def fun_eq_iff split: if_splits)
  show "links s p'" using assms(1) by (simp add: links_def p')
  have "closure t \<in> set (task_queue p) \<longleftrightarrow> t \<in> set (map (\<lambda>u. u div 2) (filter even (task_queue p)))" for t
  proof
    assume "closure t \<in> set (task_queue p)"
    then have "closure t \<in> set (filter even (task_queue p))" by simp
    then show "t \<in> set (map (\<lambda>u. u div 2) (filter even (task_queue p)))" by (metis closure_simps(2) image_eqI list.set_map)
  qed (auto simp: even_closure)
  then show "promise_of c s p' = promised_after Drain p (promise_of c s p)"
    by (auto simp: promise_of_def discard_packaged_def fun_eq_iff p')
qed

lemma push_other:
  assumes "links s p" "add_push u p = Some p'" "odd u"
  shows "links s p'" "promise_of c s p' = promise_of c s p"
  using assms by (auto simp: add_push_def links_def runs_def promise_of_def fun_eq_iff split: if_splits)

lemma pool_links:
  assumes I: "strand_inv s" "distinct (added s)" "pool_inv p" "run_inv p" "links s p"
    and ok: "pool_may l s p" and st: "strand_after l p s = Some s'" "pool_step l p = Some p'"
  shows "strand_inv s' \<and> distinct (added s') \<and> links s' p' \<and> promise_of c s' p' = promised_after l p (promise_of c s p)"
proof (cases "plain l")
  case True
  note pf = pool_frame [OF True st(2) I(3)]
  have "s' = s" using st(1) pf(5) [of s] by simp
  then show ?thesis using I by (simp add: pf(1-4,6) links_def promise_of_def fun_eq_iff)
next
  case False
  then consider i where "l = WTake i" | i r where "l = WFinish i r" | "l = Drain" | u where "l = Push u" by (cases l) auto
  then show ?thesis
  proof cases
    case (1 i)
    have q: "queue_inv p" and w: "worker_take i p = Some p'" using I(3) st(2) 1 by (simp_all add: pool_inv_def)
    show ?thesis
    proof (cases "case task_queue p of [] \<Rightarrow> True | u # q \<Rightarrow> odd u")
      case True
      then have "s' = s" using st(1) 1 by (auto split: list.splits)
      then show ?thesis using I take_other [OF I(5) w True] 1 by simp
    next
      case False
      then obtain t ts where c: "task_queue p = closure t # ts" using closure_head by blast
      note tc = take_closure [OF I(1,2) q I(4,5) c w]
      have s': "executor_start (position t (scheduled s)) s = Some s'" using st(1) 1 c by simp
      then have "s' = s\<lparr>scheduled := [], executing := [t], started := started s @ [t]\<rparr>" using tc(1) by simp
      then show ?thesis using tc(2,3) I(2) executor_start_inv [OF I(1) s'] 1 by simp
    qed
  next
    case (2 i r)
    then show ?thesis using I st ok finish_other [OF I(5), of i r p'] by simp
  next
    case 3
    then show ?thesis using I st drain_other [OF I(5), of p'] by simp
  next
    case (4 u)
    then show ?thesis using I st ok push_other [OF I(5), of u p'] by simp
  qed
qed

lemma pool_step_joint:
  assumes "joint_inv c f" "joint_step c (Pool l) f = Some f'"
  shows "joint_inv c f'"
proof -
  let ?s = "strand_of f" and ?p = "executor f"
  have I: "strand_inv ?s" "distinct (added ?s)" "pool_inv ?p" "run_inv ?p" "links ?s ?p"
    using assms(1) by (simp_all add: joint_inv_def)
  obtain s' p' where ok: "pool_may l ?s ?p" and s: "strand_after l ?p ?s = Some s'" and p: "pool_step l ?p = Some p'"
    and f': "f' = \<lparr>strand_of = s', executor = p', promised = promised_after l ?p (promised f)\<rparr>"
    using assms(2) by (auto simp: joint_pool_def split: if_splits option.splits)
  have "pool_inv p'" "run_inv p'"
    using pool_inv_step [OF I(3) p] run_inv_step [OF I(3,4) pool_may_packaged [OF ok] p] by simp_all
  then show ?thesis using pool_links [OF I ok s p, of c] assms(1) by (simp add: joint_inv_def f')
qed

lemma joint_inv_step:
  assumes "joint_inv c f" "joint_step c l f = Some f'"
  shows "joint_inv c f'"
  using assms client_step schedule_step handover_step end_step pool_step_joint by (cases l) blast+

interpretation jo: system_invariant "joint_step c" new_strand_pool "joint_inv c"
  by unfold_locales (rule joint_inv_init, rule joint_inv_step)

text \<open>The strand does not hold the pool up: what a worker can take, it can take together with the strand.\<close>

lemma take_enabled:
  assumes "joint_inv c f" "pool_step (WTake i) (executor f) = Some p'"
  shows "\<exists>f'. joint_step c (Pool (WTake i)) f = Some f'"
proof -
  have I: "strand_inv (strand_of f)" "distinct (added (strand_of f))" "queue_inv (executor f)" "run_inv (executor f)"
    "links (strand_of f) (executor f)"
    using assms(1) by (simp_all add: joint_inv_def pool_inv_def)
  have "\<exists>s'. strand_after (WTake i) (executor f) (strand_of f) = Some s'"
  proof (cases "case task_queue (executor f) of [] \<Rightarrow> True | u # q \<Rightarrow> odd u")
    case False
    then obtain t ts where c: "task_queue (executor f) = closure t # ts"
      using closure_head by blast
    then show ?thesis using take_closure(1) [OF I c] assms(2) by simp
  qed (auto split: list.splits)
  then show ?thesis using assms(2) by (auto simp: joint_pool_def)
qed

text \<open>Each step is a step of the strand alone or leaves it as it is: the pool is an executor as the strand needs it.\<close>

lemma joint_projects:
  assumes "joint_step c l f = Some f'"
  shows "strand_of f' = strand_of f \<or> (\<exists>k. strand_step k (strand_of f) = Some (strand_of f'))"
proof (cases l)
  case (Client t)
  with assms have "strand_step (Add t) (strand_of f) = Some (strand_of f')" by (auto split: if_splits)
  then show ?thesis by blast
next
  case Schedule
  with assms have "strand_step Next (strand_of f) = Some (strand_of f')" by auto
  then show ?thesis by blast
next
  case (Handover k)
  with assms have "strand_step (Submit k) (strand_of f) = Some (strand_of f')"
    by (auto simp: joint_handover_def split: if_splits option.splits)
  then show ?thesis by blast
next
  case (Ended i)
  with assms obtain k where "strand_step (End k) (strand_of f) = Some (strand_of f')"
    by (auto simp: joint_end_def split: wpc.splits if_splits)
  then show ?thesis by blast
next
  case (Pool p)
  with assms have "strand_after p (executor f) (strand_of f) = Some (strand_of f')"
    by (auto simp: joint_pool_def split: if_splits option.splits)
  then have "strand_of f' = strand_of f \<or> (\<exists>k. strand_step (Begin k) (strand_of f) = Some (strand_of f'))"
    by (cases p) (auto split: list.splits if_splits)
  then show ?thesis by blast
qed

lemma joint_projects_pool:
  assumes "joint_step c l f = Some f'"
  shows "executor f' = executor f \<or> (\<exists>k. pool_step k (executor f) = Some (executor f'))"
proof (cases l)
  case (Handover k)
  with assms have "pool_step (Push (closure (submitting (strand_of f) ! k))) (executor f) = Some (executor f')"
    by (auto simp: joint_handover_def split: if_splits option.splits)
  then show ?thesis by blast
next
  case (Pool p)
  with assms have "pool_step p (executor f) = Some (executor f')"
    by (auto simp: joint_pool_def split: if_splits option.splits)
  then show ?thesis by blast
qed (use assms in \<open>auto simp: joint_end_def split: if_splits wpc.splits\<close>)

interpretation js: system_refinement "joint_step c" new_strand_pool strand_step new_Strand strand_of
  by unfold_locales (simp add: new_strand_pool_def, rule joint_projects)

interpretation jp: system_refinement "joint_step c" new_strand_pool pool_step new_ThreadPool executor
  by unfold_locales (simp add: new_strand_pool_def, rule joint_projects_pool)

subsection \<open>Properties\<close>

text \<open>
  C17: The strand and the thread pool fit together: in every interleaving with other
  clients of the pool, both parts are in states they reach on their own; at most one task of the strand
  is being executed, by exactly one worker; and the workers have taken the tasks of the strand in the order in
  which they were added.
\<close>

theorem strand_on_pool:
  assumes "reach (joint_step result_of) new_strand_pool f"
  shows "reachable_strand (strand_of f) \<and> reachable_pool (executor f)
    \<and> length (executing (strand_of f)) \<le> 1
    \<and> (\<forall>t \<in> set (executing (strand_of f)). \<exists>!i. pcs (executor f) i = Running (closure t))
    \<and> prefix (filter even (map fst (filter snd (taken (executor f))))) (map closure (added (strand_of f)))"
proof -
  have inv: "strand_inv (strand_of f)" "run_inv (executor f)" "links (strand_of f) (executor f)"
    using jo.always [OF assms] by (simp_all add: joint_inv_def)
  have "prefix (map closure (started (strand_of f))) (map closure (added (strand_of f)))"
    using inv(1) by (simp add: strand_inv_def prefix_def)
  moreover have "\<exists>!i. runs (executor f) i (closure t)" if "t \<in> set (executing (strand_of f))" for t
    using inv(2,3) that unfolding links_def run_inv_def by metis
  moreover have "length (executing (strand_of f)) \<le> 1"
    using inv(1) by (simp add: strand_inv_def activities_def split: if_splits)
  ultimately show ?thesis
    using js.reach_part [OF assms] jp.reach_part [OF assms] inv(3) by (simp add: links_def runs_def)
qed

text \<open>A run in which the tasks 3 and 4 are added, another client submits a task, and task 4 follows task 3.\<close>

definition sample_joint :: "joint_label list" where
  "sample_joint = map Pool [RunBegin, RunSpawn, RunSpawn, RunSpawn] @ [Client 3, Client 4, Schedule, Handover 0]
     @ map Pool [Push 1, WLock 0, WCheck 0, WWoken 0, WDecide 0, WTake 0, WLock 1, WCheck 1, WWoken 1, WDecide 1, WTake 1]
     @ [Ended 0, Schedule, Handover 0]
     @ map Pool [WFinish 0 Returned, WLock 0, WCheck 0, WWoken 0, WDecide 0, WTake 0]"

definition triple :: "nat \<Rightarrow> nat result" where
  "triple t = Inr (3 * t)"

lemma run_joint:
  assumes "case run_labels (joint_step c) ls new_strand_pool of None \<Rightarrow> False | Some f \<Rightarrow> P f"
  shows "\<exists>f. reach (joint_step c) new_strand_pool f \<and> P f"
  using assms reach_run by (fastforce split: option.splits)

theorem strand_on_pool_witness:
  "\<exists>f. reach (joint_step triple) new_strand_pool f \<and> executing (strand_of f) = [4]
     \<and> reachable_strand (strand_of f) \<and> reachable_pool (executor f) \<and> (\<exists>!i. pcs (executor f) i = Running (closure 4))"
proof -
  have "\<exists>f. reach (joint_step triple) new_strand_pool f \<and> executing (strand_of f) = [4]"
    by (rule run_joint [where ls = sample_joint]) code_simp
  then obtain f where f: "reach (joint_step triple) new_strand_pool f" "executing (strand_of f) = [4]" by blast
  then show ?thesis using strand_on_pool [OF f(1)] by (intro exI [of _ f]) simp
qed

text \<open>
  C24: The future of a task of the strand has the result of the task exactly when the task has been started and
  has ended, and a broken promise exactly when the pool discarded its closure; until then it is not
  ready.
\<close>

theorem strand_future_has_result:
  assumes "reach (joint_step result_of) new_strand_pool f"
  shows "promised f t =
    (if (closure t, False) \<in> set (taken (executor f)) then Some (Inl (FutureError ''Broken promise''))
     else if t \<in> set (started (strand_of f)) \<and> t \<notin> set (executing (strand_of f)) then Some (result_of t)
     else None)"
  using jo.always [OF assms] by (simp add: joint_inv_def promise_of_def broken_promise_def)

theorem strand_future_has_result_witness:
  "\<exists>f. reach (joint_step triple) new_strand_pool f \<and> promised f 3 = Some (Inr 9) \<and> promised f 4 = None"
proof -
  have "\<exists>f. reach (joint_step triple) new_strand_pool f \<and> taken (executor f) = [(6, True), (1, True), (8, True)]
      \<and> started (strand_of f) = [3, 4] \<and> executing (strand_of f) = [4]"
    by (rule run_joint [where ls = sample_joint]) code_simp
  then obtain f where f: "reach (joint_step triple) new_strand_pool f" "taken (executor f) = [(6, True), (1, True), (8, True)]"
    "started (strand_of f) = [3, 4]" "executing (strand_of f) = [4]" by blast
  have "promised f 3 = Some (Inr 9)" "promised f 4 = None"
    using strand_future_has_result [OF f(1)] by (simp_all add: f(2-4) triple_def)
  then show ?thesis using f(1) by blast
qed

end
