(* ===== verification/Task.thy ===== *)
theory Task
  imports Transition
begin

text \<open>
  The coroutine task of \<open>include/coro/Task.hpp\<close>: the promise is a \<open>std::promise\<close>, and the coroutine is
  handed to the scheduler when it is called. The body is an argument: it suspends some number of times
  and then finishes with a value or an exception. The queue is the queue of the scheduler, which takes
  coroutines in the order in which they were added; an awaiter on which the body suspended adds it again.

  The class declares a destructor and no copy operations, so that the language generates copying of
  the handle. As for generators, using or destroying a frame that is not there sets \<open>task_misused\<close>.
\<close>

datatype 'a task_body = Suspends "'a task_body" | Finishes "'a result"

record 'a task_frame =
  remaining :: "'a task_body option"
  outcome :: "'a result option"
  retrieved :: bool

record 'a task_state =
  task_vars :: "nat \<Rightarrow> nat option option"
  task_frames :: "nat \<Rightarrow> 'a task_frame option"
  sched_queue :: "nat list"
  task_misused :: bool

definition new_tasks :: "'a task_state" where
  "new_tasks = \<lparr>task_vars = (\<lambda>_. None), task_frames = (\<lambda>_. None), sched_queue = [], task_misused = False\<rparr>"

text \<open>Calling the coroutine: the frame is suspended at the start and queued, and the task gets the handle.\<close>

definition get_return_object :: "nat \<Rightarrow> nat \<Rightarrow> 'a task_body \<Rightarrow> 'a task_state \<Rightarrow> 'a task_state" where
  "get_return_object v h b s =
     s\<lparr>task_frames := (task_frames s)(h \<mapsto> \<lparr>remaining = Some b, outcome = None, retrieved = False\<rparr>),
       sched_queue := sched_queue s @ [h], task_vars := (task_vars s)(v \<mapsto> Some h)\<rparr>"

text \<open>A resumption by a worker; the final suspension leaves nothing to do.\<close>

definition run_task :: "'a task_frame \<Rightarrow> 'a task_frame option" where
  "run_task f =
     (case remaining f of
        None \<Rightarrow> None
      | Some (Suspends b) \<Rightarrow> Some (f\<lparr>remaining := Some b\<rparr>)
      | Some (Finishes r) \<Rightarrow> Some (f\<lparr>remaining := None, outcome := Some r\<rparr>))"

definition worker_resume :: "nat \<Rightarrow> 'a task_state \<Rightarrow> 'a task_state" where
  "worker_resume h s =
     (case Option.bind (task_frames s h) run_task of
        None \<Rightarrow> s\<lparr>task_misused := True\<rparr>
      | Some f \<Rightarrow> s\<lparr>task_frames := (task_frames s)(h \<mapsto> f)\<rparr>)"

text \<open>
  \<open>get\<close>: the future can be taken from the promise once. The inner option is \<open>None\<close> while the future is
  not ready, where the code blocks; the outer one is \<open>None\<close> for a null handle or a destroyed frame.
\<close>

definition task_get :: "nat option \<Rightarrow> 'a task_state \<Rightarrow> ('a result option \<times> 'a task_state) option" where
  "task_get c s =
     (case c of
        None \<Rightarrow> None
      | Some h \<Rightarrow>
          (case task_frames s h of
             None \<Rightarrow> None
           | Some f \<Rightarrow>
               if retrieved f then Some (Some (Inl (FutureError ''Future already retrieved'')), s)
               else Some (outcome f, s\<lparr>task_frames := (task_frames s)(h \<mapsto> f\<lparr>retrieved := True\<rparr>)\<rparr>)))"

definition task_destroy :: "nat option \<Rightarrow> 'a task_state \<Rightarrow> 'a task_state" where
  "task_destroy c s =
     (case c of
        None \<Rightarrow> s
      | Some h \<Rightarrow>
          if task_frames s h = None then s\<lparr>task_misused := True\<rparr>
          else s\<lparr>task_frames := (task_frames s)(h := None)\<rparr>)"

datatype 'a task_label =
    CallTask nat nat "'a task_body"
  | CopyTask nat nat
  | DestroyTask nat
  | Worker
  | Requeue nat

fun task_step :: "'a task_label \<Rightarrow> 'a task_state \<Rightarrow> 'a task_state option" where
  "task_step (CallTask v h b) s =
     (if task_vars s v = None \<and> task_frames s h = None then Some (get_return_object v h b s) else None)"
| "task_step (CopyTask v w) s =
     (if task_vars s v = None \<and> task_vars s w \<noteq> None then Some (s\<lparr>task_vars := (task_vars s)(v := task_vars s w)\<rparr>) else None)"
| "task_step (DestroyTask v) s =
     (case task_vars s v of
        None \<Rightarrow> None
      | Some c \<Rightarrow> Some ((task_destroy c s)\<lparr>task_vars := (task_vars s)(v := None)\<rparr>))"
| "task_step Worker s =
     (case sched_queue s of [] \<Rightarrow> None | h # q \<Rightarrow> Some (worker_resume h (s\<lparr>sched_queue := q\<rparr>)))"
| "task_step (Requeue h) s = Some (s\<lparr>sched_queue := sched_queue s @ [h]\<rparr>)"

subsection \<open>The result of a task\<close>

primrec suspensions :: "'a task_body \<Rightarrow> nat" where
  "suspensions (Suspends b) = Suc (suspensions b)"
| "suspensions (Finishes r) = 0"

primrec final_result :: "'a task_body \<Rightarrow> 'a result" where
  "final_result (Suspends b) = final_result b"
| "final_result (Finishes r) = r"

text \<open>The worker runs the task, which is added again after each suspension.\<close>

definition schedule :: "nat \<Rightarrow> 'a task_body \<Rightarrow> 'a task_label list" where
  "schedule h b = concat (replicate (suspensions b) [Worker, Requeue h]) @ [Worker]"

lemma schedule_runs:
  assumes "sched_queue s = [h]" "task_frames s h = Some \<lparr>remaining = Some b, outcome = None, retrieved = r\<rparr>"
  shows "run_labels task_step (schedule h b) s
    = Some (s\<lparr>sched_queue := [], task_frames := (task_frames s)(h \<mapsto> \<lparr>remaining = None, outcome = Some (final_result b), retrieved = r\<rparr>)\<rparr>)"
  using assms
proof (induction b arbitrary: s)
  case (Finishes x)
  then show ?case by (simp add: schedule_def worker_resume_def run_task_def fun_upd_def)
next
  case (Suspends b)
  let ?f = "(task_frames s)(h \<mapsto> \<lparr>remaining = Some b, outcome = None, retrieved = r\<rparr>)"
  let ?s = "s\<lparr>task_frames := ?f, sched_queue := [h]\<rparr>"
  have "run_labels task_step (schedule h (Suspends b)) s = run_labels task_step (schedule h b) ?s"
    using Suspends.prems by (simp add: schedule_def worker_resume_def run_task_def)
  with Suspends.IH [of ?s] show ?case by (simp cong: if_cong)
qed

subsection \<open>The specialisation for \<open>void\<close>\<close>

text \<open>
  \<open>Task<void>\<close> is written out a second time in the code: its promise is a promise of a \<open>bool\<close>, which is set to true on
  return, and \<open>get\<close> drops the value. The states and steps are those above with this promise in place of
  the other.
\<close>

record void_frame =
  void_remaining :: "unit task_body option"
  ready :: "bool result option"
  void_retrieved :: bool

record void_state =
  void_vars :: "nat \<Rightarrow> nat option option"
  void_frames :: "nat \<Rightarrow> void_frame option"
  void_queue :: "nat list"
  void_misused :: bool

definition new_void_tasks :: void_state where
  "new_void_tasks = \<lparr>void_vars = (\<lambda>_. None), void_frames = (\<lambda>_. None), void_queue = [], void_misused = False\<rparr>"

definition get_return_object_void :: "nat \<Rightarrow> nat \<Rightarrow> unit task_body \<Rightarrow> void_state \<Rightarrow> void_state" where
  "get_return_object_void v h b s =
     s\<lparr>void_frames := (void_frames s)(h \<mapsto> \<lparr>void_remaining = Some b, ready = None, void_retrieved = False\<rparr>),
       void_queue := void_queue s @ [h], void_vars := (void_vars s)(v \<mapsto> Some h)\<rparr>"

definition run_task_void :: "void_frame \<Rightarrow> void_frame option" where
  "run_task_void f =
     (case void_remaining f of
        None \<Rightarrow> None
      | Some (Suspends b) \<Rightarrow> Some (f\<lparr>void_remaining := Some b\<rparr>)
      | Some (Finishes r) \<Rightarrow>
          Some (f\<lparr>void_remaining := None, ready := Some (case r of Inr _ \<Rightarrow> Inr True | Inl e \<Rightarrow> Inl e)\<rparr>))"

definition worker_resume_void :: "nat \<Rightarrow> void_state \<Rightarrow> void_state" where
  "worker_resume_void h s =
     (case Option.bind (void_frames s h) run_task_void of
        None \<Rightarrow> s\<lparr>void_misused := True\<rparr>
      | Some f \<Rightarrow> s\<lparr>void_frames := (void_frames s)(h \<mapsto> f)\<rparr>)"

definition task_get_void :: "nat option \<Rightarrow> void_state \<Rightarrow> (unit result option \<times> void_state) option" where
  "task_get_void c s =
     (case c of
        None \<Rightarrow> None
      | Some h \<Rightarrow>
          (case void_frames s h of
             None \<Rightarrow> None
           | Some f \<Rightarrow>
               if void_retrieved f then Some (Some (Inl (FutureError ''Future already retrieved'')), s)
               else Some (map_option (\<lambda>r. case r of Inr _ \<Rightarrow> Inr () | Inl e \<Rightarrow> Inl e) (ready f),
                          s\<lparr>void_frames := (void_frames s)(h \<mapsto> f\<lparr>void_retrieved := True\<rparr>)\<rparr>)))"

definition task_destroy_void :: "nat option \<Rightarrow> void_state \<Rightarrow> void_state" where
  "task_destroy_void c s =
     (case c of
        None \<Rightarrow> s
      | Some h \<Rightarrow>
          if void_frames s h = None then s\<lparr>void_misused := True\<rparr>
          else s\<lparr>void_frames := (void_frames s)(h := None)\<rparr>)"

fun task_step_void :: "unit task_label \<Rightarrow> void_state \<Rightarrow> void_state option" where
  "task_step_void (CallTask v h b) s =
     (if void_vars s v = None \<and> void_frames s h = None then Some (get_return_object_void v h b s) else None)"
| "task_step_void (CopyTask v w) s =
     (if void_vars s v = None \<and> void_vars s w \<noteq> None then Some (s\<lparr>void_vars := (void_vars s)(v := void_vars s w)\<rparr>) else None)"
| "task_step_void (DestroyTask v) s =
     (case void_vars s v of
        None \<Rightarrow> None
      | Some c \<Rightarrow> Some ((task_destroy_void c s)\<lparr>void_vars := (void_vars s)(v := None)\<rparr>))"
| "task_step_void Worker s =
     (case void_queue s of [] \<Rightarrow> None | h # q \<Rightarrow> Some (worker_resume_void h (s\<lparr>void_queue := q\<rparr>)))"
| "task_step_void (Requeue h) s = Some (s\<lparr>void_queue := void_queue s @ [h]\<rparr>)"

text \<open>It is the primary template for \<open>bool\<close> with a body that returns true.\<close>

definition bool_frame :: "void_frame \<Rightarrow> bool task_frame" where
  "bool_frame f = \<lparr>remaining = map_option (map_task_body (\<lambda>_. True)) (void_remaining f), outcome = ready f, retrieved = void_retrieved f\<rparr>"

definition bool_state :: "void_state \<Rightarrow> bool task_state" where
  "bool_state s = \<lparr>task_vars = void_vars s, task_frames = map_option bool_frame \<circ> void_frames s, sched_queue = void_queue s,
     task_misused = void_misused s\<rparr>"

lemma run_task_bool: "run_task (bool_frame f) = map_option bool_frame (run_task_void f)"
  by (auto simp: run_task_def run_task_void_def bool_frame_def map_sum_def split: option.splits task_body.splits sum.splits)

lemma resume_bool: "worker_resume h (bool_state s) = bool_state (worker_resume_void h s)"
proof -
  have "Option.bind (task_frames (bool_state s) h) run_task = map_option bool_frame (Option.bind (void_frames s h) run_task_void)"
    by (cases "void_frames s h") (simp_all add: bool_state_def run_task_bool)
  then show ?thesis
    by (auto simp: worker_resume_def worker_resume_void_def bool_state_def fun_eq_iff split: option.splits)
qed

lemma void_step_bool:
  "task_step (map_task_label (\<lambda>_. True) l) (bool_state s) = map_option bool_state (task_step_void l s)"
proof (cases l)
  case Worker
  have "bool_state s\<lparr>sched_queue := q\<rparr> = bool_state (s\<lparr>void_queue := q\<rparr>)" for q by (simp add: bool_state_def)
  moreover have "sched_queue (bool_state s) = void_queue s" by (simp add: bool_state_def)
  ultimately show ?thesis using Worker by (cases "void_queue s") (simp_all add: resume_bool)
qed (auto simp: bool_state_def get_return_object_def get_return_object_void_def task_destroy_def task_destroy_void_def
    bool_frame_def fun_eq_iff split: option.splits)

lemma void_get_bool:
  "map_option (map_prod (map_option (map_sum (\<lambda>e. e) (\<lambda>_. ()))) (\<lambda>s. s)) (task_get c (bool_state s))
     = map_option (map_prod (\<lambda>r. r) bool_state) (task_get_void c s)"
  by (auto simp: task_get_def task_get_void_def bool_state_def bool_frame_def fun_eq_iff map_sum_def
      split: option.splits sum.splits intro!: option.map_cong)

interpretation vt: system_refinement task_step_void new_void_tasks task_step new_tasks bool_state
proof
  show "bool_state new_void_tasks = new_tasks" by (simp add: bool_state_def new_void_tasks_def new_tasks_def fun_eq_iff)
  show "bool_state s' = bool_state s \<or> (\<exists>k. task_step k (bool_state s) = Some (bool_state s'))"
    if "task_step_void l s = Some s'" for l s s'
    using void_step_bool [of l s] that by auto
qed

lemma void_run_bool:
  "run_labels task_step (map (map_task_label (\<lambda>_. True)) ls) (bool_state s) = map_option bool_state (run_labels task_step_void ls s)"
proof (induction ls arbitrary: s)
  case (Cons l ls)
  show ?case using Cons.IH by (cases "task_step_void l s") (simp_all add: void_step_bool)
qed simp

lemma schedule_bool: "map (map_task_label (\<lambda>_. True)) (schedule h b) = schedule h (map_task_body (\<lambda>_. True) b)"
proof -
  have "suspensions (map_task_body (\<lambda>_. True) b) = suspensions b" by (induction b) simp_all
  then show ?thesis by (simp add: schedule_def map_concat)
qed

text \<open>A task of \<open>void\<close> that has been run to its end returns from \<open>get\<close>, or throws what its body threw.\<close>

lemma void_task_delivers:
  assumes "void_queue s = [h]" "void_frames s h = Some \<lparr>void_remaining = Some b, ready = None, void_retrieved = False\<rparr>"
  shows "\<exists>s1. run_labels task_step_void (schedule h b) s = Some s1 \<and> map_option fst (task_get_void (Some h) s1) = Some (Some (final_result b))"
proof -
  let ?b = "map_task_body (\<lambda>_. True) b"
  have "sched_queue (bool_state s) = [h]"
    "task_frames (bool_state s) h = Some \<lparr>remaining = Some ?b, outcome = None, retrieved = False\<rparr>"
    using assms by (simp_all add: bool_state_def bool_frame_def)
  note r = schedule_runs [OF this, folded schedule_bool, unfolded void_run_bool]
  then obtain s1 where s1: "run_labels task_step_void (schedule h b) s = Some s1" by fastforce
  have f: "task_frames (bool_state s1) h = Some \<lparr>remaining = None, outcome = Some (final_result ?b), retrieved = False\<rparr>"
    using r s1 by simp
  have "map_sum (\<lambda>e. e) (\<lambda>_. ()) (final_result ?b) = final_result b"
    by (induction b) (auto simp: map_sum_def split: sum.splits)
  then have "map_option fst (task_get_void (Some h) s1) = Some (Some (final_result b))"
    using arg_cong [OF void_get_bool [of "Some h" s1], of "map_option fst"] f by (simp add: task_get_def option.map_comp comp_def)
  with s1 show ?thesis by blast
qed

subsection \<open>Properties\<close>

text \<open>
  C29: once the worker has run a task as often as it suspends and once more, \<open>get\<close> returns the value that the
  body returned, or throws what the body threw, for every body; before that it is not ready. The second
  \<open>get\<close>, also through a copy of the task, throws that the future was already retrieved.
\<close>

theorem task_delivers:
  assumes "task_vars s v = None" and "task_frames s h = None" and "sched_queue s = []"
  shows "\<exists>s1 s2 s3. task_step (CallTask v h b) s = Some s1
    \<and> map_option fst (task_get (Some h) s1) = Some None
    \<and> run_labels task_step (schedule h b) s1 = Some s2
    \<and> task_get (Some h) s2 = Some (Some (final_result b), s3)
    \<and> map_option fst (task_get (Some h) s3) = Some (Some (Inl (FutureError ''Future already retrieved'')))
    \<and> task_misused s3 = task_misused s"
proof -
  let ?s1 = "get_return_object v h b s"
  have s1: "sched_queue ?s1 = [h]" "task_frames ?s1 h = Some \<lparr>remaining = Some b, outcome = None, retrieved = False\<rparr>"
    using assms(3) by (simp_all add: get_return_object_def)
  show ?thesis
    using assms schedule_runs [OF s1] by (simp add: task_get_def) (simp add: get_return_object_def)
qed

theorem task_delivers_witness:
  "\<exists>s2 s3. run_labels task_step ([CallTask 0 8 (Suspends (Finishes (Inr 7)))] @ schedule 8 (Suspends (Finishes (Inr 7)))) new_tasks = Some s2
    \<and> task_get (Some 8) s2 = Some (Some (Inr (7 :: nat)), s3)"
proof -
  have "task_vars (new_tasks :: nat task_state) 0 = None" "task_frames (new_tasks :: nat task_state) 8 = None"
    "sched_queue (new_tasks :: nat task_state) = []" by (simp_all add: new_tasks_def)
  from task_delivers [OF this, of "Suspends (Finishes (Inr 7))"] show ?thesis by (auto split: if_splits)
qed

text \<open>
  A task that is destroyed before the scheduler has run its coroutine leaves the handle in the queue,
  and the worker resumes a destroyed frame; and since tasks are copied like plain handles, a copied task
  destroys its frame twice. This is so for every body.
\<close>

lemma task_handle_dangles:
  "(\<exists>s. run_labels task_step [CallTask 0 h b, DestroyTask 0, Worker] new_tasks = Some s \<and> task_misused s)
   \<and> (\<exists>s. run_labels task_step [CallTask 0 h b, CopyTask 1 0, DestroyTask 0, DestroyTask 1] new_tasks = Some s \<and> task_misused s)"
  by (simp add: new_tasks_def get_return_object_def task_destroy_def worker_resume_def)

end
