(* ===== verification/Scheduler.thy ===== *)
theory Scheduler
  imports Transition
begin

text \<open>
  The coroutine scheduler of \<open>include/coro/Scheduler.hpp\<close> as a transition system, in the same style as
  the thread pool: workers, callers of \<open>add_coroutine\<close> and the thread that stops the scheduler
  interleave, and every access to an atomic outside a critical section is a step of its own. Two
  adjacent reads of one condition are one step: while there are workers \<open>running_\<close> only changes from true
  to false, and each outcome of the two reads is the outcome at one of the two moments.

  The number of workers, \<open>std::thread::hardware_concurrency()\<close>, is an argument. Callers between two
  steps of \<open>add_coroutine\<close> are counted: those that passed the assertion, those that have still to read
  \<open>waiting_threads_\<close>, those that have still to notify, and those that have still to count the coroutine.
  A field records the coroutines in the order in which they were added, another those taken. Two more
  record which workers the last start made and whether no caller was inside \<open>add_coroutine\<close> when the
  scheduler was told to stop.
\<close>

subsection \<open>State\<close>

datatype spc =
    Top | Entering | Testing | Sleeping | Asleep | Roused | Leaving | Fetching | Resuming nat | Gone

datatype stopper = Working | Signalling | JoiningAll | Stopped

record scheduler =
  corotines :: "nat list"
  task_num :: int
  waiting_threads :: int
  running :: bool
  holder :: "nat option"
  pcs :: "nat \<Rightarrow> spc"
  workers :: nat
  stopping :: stopper
  asserted :: nat
  to_read :: nat
  to_notify :: nat
  to_count :: nat
  offered :: "nat list"
  fetched :: "nat list"
  first_worker :: nat
  calm :: bool

definition new_Scheduler :: scheduler where
  "new_Scheduler = \<lparr>corotines = [], task_num = 0, waiting_threads = 0, running = False, holder = None,
     pcs = (\<lambda>_. Gone), workers = 0, stopping = Stopped, asserted = 0, to_read = 0, to_notify = 0, to_count = 0,
     offered = [], fetched = [], first_worker = 0, calm = False\<rparr>"

definition no_callers :: "scheduler \<Rightarrow> bool" where
  "no_callers s \<longleftrightarrow> asserted s = 0 \<and> to_read s = 0 \<and> to_notify s = 0 \<and> to_count s = 0"

text \<open>
  \<open>run\<close> starts \<open>n\<close> further workers. The thread that calls it is the one that calls \<open>stop\<close>, so that it is not in the
  middle of stopping. A worker that has been created and has not begun is at its loop.
\<close>

definition run_workers :: "nat \<Rightarrow> scheduler \<Rightarrow> scheduler option" where
  "run_workers n s =
     (if stopping s = Working \<or> stopping s = Stopped
      then Some (s\<lparr>running := True, pcs := (\<lambda>i. if workers s \<le> i \<and> i < workers s + n then Top else pcs s i),
                   workers := workers s + n, stopping := Working,
                   first_worker := (if stopping s = Stopped then workers s else first_worker s)\<rparr>)
      else None)"

text \<open>The instance is made and started by the first call of \<open>get_instance\<close>.\<close>

definition get_instance :: "nat \<Rightarrow> scheduler" where
  "get_instance n = the (run_workers n new_Scheduler)"

definition goto :: "nat \<Rightarrow> spc \<Rightarrow> scheduler \<Rightarrow> scheduler" where
  "goto i p s = s\<lparr>pcs := (pcs s)(i := p)\<rparr>"

subsection \<open>Steps of a worker\<close>

definition loop_test :: "nat \<Rightarrow> scheduler \<Rightarrow> scheduler option" where
  "loop_test i s =
     (if pcs s i = Top then Some (goto i (if running s \<or> 0 < task_num s then Entering else Gone) s) else None)"

definition enter :: "nat \<Rightarrow> scheduler \<Rightarrow> scheduler option" where
  "enter i s =
     (if pcs s i = Entering \<and> holder s = None then Some ((goto i Testing s)\<lparr>holder := Some i\<rparr>) else None)"

definition wait_test :: "nat \<Rightarrow> scheduler \<Rightarrow> scheduler option" where
  "wait_test i s =
     (if pcs s i = Testing
      then Some (if task_num s = 0 \<and> running s
                 then (goto i Sleeping s)\<lparr>waiting_threads := waiting_threads s + 1\<rparr>
                 else goto i Leaving s)
      else None)"

definition fall_asleep :: "nat \<Rightarrow> scheduler \<Rightarrow> scheduler option" where
  "fall_asleep i s = (if pcs s i = Sleeping then Some ((goto i Asleep s)\<lparr>holder := None\<rparr>) else None)"

definition spurious :: "nat \<Rightarrow> scheduler \<Rightarrow> scheduler option" where
  "spurious i s = (if pcs s i = Asleep then Some (goto i Roused s) else None)"

definition wake_up :: "nat \<Rightarrow> scheduler \<Rightarrow> scheduler option" where
  "wake_up i s =
     (if pcs s i = Roused \<and> holder s = None
      then Some ((goto i Testing s)\<lparr>holder := Some i, waiting_threads := waiting_threads s - 1\<rparr>) else None)"

definition exit_test :: "nat \<Rightarrow> scheduler \<Rightarrow> scheduler option" where
  "exit_test i s =
     (if pcs s i = Leaving
      then Some (if task_num s = 0 \<and> \<not> running s then (goto i Gone s)\<lparr>holder := None\<rparr> else goto i Fetching s)
      else None)"

text \<open>The assertion that the queue is not empty is the case without a result.\<close>

definition fetch :: "nat \<Rightarrow> scheduler \<Rightarrow> scheduler option" where
  "fetch i s =
     (if pcs s i = Fetching
      then (case corotines s of
          [] \<Rightarrow> None
        | c # q \<Rightarrow> Some ((goto i (Resuming c) s)\<lparr>corotines := q, task_num := task_num s - 1, holder := None,
                            fetched := fetched s @ [c]\<rparr>))
      else None)"

definition resumed :: "nat \<Rightarrow> scheduler \<Rightarrow> scheduler option" where
  "resumed i s = (case pcs s i of Resuming c \<Rightarrow> Some (goto i Top s) | _ \<Rightarrow> None)"

subsection \<open>Steps of \<open>add_coroutine\<close> and \<open>stop\<close>\<close>

definition add_assert :: "scheduler \<Rightarrow> scheduler option" where
  "add_assert s = (if running s then Some (s\<lparr>asserted := asserted s + 1\<rparr>) else None)"

definition add_enqueue :: "nat \<Rightarrow> scheduler \<Rightarrow> scheduler option" where
  "add_enqueue c s =
     (if 0 < asserted s \<and> holder s = None
      then Some (s\<lparr>asserted := asserted s - 1, corotines := corotines s @ [c], offered := offered s @ [c],
                   to_read := to_read s + 1\<rparr>) else None)"

definition add_read :: "scheduler \<Rightarrow> scheduler option" where
  "add_read s =
     (if 0 < to_read s
      then Some (if 0 < waiting_threads s then s\<lparr>to_read := to_read s - 1, to_notify := to_notify s + 1\<rparr>
                 else s\<lparr>to_read := to_read s - 1, to_count := to_count s + 1\<rparr>) else None)"

definition add_notify :: "nat option \<Rightarrow> scheduler \<Rightarrow> scheduler option" where
  "add_notify w s =
     (if 0 < to_notify s
      then (let s1 = s\<lparr>to_notify := to_notify s - 1, to_count := to_count s + 1\<rparr> in
            case w of
              Some i \<Rightarrow> if pcs s i = Asleep then Some (goto i Roused s1) else None
            | None \<Rightarrow> if list_all (\<lambda>i. pcs s i \<noteq> Asleep) [0..<workers s] then Some s1 else None)
      else None)"

definition add_count :: "scheduler \<Rightarrow> scheduler option" where
  "add_count s =
     (if 0 < to_count s then Some (s\<lparr>to_count := to_count s - 1, task_num := task_num s + 1\<rparr>) else None)"

definition stop_flag :: "scheduler \<Rightarrow> scheduler option" where
  "stop_flag s =
     (if stopping s = Working \<or> stopping s = Stopped
      then Some (s\<lparr>running := False, stopping := Signalling, calm := (no_callers s \<and> (stopping s = Working \<or> calm s))\<rparr>)
      else None)"

definition stop_notify :: "scheduler \<Rightarrow> scheduler option" where
  "stop_notify s =
     (if stopping s = Signalling
      then Some (s\<lparr>pcs := (\<lambda>i. if pcs s i = Asleep then Roused else pcs s i), stopping := JoiningAll\<rparr>) else None)"

definition join_workers :: "scheduler \<Rightarrow> scheduler option" where
  "join_workers s =
     (if stopping s = JoiningAll \<and> list_all (\<lambda>i. pcs s i = Gone) [0..<workers s]
      then Some (s\<lparr>stopping := Stopped\<rparr>) else None)"

text \<open>The assertion at the end of \<open>stop\<close>.\<close>

definition stop_assertion :: "scheduler \<Rightarrow> bool" where
  "stop_assertion s \<longleftrightarrow> task_num s = 0"

datatype sched_label =
    LoopTest nat | Enter nat | WaitTest nat | FallAsleep nat | Spurious nat | WakeUp nat | ExitTest nat
  | Fetch nat | Resumed nat | AddAssert | AddPush nat | AddRead | AddNotify "nat option" | AddCount
  | StopFlag | StopNotify | StopJoin | Run nat

fun sched_step :: "sched_label \<Rightarrow> scheduler \<Rightarrow> scheduler option" where
  "sched_step (LoopTest i) s = loop_test i s"
| "sched_step (Enter i) s = enter i s"
| "sched_step (WaitTest i) s = wait_test i s"
| "sched_step (FallAsleep i) s = fall_asleep i s"
| "sched_step (Spurious i) s = spurious i s"
| "sched_step (WakeUp i) s = wake_up i s"
| "sched_step (ExitTest i) s = exit_test i s"
| "sched_step (Fetch i) s = fetch i s"
| "sched_step (Resumed i) s = resumed i s"
| "sched_step AddAssert s = add_assert s"
| "sched_step (AddPush c) s = add_enqueue c s"
| "sched_step AddRead s = add_read s"
| "sched_step (AddNotify w) s = add_notify w s"
| "sched_step AddCount s = add_count s"
| "sched_step StopFlag s = stop_flag s"
| "sched_step StopNotify s = stop_notify s"
| "sched_step StopJoin s = join_workers s"
| "sched_step (Run n) s = run_workers n s"

lemmas sched_defs = goto_def loop_test_def enter_def wait_test_def fall_asleep_def spurious_def wake_up_def
  exit_test_def fetch_def resumed_def add_assert_def add_enqueue_def add_read_def add_notify_def add_count_def
  stop_flag_def stop_notify_def join_workers_def run_workers_def Let_def

subsection \<open>Invariants\<close>

fun locked :: "spc \<Rightarrow> bool" where
  "locked Testing = True" | "locked Sleeping = True" | "locked Leaving = True" | "locked Fetching = True"
| "locked _ = False"

definition lock_inv :: "scheduler \<Rightarrow> bool" where
  "lock_inv s \<longleftrightarrow> (\<forall>i. locked (pcs s i) \<longleftrightarrow> holder s = Some i)"

text \<open>There are no workers beyond the number of them and after a stop; before a stop the scheduler is running.\<close>

definition phase_inv :: "scheduler \<Rightarrow> bool" where
  "phase_inv s \<longleftrightarrow> (\<forall>i \<ge> workers s. pcs s i = Gone) \<and> (stopping s = Stopped \<longrightarrow> (\<forall>i. pcs s i = Gone))
     \<and> (running s \<longleftrightarrow> stopping s = Working)"

lemma phase_worker:
  assumes "phase_inv s" "workers s' = workers s" "stopping s' = stopping s" "running s' = running s"
    "pcs s' = (pcs s)(i := p)" "pcs s i \<noteq> Gone"
  shows "phase_inv s'"
proof -
  have "i < workers s" "stopping s \<noteq> Stopped" using assms(1,6) by (auto simp: phase_inv_def not_le [symmetric])
  with assms(1-5) show ?thesis by (auto simp: phase_inv_def)
qed

lemma phase_worker_step:
  assumes "phase_inv s" "sched_step l s = Some s'"
    and "l \<in> {LoopTest i, Enter i, WaitTest i, FallAsleep i, Spurious i, WakeUp i, ExitTest i, Fetch i, Resumed i}"
  shows "phase_inv s'"
  using assms(2,3)
  by (intro phase_worker [OF assms(1), of s' i "pcs s' i"]) (auto simp: sched_defs split: if_splits list.splits spc.splits)

lemma phase_step:
  assumes "phase_inv s" "sched_step l s = Some s'"
  shows "phase_inv s'"
proof (cases l)
  case (AddNotify w)
  then show ?thesis
  proof (cases w)
    case (Some i)
    with AddNotify assms show ?thesis
      by (intro phase_worker [of s s' i Roused]) (auto simp: sched_defs split: if_splits)
  next
    case None
    with AddNotify assms show ?thesis by (auto simp: sched_defs phase_inv_def split: if_splits)
  qed
next
  case StopJoin
  with assms show ?thesis by (force simp: sched_defs phase_inv_def list_all_iff split: if_splits)
next
  case AddAssert
  with assms show ?thesis by (auto simp: add_assert_def phase_inv_def split: if_splits)
next
  case (AddPush c)
  with assms show ?thesis by (auto simp: add_enqueue_def phase_inv_def split: if_splits)
next
  case AddRead
  with assms show ?thesis by (auto simp: add_read_def phase_inv_def split: if_splits)
next
  case AddCount
  with assms show ?thesis by (auto simp: add_count_def phase_inv_def split: if_splits)
next
  case StopFlag
  with assms show ?thesis by (auto simp: stop_flag_def phase_inv_def split: if_splits)
next
  case StopNotify
  with assms show ?thesis by (auto simp: stop_notify_def phase_inv_def split: if_splits)
next
  case (Run n)
  with assms show ?thesis by (auto simp: run_workers_def phase_inv_def split: if_splits)
qed (use phase_worker_step [OF assms] in simp_all)

inductive spc_move :: "scheduler \<Rightarrow> scheduler \<Rightarrow> bool" where
  one: "pcs s' = (pcs s)(i := p) \<Longrightarrow>
        holder s' = (if locked p then (if locked (pcs s i) then holder s else Some i)
                     else if locked (pcs s i) then None else holder s) \<Longrightarrow>
        (locked p \<Longrightarrow> \<not> locked (pcs s i) \<Longrightarrow> holder s = None) \<Longrightarrow> spc_move s s'"
| all: "pcs s' = (\<lambda>i. if pcs s i = Asleep then Roused else pcs s i) \<Longrightarrow> holder s' = holder s \<Longrightarrow> spc_move s s'"
| new: "pcs s' = (\<lambda>i. if A i then Top else pcs s i) \<Longrightarrow> holder s' = holder s \<Longrightarrow> (\<And>i. A i \<Longrightarrow> pcs s i = Gone) \<Longrightarrow> spc_move s s'"
| none: "pcs s' = pcs s \<Longrightarrow> holder s' = holder s \<Longrightarrow> spc_move s s'"

lemma lock_move: "spc_move s s' \<Longrightarrow> lock_inv s \<Longrightarrow> lock_inv s'"
proof (induction rule: spc_move.induct)
  case (one s' s i p)
  have "locked (pcs s j) \<longleftrightarrow> holder s = Some j" for j using one.prems by (simp add: lock_inv_def)
  from lock_update [of locked, OF this one(2,3)]
  have "locked (pcs s' j) \<longleftrightarrow> holder s' = Some j" for j unfolding one(1) by blast
  then show ?case by (simp add: lock_inv_def)
next
  case (all s' s)
  then have "locked (pcs s' j) \<longleftrightarrow> locked (pcs s j)" for j by simp
  with all show ?case by (simp add: lock_inv_def)
next
  case (new s' A s)
  then have "locked (pcs s' j) \<longleftrightarrow> locked (pcs s j)" for j by simp
  with new show ?case by (simp add: lock_inv_def)
qed (simp add: lock_inv_def)

text \<open>Each step of a worker moves this worker and nobody else.\<close>

lemma loop_test_move: "loop_test i s = Some s' \<Longrightarrow> spc_move s s'"
  by (rule spc_move.one [where i = i and p = "if running s \<or> 0 < task_num s then Entering else Gone"])
     (auto simp: loop_test_def goto_def split: if_splits)

lemma enter_move: "enter i s = Some s' \<Longrightarrow> spc_move s s'"
  by (rule spc_move.one [where i = i and p = "Testing"])
     (auto simp: enter_def goto_def split: if_splits)

lemma wait_test_move: "wait_test i s = Some s' \<Longrightarrow> spc_move s s'"
  by (rule spc_move.one [where i = i and p = "if task_num s = 0 \<and> running s then Sleeping else Leaving"])
     (auto simp: wait_test_def goto_def split: if_splits)

lemma fall_asleep_move: "fall_asleep i s = Some s' \<Longrightarrow> spc_move s s'"
  by (rule spc_move.one [where i = i and p = "Asleep"])
     (auto simp: fall_asleep_def goto_def split: if_splits)

lemma spurious_move: "spurious i s = Some s' \<Longrightarrow> spc_move s s'"
  by (rule spc_move.one [where i = i and p = "Roused"])
     (auto simp: spurious_def goto_def split: if_splits)

lemma wake_up_move: "wake_up i s = Some s' \<Longrightarrow> spc_move s s'"
  by (rule spc_move.one [where i = i and p = "Testing"])
     (auto simp: wake_up_def goto_def split: if_splits)

lemma exit_test_move: "exit_test i s = Some s' \<Longrightarrow> spc_move s s'"
  by (rule spc_move.one [where i = i and p = "if task_num s = 0 \<and> \<not> running s then Gone else Fetching"])
     (auto simp: exit_test_def goto_def split: if_splits)

lemma fetch_move: "fetch i s = Some s' \<Longrightarrow> spc_move s s'"
  by (rule spc_move.one [where i = i and p = "Resuming (hd (corotines s))"])
     (auto simp: fetch_def goto_def split: if_splits list.splits)

lemma resumed_move: "resumed i s = Some s' \<Longrightarrow> spc_move s s'"
  by (rule spc_move.one [where i = i and p = "Top"])
     (auto simp: resumed_def goto_def split: if_splits spc.splits)

lemmas worker_spc_move = loop_test_move enter_move wait_test_move fall_asleep_move spurious_move wake_up_move exit_test_move fetch_move resumed_move

lemma step_spc_move:
  assumes "sched_step l s = Some s'" "phase_inv s"
  shows "spc_move s s'"
proof (cases l)
  case (AddNotify w)
  show ?thesis
  proof (cases w)
    case (Some i)
    with AddNotify assms show ?thesis
      by (intro spc_move.one [where i = i and p = Roused]) (auto simp: sched_defs split: if_splits)
  next
    case None
    with AddNotify assms show ?thesis by (intro spc_move.none) (auto simp: sched_defs split: if_splits)
  qed
next
  case StopNotify
  with assms show ?thesis by (intro spc_move.all) (auto simp: sched_defs split: if_splits)
next
  case (Run n)
  with assms show ?thesis
    by (intro spc_move.new [where A = "\<lambda>i. workers s \<le> i \<and> i < workers s + n"])
      (auto simp: sched_defs phase_inv_def split: if_splits)
qed (use assms(1) in \<open>auto simp: add_assert_def add_enqueue_def add_read_def add_count_def stop_flag_def join_workers_def
      split: if_splits intro: worker_spc_move spc_move.none\<close>)

text \<open>The queue holds the counted coroutines and those whose callers have not counted them yet.\<close>

definition tasks_inv :: "scheduler \<Rightarrow> bool" where
  "tasks_inv s \<longleftrightarrow> int (length (corotines s)) = task_num s + int (to_read s + to_notify s + to_count s)
     \<and> 0 \<le> task_num s \<and> offered s = fetched s @ corotines s
     \<and> (\<forall>i. pcs s i = Leaving \<longrightarrow> 0 < task_num s \<or> \<not> running s)
     \<and> (\<forall>i. pcs s i = Fetching \<longrightarrow> 0 < task_num s)"

lemma locked_unique: "lock_inv s \<Longrightarrow> locked (pcs s i) \<Longrightarrow> locked (pcs s j) \<Longrightarrow> i = j"
  by (metis lock_inv_def option.inject)

lemma fetch_tasks:
  assumes "lock_inv s" "tasks_inv s" "fetch i s = Some s'"
  shows "tasks_inv s'"
proof -
  obtain c q where q: "corotines s = c # q" and i: "pcs s i = Fetching"
    and s': "s' = (goto i (Resuming c) s)\<lparr>corotines := q, task_num := task_num s - 1, holder := None, fetched := fetched s @ [c]\<rparr>"
    using assms(3) by (auto simp: fetch_def split: if_splits list.splits)
  have "pcs s j \<noteq> Leaving \<and> pcs s j \<noteq> Fetching" if "j \<noteq> i" for j
    using locked_unique [OF assms(1), of i j] i that by auto
  moreover have "0 < task_num s" using assms(2) i by (auto simp: tasks_inv_def)
  ultimately show ?thesis using assms(2) q by (auto simp: tasks_inv_def s' goto_def)
qed

lemma tasks_frame:
  assumes "tasks_inv s" "corotines s' = corotines s" "offered s' = offered s" "fetched s' = fetched s"
    "task_num s' = task_num s" "to_read s' + to_notify s' + to_count s' = to_read s + to_notify s + to_count s"
    "running s' \<Longrightarrow> running s"
    "\<And>i. pcs s' i = Leaving \<Longrightarrow> pcs s i = Leaving \<or> 0 < task_num s \<or> \<not> running s"
    "\<And>i. pcs s' i = Fetching \<Longrightarrow> pcs s i = Fetching \<or> 0 < task_num s"
  shows "tasks_inv s'"
proof -
  have "0 < task_num s' \<or> \<not> running s'" if "pcs s' i = Leaving" for i
    using assms(1,5,7) assms(8) [OF that] unfolding tasks_inv_def by auto
  moreover have "0 < task_num s'" if "pcs s' i = Fetching" for i
    using assms(1,5) assms(9) [OF that] unfolding tasks_inv_def by auto
  ultimately show ?thesis using assms(1-6) unfolding tasks_inv_def by simp
qed

lemma tasks_worker:
  assumes "tasks_inv s"
    and "sched_step l s = Some s'"
    and "l \<in> {LoopTest i, Enter i, WaitTest i, FallAsleep i, Spurious i, WakeUp i, ExitTest i, Resumed i}"
  shows "tasks_inv s'"
proof -
  have "0 \<le> task_num s" "pcs s i = Leaving \<Longrightarrow> 0 < task_num s \<or> \<not> running s" using assms(1) by (auto simp: tasks_inv_def)
  then show ?thesis
    using assms(2,3) by (intro tasks_frame [OF assms(1)]) (auto simp: sched_defs split: if_splits spc.splits)
qed

lemma tasks_step:
  assumes "lock_inv s" "tasks_inv s" "sched_step l s = Some s'" "phase_inv s"
  shows "tasks_inv s'"
proof (cases l)
  case (Run n)
  then have st: "stopping s = Working \<or> stopping s = Stopped"
    and s': "s' = s\<lparr>running := True, pcs := (\<lambda>i. if workers s \<le> i \<and> i < workers s + n then Top else pcs s i),
      workers := workers s + n, stopping := Working, first_worker := (if stopping s = Stopped then workers s else first_worker s)\<rparr>"
    using assms(3) by (auto simp: run_workers_def split: if_splits)
  have "running s \<or> (\<forall>i. pcs s i = Gone)" using st assms(4) by (auto simp: phase_inv_def)
  then show ?thesis using assms(2) by (auto simp: tasks_inv_def s' split: if_splits)
next
  case (Fetch i)
  with assms(3) show ?thesis by (auto intro: fetch_tasks [OF assms(1,2)])
next
  case (AddPush c)
  with assms(2,3) show ?thesis by (auto simp: add_enqueue_def tasks_inv_def split: if_splits)
next
  case AddCount
  with assms(2,3) show ?thesis by (auto simp: add_count_def tasks_inv_def split: if_splits)
next
  case AddAssert
  with assms(3) show ?thesis by (intro tasks_frame [OF assms(2)]) (auto simp: sched_defs split: if_splits)
next
  case AddRead
  with assms(3) show ?thesis by (intro tasks_frame [OF assms(2)]) (auto simp: sched_defs split: if_splits)
next
  case (AddNotify w)
  with assms(3) show ?thesis
    by (intro tasks_frame [OF assms(2)]; cases w) (auto simp: sched_defs split: if_splits)
next
  case StopFlag
  with assms(3) show ?thesis by (intro tasks_frame [OF assms(2)]) (auto simp: sched_defs split: if_splits)
next
  case StopNotify
  with assms(3) show ?thesis by (intro tasks_frame [OF assms(2)]) (auto simp: sched_defs split: if_splits)
next
  case StopJoin
  with assms(3) show ?thesis by (intro tasks_frame [OF assms(2)]) (auto simp: sched_defs split: if_splits)
qed (use tasks_worker [OF assms(2,3)] in simp_all)

text \<open>
  If no caller was under way when the scheduler was told to stop, none comes after it, and a worker leaves only
  when there is nothing left to take.
\<close>

definition leave_inv :: "scheduler \<Rightarrow> bool" where
  "leave_inv s \<longleftrightarrow> (\<forall>i \<ge> first_worker s. i < workers s \<longrightarrow> pcs s i = Gone \<longrightarrow>
       stopping s \<noteq> Working \<and> (calm s \<longrightarrow> task_num s = 0))
     \<and> (stopping s \<noteq> Working \<longrightarrow> calm s \<longrightarrow> no_callers s)"

lemma leave_frame:
  assumes "leave_inv s" "first_worker s' = first_worker s" "workers s' = workers s" "task_num s' = task_num s"
    "stopping s' = stopping s" "calm s' = calm s" "no_callers s \<Longrightarrow> no_callers s'"
    "\<And>i. pcs s' i = Gone \<Longrightarrow> pcs s i = Gone \<or> (stopping s \<noteq> Working \<and> task_num s = 0)"
  shows "leave_inv s'"
  using assms(1,7) assms(8) unfolding leave_inv_def assms(2-6) by blast

lemma leave_worker:
  assumes "leave_inv s" "tasks_inv s" "phase_inv s" "sched_step l s = Some s'"
    and "l \<in> {LoopTest i, Enter i, WaitTest i, FallAsleep i, Spurious i, WakeUp i, ExitTest i, Resumed i}"
  shows "leave_inv s'"
proof -
  have "0 \<le> task_num s" "\<not> running s \<Longrightarrow> stopping s \<noteq> Working" using assms(2,3) by (auto simp: tasks_inv_def phase_inv_def)
  then show ?thesis
    using assms(4,5) by (intro leave_frame [OF assms(1)]) (auto simp: sched_defs no_callers_def split: if_splits spc.splits)
qed

lemma leave_fetch:
  assumes "leave_inv s" "tasks_inv s" "fetch i s = Some s'"
  shows "leave_inv s'"
proof -
  obtain c q where i: "pcs s i = Fetching"
    and s': "s' = (goto i (Resuming c) s)\<lparr>corotines := q, task_num := task_num s - 1, holder := None, fetched := fetched s @ [c]\<rparr>"
    using assms(3) by (auto simp: fetch_def split: if_splits list.splits)
  have "0 < task_num s" using assms(2) i by (auto simp: tasks_inv_def)
  with assms(1) show ?thesis by (auto simp: leave_inv_def no_callers_def s' goto_def)
qed

lemma leave_step:
  assumes "leave_inv s" "tasks_inv s" "phase_inv s" "sched_step l s = Some s'"
  shows "leave_inv s'"
proof (cases l)
  case (Fetch i)
  with assms(4) show ?thesis by (auto intro: leave_fetch [OF assms(1,2)])
next
  case AddAssert
  with assms show ?thesis by (auto simp: add_assert_def leave_inv_def phase_inv_def split: if_splits)
next
  case (AddPush c)
  with assms(1,4) show ?thesis by (auto simp: add_enqueue_def leave_inv_def no_callers_def split: if_splits)
next
  case AddRead
  with assms(1,4) show ?thesis by (auto simp: add_read_def leave_inv_def no_callers_def split: if_splits)
next
  case (AddNotify w)
  with assms(4) show ?thesis
    by (intro leave_frame [OF assms(1)]; cases w) (auto simp: sched_defs no_callers_def split: if_splits)
next
  case AddCount
  with assms(1,4) show ?thesis by (auto simp: add_count_def leave_inv_def no_callers_def split: if_splits)
next
  case StopFlag
  with assms(1,4) show ?thesis by (auto simp: stop_flag_def leave_inv_def no_callers_def split: if_splits)
next
  case StopNotify
  with assms(1,4) show ?thesis by (auto simp: stop_notify_def leave_inv_def no_callers_def split: if_splits)
next
  case StopJoin
  with assms(1,4) show ?thesis by (auto simp: join_workers_def leave_inv_def no_callers_def split: if_splits)
next
  case (Run n)
  with assms(1,4) show ?thesis by (auto simp: run_workers_def leave_inv_def no_callers_def split: if_splits)
qed (use leave_worker [OF assms] in simp_all)

definition sched_inv :: "scheduler \<Rightarrow> bool" where
  "sched_inv s \<longleftrightarrow> lock_inv s \<and> tasks_inv s \<and> phase_inv s \<and> leave_inv s"

interpretation sc: system_invariant sched_step "get_instance n" sched_inv
proof
  show "sched_inv (get_instance n)"
    by (simp add: sched_inv_def lock_inv_def tasks_inv_def phase_inv_def leave_inv_def get_instance_def run_workers_def new_Scheduler_def)
next
  fix s l s'
  assume "sched_inv s" "sched_step l s = Some s'"
  then show "sched_inv s'" unfolding sched_inv_def using lock_move step_spc_move tasks_step phase_step leave_step by blast
qed

abbreviation reachable_sched :: "nat \<Rightarrow> scheduler \<Rightarrow> bool" where
  "reachable_sched n \<equiv> reach sched_step (get_instance n)"

lemma sched_run:
  assumes "case run_labels sched_step ls (get_instance n) of None \<Rightarrow> False | Some s \<Rightarrow> P s"
  shows "\<exists>s. reachable_sched n s \<and> P s"
  using assms reach_run by (fastforce split: option.splits)

subsection \<open>Properties\<close>

text \<open>
  C34: The assertion in the worker holds: whenever a worker comes to take a coroutine the queue is not
  empty, and coroutines are taken in the order in which they were added, each once.
\<close>

theorem scheduler_takes_in_order:
  assumes "reachable_sched n s"
  shows "offered s = fetched s @ corotines s \<and> (\<forall>i. pcs s i = Fetching \<longrightarrow> (\<exists>s'. fetch i s = Some s'))"
proof -
  have inv: "tasks_inv s" using sc.always [OF assms] by (simp add: sched_inv_def)
  have "\<exists>s'. fetch i s = Some s'" if "pcs s i = Fetching" for i
  proof -
    have "0 < task_num s" using inv that by (auto simp: tasks_inv_def)
    then have "corotines s \<noteq> []" using inv by (auto simp: tasks_inv_def)
    with that show ?thesis by (auto simp: fetch_def neq_Nil_conv)
  qed
  with inv show ?thesis by (simp add: tasks_inv_def)
qed

theorem scheduler_takes_in_order_witness:
  "\<exists>s. reachable_sched 2 s \<and> pcs s 1 = Fetching \<and> corotines s = [5, 6]
     \<and> offered s = fetched s @ corotines s \<and> (\<forall>i. pcs s i = Fetching \<longrightarrow> (\<exists>s'. fetch i s = Some s'))"
proof -
  have "\<exists>s. reachable_sched 2 s \<and> pcs s 1 = Fetching \<and> corotines s = [5, 6]"
    by (rule sched_run [where ls = "[AddAssert, AddAssert, AddPush 5, AddRead, AddCount, AddPush 6, LoopTest 1, Enter 1,
          WaitTest 1, ExitTest 1]"]) code_simp
  then show ?thesis using scheduler_takes_in_order by blast
qed

text \<open>
  C35: \<open>stop\<close> loses nothing: if there is a worker and no caller is inside \<open>add_coroutine\<close> when the scheduler is told
  to stop, then the assertion at the end of \<open>stop\<close> holds, the queue is empty, and every coroutine that was
  added has been taken. This also holds for a scheduler that was stopped before and started again.
\<close>

theorem scheduler_stop_drains:
  assumes "reachable_sched n s" and "stopping s = Stopped" and "calm s" and "first_worker s < workers s"
  shows "stop_assertion s \<and> corotines s = [] \<and> fetched s = offered s"
proof -
  have inv: "tasks_inv s" "phase_inv s" "leave_inv s" using sc.always [OF assms(1)] by (simp_all add: sched_inv_def)
  have "task_num s = 0" "no_callers s" using inv(2,3) assms(2-4) unfolding leave_inv_def phase_inv_def by auto
  then show ?thesis using inv(1) by (simp add: tasks_inv_def no_callers_def stop_assertion_def)
qed

text \<open>Coroutine 5 is run before the first stop and coroutine 6 after the restart with one more worker.\<close>

definition restart_run :: "sched_label list" where
  "restart_run =
     [AddAssert, AddPush 5, AddRead, AddCount, StopFlag, StopNotify, LoopTest 0, Enter 0, WaitTest 0, ExitTest 0, Fetch 0,
      Resumed 0, LoopTest 0, StopJoin, Run 1, AddAssert, AddPush 6, AddRead, AddCount, LoopTest 1, Enter 1, WaitTest 1,
      ExitTest 1, StopFlag, Fetch 1, Resumed 1, StopNotify, LoopTest 1, StopJoin]"

theorem scheduler_stop_drains_witness:
  "\<exists>s. reachable_sched 1 s \<and> stopping s = Stopped \<and> fetched s = offered s \<and> offered s = [5, 6] \<and> stop_assertion s"
proof -
  have "\<exists>s. reachable_sched 1 s \<and> stopping s = Stopped \<and> calm s \<and> first_worker s < workers s \<and> offered s = [5, 6]"
    by (rule sched_run [where ls = restart_run]) code_simp
  then show ?thesis using scheduler_stop_drains by blast
qed

text \<open>The run in which a worker is notified before the coroutine is counted.\<close>

definition uncounted_run :: "sched_label list" where
  "uncounted_run = [LoopTest 0, Enter 0, WaitTest 0, FallAsleep 0, AddAssert, AddPush 7, AddRead, AddNotify (Some 0),
     WakeUp 0, WaitTest 0, FallAsleep 0, AddCount]"

lemma uncounted_state:
  "\<exists>s. run_labels sched_step uncounted_run (get_instance 1) = Some s \<and> corotines s = [7] \<and> task_num s = 1 \<and> running s
     \<and> pcs s = (\<lambda>_. Gone)(0 := Asleep) \<and> asserted s = 0 \<and> to_read s = 0 \<and> to_notify s = 0 \<and> to_count s = 0
     \<and> stopping s = Working"
  by (simp add: uncounted_run_def sched_defs get_instance_def new_Scheduler_def fun_eq_iff)

lemma asleep_for_good:
  assumes "pcs s = (\<lambda>_. Gone)(0 := Asleep)" "asserted s = 0" "to_read s = 0" "to_notify s = 0" "to_count s = 0"
    "stopping s = Working"
  shows "{l. sched_step l s \<noteq> None} \<subseteq> {AddAssert, StopFlag} \<union> range Spurious \<union> range Run"
proof
  fix l
  assume "l \<in> {l. sched_step l s \<noteq> None}"
  with assms show "l \<in> {AddAssert, StopFlag} \<union> range Spurious \<union> range Run"
    by (cases l) (auto simp: sched_defs split: if_splits)
qed

text \<open>
  C40: \<open>add_coroutine\<close> counts a coroutine only after it has notified, so that the notified worker can find
  a count of zero and go back to sleep. There is a run after which a coroutine is queued and counted,
  the only worker sleeps, no caller is under way, and nothing is enabled but a spurious wake-up, a
  further caller, stopping, and starting more workers.
\<close>

theorem scheduler_can_miss_coroutine:
  "\<exists>s. reachable_sched 1 s \<and> running s \<and> corotines s = [7] \<and> task_num s = 1 \<and> pcs s 0 = Asleep
     \<and> {l. sched_step l s \<noteq> None} \<subseteq> {AddAssert, StopFlag} \<union> range Spurious \<union> range Run"
proof -
  obtain s where s: "run_labels sched_step uncounted_run (get_instance 1) = Some s" "corotines s = [7]"
    "task_num s = 1" "running s" "pcs s = (\<lambda>_. Gone)(0 := Asleep)" "asserted s = 0" "to_read s = 0"
    "to_notify s = 0" "to_count s = 0" "stopping s = Working"
    using uncounted_state by blast
  have "pcs s 0 = Asleep" by (simp add: s(5))
  with s(2-4) reach_run [OF s(1)] asleep_for_good [OF s(5-10)] show ?thesis by blast
qed

text \<open>
  A caller that passed the assertion of \<open>add_coroutine\<close> before the stop can count its coroutine after the
  workers have left; then the assertion at the end of \<open>stop\<close> fails and the coroutine is never resumed.
\<close>

lemma stop_assertion_can_fail:
  "\<exists>s. reachable_sched 1 s \<and> stopping s = Stopped \<and> corotines s = [7] \<and> \<not> stop_assertion s"
  by (rule sched_run [where ls = "[AddAssert, StopFlag, StopNotify, LoopTest 0, StopJoin, AddPush 7, AddRead, AddCount]"])
    code_simp

end
