(* ===== verification/TaskScheduler.thy ===== *)
theory TaskScheduler
  imports Task Scheduler
begin

text \<open>
  The tasks of \<open>include/coro/Task.hpp\<close> on the scheduler of \<open>include/coro/Scheduler.hpp\<close>: \<open>get_return_object\<close> makes
  the frame and calls \<open>add_coroutine\<close>, and the workers of the scheduler resume the frames. The frame
  is made with the step of \<open>add_coroutine\<close> that puts the handle into the queue; nobody else has
  the handle before. The queue in the state of the tasks is the queue of the scheduler.

  A coroutine that has suspended is added again by the object it awaited, once. A task is destroyed only after its
  coroutine has finished; without this the scheduler resumes destroyed frames, as shown for tasks alone. A field
  records the body with which every coroutine was started, and a handle is used once.
\<close>

subsection \<open>State and steps\<close>

record 'a task_sched =
  tasks_of :: "'a task_state"
  sched_of :: scheduler
  bodies :: "nat \<Rightarrow> 'a task_body option"

definition new_task_sched :: "nat \<Rightarrow> 'a task_sched" where
  "new_task_sched n = \<lparr>tasks_of = new_tasks, sched_of = get_instance n, bodies = (\<lambda>_. None)\<rparr>"

definition resuming :: "scheduler \<Rightarrow> nat \<Rightarrow> nat \<Rightarrow> bool" where
  "resuming s i h \<longleftrightarrow> pcs s i = Resuming h"

definition spawn_task :: "nat \<Rightarrow> nat \<Rightarrow> 'a task_body \<Rightarrow> 'a task_sched \<Rightarrow> 'a task_sched option" where
  "spawn_task v h b f =
     (if task_vars (tasks_of f) v = None \<and> bodies f h = None
      then map_option (\<lambda>s. \<lparr>tasks_of = get_return_object v h b (tasks_of f), sched_of = s, bodies = (bodies f)(h \<mapsto> b)\<rparr>)
             (add_enqueue h (sched_of f))
      else None)"

text \<open>The awaited object adds a suspended coroutine, which is neither queued nor running.\<close>

definition suspended :: "nat \<Rightarrow> 'a task_sched \<Rightarrow> bool" where
  "suspended h f \<longleftrightarrow>
     (case task_frames (tasks_of f) h of None \<Rightarrow> False | Some fr \<Rightarrow> remaining fr \<noteq> None)
     \<and> h \<notin> set (corotines (sched_of f)) \<and> list_all (\<lambda>i. \<not> resuming (sched_of f) i h) [0..<workers (sched_of f)]"

definition add_again :: "nat \<Rightarrow> 'a task_sched \<Rightarrow> 'a task_sched option" where
  "add_again h f =
     (if suspended h f
      then map_option (\<lambda>s. f\<lparr>tasks_of := (tasks_of f)\<lparr>sched_queue := sched_queue (tasks_of f) @ [h]\<rparr>, sched_of := s\<rparr>)
             (add_enqueue h (sched_of f))
      else None)"

definition fetch_task :: "nat \<Rightarrow> 'a task_sched \<Rightarrow> 'a task_sched option" where
  "fetch_task i f =
     map_option (\<lambda>s. f\<lparr>tasks_of := (tasks_of f)\<lparr>sched_queue := tl (sched_queue (tasks_of f))\<rparr>, sched_of := s\<rparr>) (fetch i (sched_of f))"

definition resume_task :: "nat \<Rightarrow> 'a task_sched \<Rightarrow> 'a task_sched option" where
  "resume_task i f =
     (case pcs (sched_of f) i of
        Resuming h \<Rightarrow> map_option (\<lambda>s. f\<lparr>tasks_of := worker_resume h (tasks_of f), sched_of := s\<rparr>) (resumed i (sched_of f))
      | _ \<Rightarrow> None)"

definition drop_task :: "nat \<Rightarrow> 'a task_sched \<Rightarrow> 'a task_sched option" where
  "drop_task v f =
     (case task_vars (tasks_of f) v of
        Some (Some h) \<Rightarrow>
          (case task_frames (tasks_of f) h of
             Some fr \<Rightarrow>
               if remaining fr = None
               then map_option (\<lambda>t. f\<lparr>tasks_of := t\<rparr>) (task_step (DestroyTask v) (tasks_of f)) else None
           | None \<Rightarrow> None)
      | _ \<Rightarrow> None)"

datatype 'a task_sched_label =
    Spawn nat nat "'a task_body" | Again nat | FetchBy nat | ResumeBy nat | Drop nat | Sched sched_label

fun others :: "sched_label \<Rightarrow> bool" where
  "others (AddPush c) = False"
| "others (Fetch i) = False"
| "others (Resumed i) = False"
| "others _ = True"

fun task_sched_step :: "'a task_sched_label \<Rightarrow> 'a task_sched \<Rightarrow> 'a task_sched option" where
  "task_sched_step (Spawn v h b) f = spawn_task v h b f"
| "task_sched_step (Again h) f = add_again h f"
| "task_sched_step (FetchBy i) f = fetch_task i f"
| "task_sched_step (ResumeBy i) f = resume_task i f"
| "task_sched_step (Drop v) f = drop_task v f"
| "task_sched_step (Sched l) f =
     (if others l then map_option (\<lambda>s. f\<lparr>sched_of := s\<rparr>) (sched_step l (sched_of f)) else None)"

text \<open>Every step is a step of the scheduler or leaves it alone.\<close>

lemma task_sched_projects:
  assumes "task_sched_step l f = Some f'"
  shows "sched_of f' = sched_of f \<or> (\<exists>k. sched_step k (sched_of f) = Some (sched_of f'))"
proof (cases l)
  case (Spawn v h b)
  with assms have "sched_step (AddPush h) (sched_of f) = Some (sched_of f')" by (auto simp: spawn_task_def split: if_splits)
  then show ?thesis by blast
next
  case (Again h)
  with assms have "sched_step (AddPush h) (sched_of f) = Some (sched_of f')" by (auto simp: add_again_def split: if_splits)
  then show ?thesis by blast
next
  case (FetchBy i)
  with assms have "sched_step (Fetch i) (sched_of f) = Some (sched_of f')" by (auto simp: fetch_task_def)
  then show ?thesis by blast
next
  case (ResumeBy i)
  with assms have "sched_step (Resumed i) (sched_of f) = Some (sched_of f')" by (auto simp: resume_task_def split: spc.splits)
  then show ?thesis by blast
next
  case (Drop v)
  with assms show ?thesis by (auto simp: drop_task_def split: option.splits if_splits)
next
  case (Sched k)
  with assms have "sched_step k (sched_of f) = Some (sched_of f')" by (auto split: if_splits)
  then show ?thesis by blast
qed

interpretation ts: system_refinement task_sched_step "new_task_sched n" sched_step "get_instance n" sched_of
  by unfold_locales (simp add: new_task_sched_def, rule task_sched_projects)

subsection \<open>Invariant\<close>






















subsection \<open>Properties\<close>





end
