(* ===== verification/MemoryPool.thy ===== *)
theory MemoryPool
  imports Transition "HOL-Library.Multiset"
begin

text \<open>
  The memory pool of \<open>include/alloc/MemoryPool.hpp\<close>: fixed-size pools with a cache per thread, and the
  manager that chooses a pool by the size of the request. Sizes are 64-bit words where the code rounds
  them; addresses are natural numbers. The function \<open>localCache\<close> is static and its vector
  \<open>thread_local\<close>, so that a thread has one cache for all pools, and the state has one cache per thread.

  The operators that get memory from the system are arguments: the address they return is part of the
  label of a step, which is enabled only if the memory is unused. An operation touches the cache of its
  own thread, which no other thread sees, and shared data in at most one critical section, so that it
  is one step.
\<close>

unbundle bit_operations_syntax

subsection \<open>One pool\<close>

record mempool =
  blockSize :: nat
  blocksPerChunk :: nat
  localCacheLimit :: nat
  globalFreeList :: "nat list"
  chunks :: "nat list"

definition alignBlockSize :: "nat \<Rightarrow> nat" where
  "alignBlockSize s = (s + 16 - 1) div 16 * 16"

definition new_pool :: "nat \<Rightarrow> mempool" where
  "new_pool sz = \<lparr>blockSize = alignBlockSize sz, blocksPerChunk = 1024, localCacheLimit = 64,
     globalFreeList = [], chunks = []\<rparr>"

text \<open>Moving elements from the back of one vector to the back of another, one at a time.\<close>

fun move_back :: "nat \<Rightarrow> nat list \<Rightarrow> nat list \<Rightarrow> nat list \<times> nat list" where
  "move_back 0 from to = (from, to)"
| "move_back (Suc n) from to = move_back n (butlast from) (to @ [last from])"

definition refillLocalFromGlobal :: "mempool \<Rightarrow> nat list \<Rightarrow> mempool \<times> nat list" where
  "refillLocalFromGlobal p local =
     (let toMove = min (localCacheLimit p) (length (globalFreeList p));
          (g, l) = move_back toMove (globalFreeList p) local
      in (p\<lparr>globalFreeList := g\<rparr>, l))"

definition flushLocalToGlobal :: "mempool \<Rightarrow> nat list \<Rightarrow> mempool \<times> nat list" where
  "flushLocalToGlobal p local =
     (let (l, g) = move_back (length local - localCacheLimit p) local (globalFreeList p)
      in (p\<lparr>globalFreeList := g\<rparr>, l))"

definition chunk_blocks :: "mempool \<Rightarrow> nat \<Rightarrow> nat list" where
  "chunk_blocks p chunk = map (\<lambda>i. chunk + i * blockSize p) [0..<blocksPerChunk p]"

definition allocateChunkToLocal :: "nat \<Rightarrow> mempool \<Rightarrow> nat list \<Rightarrow> mempool \<times> nat list" where
  "allocateChunkToLocal chunk p local = (p\<lparr>chunks := chunks p @ [chunk]\<rparr>, local @ chunk_blocks p chunk)"

text \<open>The first component says whether a chunk was requested from the system, at the given address.\<close>

definition allocate :: "nat \<Rightarrow> mempool \<Rightarrow> nat list \<Rightarrow> bool \<times> nat \<times> mempool \<times> nat list" where
  "allocate chunk p local =
     (if local \<noteq> [] then (False, last local, p, butlast local)
      else
        let (p1, l1) = refillLocalFromGlobal p local in
        if l1 \<noteq> [] then (False, last l1, p1, butlast l1)
        else
          let (p2, l2) = allocateChunkToLocal chunk p1 l1 in (True, last l2, p2, butlast l2))"

definition deallocate :: "nat option \<Rightarrow> mempool \<Rightarrow> nat list \<Rightarrow> mempool \<times> nat list" where
  "deallocate ptr p local =
     (case ptr of
        None \<Rightarrow> (p, local)
      | Some a \<Rightarrow>
          (let local1 = local @ [a] in
           if localCacheLimit p * 2 < length local1 then flushLocalToGlobal p local1 else (p, local1)))"

subsection \<open>The manager\<close>

definition ALIGN :: "64 word" where
  "ALIGN = 8"

definition MAX_POOL_SIZE :: "64 word" where
  "MAX_POOL_SIZE = 4096"

definition NUM_CLASSES :: nat where
  "NUM_CLASSES = 512"

definition align_up :: "64 word \<Rightarrow> 64 word" where
  "align_up n = (n + ALIGN - 1) AND NOT (ALIGN - 1)"

definition size_to_class :: "64 word \<Rightarrow> int" where
  "size_to_class n0 =
     (let n = align_up n0 in if MAX_POOL_SIZE < n then - 1 else uint (n div ALIGN) - 1)"

record manager =
  pools :: "nat \<Rightarrow> mempool"
  caches :: "nat \<Rightarrow> nat list"

definition new_manager :: manager where
  "new_manager = \<lparr>pools = (\<lambda>i. new_pool ((i + 1) * 8)), caches = (\<lambda>_. [])\<rparr>"

text \<open>
  \<open>allocate\<close> and \<open>deallocate\<close> of the manager on behalf of a thread. Outside the classes the request goes to
  \<open>malloc\<close> and \<open>free\<close>; the address from the system is \<open>mem\<close>.
\<close>

definition manager_allocate :: "nat \<Rightarrow> 64 word \<Rightarrow> nat \<Rightarrow> manager \<Rightarrow> bool \<times> nat \<times> manager" where
  "manager_allocate t sz mem g =
     (let cls = size_to_class sz in
      if cls < 0 then (True, mem, g)
      else
        let (sys, a, p, l) = allocate mem (pools g (nat cls)) (caches g t)
        in (sys, a, g\<lparr>pools := (pools g)(nat cls := p), caches := (caches g)(t := l)\<rparr>))"

definition manager_deallocate :: "nat \<Rightarrow> nat \<Rightarrow> 64 word \<Rightarrow> manager \<Rightarrow> manager" where
  "manager_deallocate t a sz g =
     (let cls = size_to_class sz in
      if cls < 0 then g
      else
        let (p, l) = deallocate (Some a) (pools g (nat cls)) (caches g t)
        in g\<lparr>pools := (pools g)(nat cls := p), caches := (caches g)(t := l)\<rparr>)"

text \<open>The destructors: the chunks they return to the system, in this order.\<close>

definition destroy_mempool :: "mempool \<Rightarrow> nat list" where
  "destroy_mempool p = chunks p"

definition destroy_manager :: "manager \<Rightarrow> nat list" where
  "destroy_manager g = concat (map (\<lambda>i. destroy_mempool (pools g i)) [0..<NUM_CLASSES])"

subsection \<open>Size classes\<close>

lemma clear_low_bits: "(x :: 64 word) AND NOT (mask 3) = push_bit 3 (drop_bit 3 x)"
  by (rule bit_word_eqI) (auto simp: bit_simps)

lemma unat_clear: "unat ((x :: 64 word) AND NOT 7) = unat x div 8 * 8"
proof -
  have m: "(7 :: 64 word) = mask 3" by (simp add: mask_eq_exp_minus_1)
  have lt: "unat x < 2 ^ 64" using unsigned_less [of x, where 'a = nat] by simp
  have "x AND NOT 7 = drop_bit 3 x * 8" unfolding m clear_low_bits by (simp add: push_bit_eq_mult)
  then have "unat (x AND NOT 7) = unat (drop_bit 3 x * 8)" by simp
  also have "\<dots> = (unat x div 8 * 8) mod 2 ^ 64" using lt by (simp add: unat_word_ariths unat_drop_bit_eq drop_bit_eq_div)
  also have "\<dots> = unat x div 8 * 8" using lt by simp
  finally show ?thesis .
qed

lemma unat_align_up: "unat (align_up n) = unat (n + 7) div 8 * 8"
proof -
  have "align_up n = (n + 7) AND NOT 7" by (simp add: align_up_def ALIGN_def add.commute)
  then show ?thesis by (simp only: unat_clear)
qed

lemma align_up_small:
  assumes "unat n \<le> 4096"
  shows "unat (align_up n) = (unat n + 7) div 8 * 8"
  using assms by (simp add: unat_align_up unat_word_ariths)

lemma align_up_large:
  assumes "4096 < unat n"
  shows "unat (align_up n) = 0 \<or> 4096 < unat (align_up n)"
proof -
  have lt: "unat n < 2 ^ 64" using unsigned_less [of n, where 'a = nat] by simp
  have u: "unat (align_up n) = unat (n + 7) div 8 * 8" by (rule unat_align_up)
  show ?thesis
  proof (cases "unat n + 7 < 2 ^ 64")
    case True
    then have "unat (n + 7) = unat n + 7" by (simp add: unat_word_ariths)
    moreover have "513 \<le> (unat n + 7) div 8" using div_le_mono [of 4104 "unat n + 7" 8] assms by simp
    ultimately show ?thesis using u by simp
  next
    case False
    then have "unat (n + 7) = unat n + 7 - 2 ^ 64" using lt by (simp add: unat_word_ariths mod_if)
    then have "unat (n + 7) < 8" using lt by simp
    then show ?thesis using u by simp
  qed
qed

lemma size_to_class_spec:
  "size_to_class n = (if unat n = 0 \<or> 4096 < unat n then - 1 else int ((unat n - 1) div 8))"
proof (cases "4096 < unat n")
  case True
  have "uint (align_up n div ALIGN) = 0" if "unat (align_up n) = 0" using that by (simp add: ALIGN_def uint_nat unat_div)
  then show ?thesis
    using align_up_large [OF True] True by (auto simp: size_to_class_def MAX_POOL_SIZE_def word_less_nat_alt)
next
  case False
  then have a: "unat (align_up n) = (unat n + 7) div 8 * 8" by (simp add: align_up_small)
  moreover have "\<not> MAX_POOL_SIZE < align_up n" using False a by (simp add: MAX_POOL_SIZE_def word_less_nat_alt)
  moreover have "uint (align_up n div ALIGN) = int ((unat n + 7) div 8)"
    using a by (simp add: ALIGN_def uint_nat unat_div)
  moreover have "int ((unat n + 7) div 8) - 1 = (if unat n = 0 then - 1 else int ((unat n - 1) div 8))"
  proof (cases "unat n")
    case (Suc k)
    have "(Suc k + 7) div 8 = Suc (k div 8)" by simp
    with Suc show ?thesis by simp
  qed simp
  ultimately show ?thesis using False by (simp add: size_to_class_def)
qed

subsection \<open>Moving blocks\<close>

lemma move_back_length: "n \<le> length from \<Longrightarrow> move_back n from to = (take (length from - n) from, to @ rev (drop (length from - n) from))"
proof (induction n arbitrary: "from" to)
  case (Suc n)
  then have ne: "from \<noteq> []" by auto
  let ?k = "length from - Suc n"
  have k: "length (butlast from) - n = ?k" using Suc.prems by simp
  have "take ?k (butlast from) = take ?k from" using Suc.prems by (simp add: take_butlast)
  moreover have "drop ?k from = drop ?k (butlast from) @ [last from]"
  proof -
    have "from = butlast from @ [last from]" using ne by simp
    then have "drop ?k from = drop ?k (butlast from @ [last from])" by simp
    then show ?thesis by simp
  qed
  ultimately show ?case using Suc.IH [of "butlast from" "to @ [last from]"] Suc.prems k by simp
qed simp

lemma mset_move_back:
  "n \<le> length from \<Longrightarrow> move_back n from to = (from', to') \<Longrightarrow> mset (from' @ to') = mset (from @ to)"
proof -
  assume "n \<le> length from" "move_back n from to = (from', to')"
  then have eq: "from' = take (length from - n) from" "to' = to @ rev (drop (length from - n) from)"
    by (simp_all add: move_back_length)
  have "mset (take (length from - n) from) + mset (drop (length from - n) from) = mset from"
    by (metis append_take_drop_id mset_append)
  then show ?thesis unfolding eq by (simp add: ac_simps)
qed

lemma refill_spec:
  assumes "refillLocalFromGlobal p local = (p', l')"
  shows "p' = p\<lparr>globalFreeList := globalFreeList p'\<rparr>" "mset (l' @ globalFreeList p') = mset (local @ globalFreeList p)"
proof -
  let ?n = "min (localCacheLimit p) (length (globalFreeList p))"
  obtain g l where m: "move_back ?n (globalFreeList p) local = (g, l)" by fastforce
  then have "p' = p\<lparr>globalFreeList := g\<rparr>" "l' = l" using assms by (simp_all add: refillLocalFromGlobal_def Let_def)
  with mset_move_back [OF _ m] show "p' = p\<lparr>globalFreeList := globalFreeList p'\<rparr>"
    "mset (l' @ globalFreeList p') = mset (local @ globalFreeList p)" by (simp_all add: ac_simps)
qed

lemma deallocate_spec:
  assumes "deallocate (Some a) p local = (p', l')"
  shows "p' = p\<lparr>globalFreeList := globalFreeList p'\<rparr>"
    "mset (l' @ globalFreeList p') = mset ((local @ [a]) @ globalFreeList p)"
    "length l' \<le> 2 * localCacheLimit p"
proof -
  have "p' = p\<lparr>globalFreeList := globalFreeList p'\<rparr> \<and> mset (l' @ globalFreeList p') = mset ((local @ [a]) @ globalFreeList p)
      \<and> length l' \<le> 2 * localCacheLimit p"
  proof (cases "localCacheLimit p * 2 < length (local @ [a])")
    case True
    let ?l = "local @ [a]"
    obtain l g where m: "move_back (length ?l - localCacheLimit p) ?l (globalFreeList p) = (l, g)" by fastforce
    then have e: "p' = p\<lparr>globalFreeList := g\<rparr>" "l' = l"
      using assms True by (simp_all add: deallocate_def flushLocalToGlobal_def Let_def)
    have "l = take (localCacheLimit p) ?l" using m True by (simp add: move_back_length)
    with e mset_move_back [OF _ m] show ?thesis by simp
  next
    case False
    then have "p' = p" "l' = local @ [a]" using assms by (simp_all add: deallocate_def Let_def)
    with False show ?thesis by simp
  qed
  then show "p' = p\<lparr>globalFreeList := globalFreeList p'\<rparr>"
    "mset (l' @ globalFreeList p') = mset ((local @ [a]) @ globalFreeList p)"
    "length l' \<le> 2 * localCacheLimit p" by blast+
qed

subsection \<open>Threads using the manager\<close>

text \<open>
  The state adds the blocks that are in use with the size they were requested for, and the chunks got
  from the system with their extents. A block is freed by whoever has it, from any thread, with the size
  it was requested for.
\<close>

record memory =
  mgr :: manager
  live :: "(nat \<times> 64 word) list"
  regions :: "(nat \<times> nat) list"

definition new_memory :: memory where
  "new_memory = \<lparr>mgr = new_manager, live = [], regions = []\<rparr>"

definition unused :: "nat \<Rightarrow> nat \<Rightarrow> (nat \<times> nat) list \<Rightarrow> bool" where
  "unused a n rs \<longleftrightarrow> list_all (\<lambda>(b, k). a + n \<le> b \<or> b + k \<le> a) rs"

datatype mem_label = Alloc nat "64 word" nat | Free nat nat "64 word"

fun mem_step :: "mem_label \<Rightarrow> memory \<Rightarrow> memory option" where
  "mem_step (Alloc t sz mem) h =
     (if size_to_class sz < 0 then Some h
      else
        let p = pools (mgr h) (nat (size_to_class sz));
            (sys, a, g) = manager_allocate t sz mem (mgr h);
            h1 = h\<lparr>mgr := g, live := (a, sz) # live h\<rparr>
        in if \<not> sys then Some h1
           else if unused mem (blockSize p * blocksPerChunk p) (regions h)
           then Some (h1\<lparr>regions := (mem, blockSize p * blocksPerChunk p) # regions h\<rparr>)
           else None)"
| "mem_step (Free t a sz) h =
     (if (a, sz) \<in> set (live h)
      then Some (h\<lparr>mgr := manager_deallocate t a sz (mgr h), live := remove1 (a, sz) (live h)\<rparr>) else None)"

subsection \<open>Ownership\<close>

text \<open>Every block is in one place: the cache of a thread, the free list of a pool, or in use.\<close>

datatype place = Cache nat | FreeList nat | InUse

fun items :: "memory \<Rightarrow> place \<Rightarrow> nat list" where
  "items h (Cache t) = caches (mgr h) t"
| "items h (FreeList c) = globalFreeList (pools (mgr h) c)"
| "items h InUse = map fst (live h)"

definition in_chunk :: "(nat \<times> nat) list \<Rightarrow> nat \<Rightarrow> bool" where
  "in_chunk rs a \<longleftrightarrow> (\<exists>(b, n) \<in> set rs. b \<le> a \<and> a + 16 \<le> b + n \<and> 16 dvd a - b)"

definition own :: "(place \<Rightarrow> nat list) \<Rightarrow> (nat \<times> nat) list \<Rightarrow> bool" where
  "own f rs \<longleftrightarrow> (\<forall>x. distinct (f x)) \<and> (\<forall>x y. x \<noteq> y \<longrightarrow> set (f x) \<inter> set (f y) = {}) \<and> (\<forall>x. \<forall>a \<in> set (f x). in_chunk rs a)"

lemma own_redistribute:
  assumes o: "own f rs" and ne: "x \<noteq> y" and ms: "mset (f' x @ f' y) = mset (f x @ f y)"
    and other: "\<And>z. z \<noteq> x \<Longrightarrow> z \<noteq> y \<Longrightarrow> f' z = f z"
  shows "own f' rs"
proof -
  have d: "distinct (f x @ f y)" using o ne by (simp add: own_def)
  then have d': "distinct (f' x @ f' y)" using ms mset_eq_imp_distinct_iff by blast
  have s: "set (f' x) \<union> set (f' y) = set (f x) \<union> set (f y)" using mset_eq_setD [OF ms] by simp
  have dist: "distinct (f' z)" for z using d' o other [of z] by (cases "z = x"; cases "z = y") (auto simp: own_def)
  have chunk: "in_chunk rs a" if "a \<in> set (f' z)" for z a
  proof (cases "z = x \<or> z = y")
    case True
    then have "a \<in> set (f x) \<union> set (f y)" using that s by blast
    then show ?thesis using o by (auto simp: own_def)
  next
    case False
    then show ?thesis using that o other [of z] by (auto simp: own_def)
  qed
  have sub: "set (f' z) \<inter> (set (f x) \<union> set (f y)) = {}" if "z \<noteq> x" "z \<noteq> y" for z
    using o that other [of z] by (auto simp: own_def)
  have disj: "set (f' z) \<inter> set (f' w) = {}" if zw: "z \<noteq> w" for z w
  proof (cases "z \<in> {x, y}")
    case zin: True
    show ?thesis
    proof (cases "w \<in> {x, y}")
      case True
      with zin zw d' show ?thesis by auto
    next
      case False
      with zin sub [of w] s show ?thesis by auto
    qed
  next
    case zout: False
    show ?thesis
    proof (cases "w \<in> {x, y}")
      case True
      with zout sub [of z] s show ?thesis by auto
    next
      case False
      with zout o zw other [of z] other [of w] show ?thesis by (simp add: own_def)
    qed
  qed
  from dist chunk disj show ?thesis by (simp add: own_def)
qed

text \<open>New blocks from a chunk that does not overlap the others.\<close>

lemma own_add:
  assumes o: "own f rs" and un: "unused b n rs" and dist: "distinct new" and empty: "f x = []"
    and blk: "\<And>a. a \<in> set new \<Longrightarrow> b \<le> a \<and> a + 16 \<le> b + n \<and> 16 dvd a - b"
  shows "own (f(x := new)) ((b, n) # rs)"
proof -
  have apart: "a \<notin> set (f y)" if "a \<in> set new" for a y
  proof
    assume "a \<in> set (f y)"
    then have "in_chunk rs a" using o by (simp add: own_def)
    then obtain c k where "(c, k) \<in> set rs" "c \<le> a" "a + 16 \<le> c + k" by (auto simp: in_chunk_def)
    moreover from this(1) un have "b + n \<le> c \<or> c + k \<le> b" by (auto simp: unused_def list_all_iff)
    ultimately show False using blk [OF that] by linarith
  qed
  have "in_chunk ((b, n) # rs) a" if "a \<in> set new" for a using blk [OF that] by (simp add: in_chunk_def)
  moreover have "in_chunk ((b, n) # rs) a" if "in_chunk rs a" for a using that by (auto simp: in_chunk_def)
  moreover have "set new \<inter> set (f y) = {}" for y using apart by blast
  ultimately show ?thesis using o dist by (auto simp: own_def)
qed

lemma own_pop:
  assumes "own f rs" and "f (Cache t) \<noteq> []"
  shows "own (f(Cache t := butlast (f (Cache t)), InUse := last (f (Cache t)) # f InUse)) rs"
proof (rule own_redistribute [OF assms(1), of "Cache t" InUse])
  have "mset (butlast (f (Cache t)) @ [last (f (Cache t))]) = mset (f (Cache t))" using assms(2) by simp
  then show "mset ((f(Cache t := butlast (f (Cache t)), InUse := last (f (Cache t)) # f InUse)) (Cache t) @
      (f(Cache t := butlast (f (Cache t)), InUse := last (f (Cache t)) # f InUse)) InUse) = mset (f (Cache t) @ f InUse)"
    by (simp add: ac_simps)
qed simp_all

definition class_inv :: "memory \<Rightarrow> bool" where
  "class_inv h \<longleftrightarrow> (\<forall>c. blockSize (pools (mgr h) c) = alignBlockSize ((c + 1) * 8)
     \<and> blocksPerChunk (pools (mgr h) c) = 1024 \<and> localCacheLimit (pools (mgr h) c) = 64)"

definition mem_inv :: "memory \<Rightarrow> bool" where
  "mem_inv h \<longleftrightarrow> own (items h) (regions h) \<and> class_inv h \<and> (\<forall>(a, sz) \<in> set (live h). 0 \<le> size_to_class sz)"

lemma alignBlockSize_bounds: "0 < s \<Longrightarrow> 16 \<le> alignBlockSize s" "16 dvd alignBlockSize s" "s \<le> alignBlockSize s"
proof -
  show d: "16 dvd alignBlockSize s" by (simp add: alignBlockSize_def)
  show le: "s \<le> alignBlockSize s" unfolding alignBlockSize_def by linarith
  show "0 < s \<Longrightarrow> 16 \<le> alignBlockSize s" using d le by (intro dvd_imp_le) auto
qed

lemma chunk_blocks_ok:
  assumes "16 \<le> blockSize p" "16 dvd blockSize p"
  shows "distinct (chunk_blocks p b)"
    and "a \<in> set (chunk_blocks p b) \<Longrightarrow> b \<le> a \<and> a + 16 \<le> b + blockSize p * blocksPerChunk p \<and> 16 dvd a - b"
proof -
  have "inj (\<lambda>i. b + i * blockSize p)" using assms(1) by (auto intro!: injI)
  then show "distinct (chunk_blocks p b)" by (auto simp: chunk_blocks_def distinct_map intro: inj_on_subset)
  assume "a \<in> set (chunk_blocks p b)"
  then obtain i where i: "i < blocksPerChunk p" "a = b + i * blockSize p" by (auto simp: chunk_blocks_def)
  have "(i + 1) * blockSize p \<le> blocksPerChunk p * blockSize p" using i(1) by (intro mult_le_mono1) simp
  then have "i * blockSize p + 16 \<le> blockSize p * blocksPerChunk p" using assms(1) by (simp add: algebra_simps)
  then show "b \<le> a \<and> a + 16 \<le> b + blockSize p * blocksPerChunk p \<and> 16 dvd a - b" using i(2) assms(2) by simp
qed

text \<open>What the manager's two operations do to the places.\<close>

lemma allocate_cases:
  assumes "allocate mem p local = (sys, a, p', l')" and "0 < localCacheLimit p"
  obtains (cached) "local \<noteq> []" "\<not> sys" "a = last local" "p' = p" "l' = butlast local"
    | (refilled) l1 where "local = []" "\<not> sys" "l1 \<noteq> []" "a = last l1" "l' = butlast l1"
        "p' = p\<lparr>globalFreeList := globalFreeList p'\<rparr>" "mset (l1 @ globalFreeList p') = mset (local @ globalFreeList p)"
    | (chunk) "local = []" "sys" "globalFreeList p = []" "p' = p\<lparr>chunks := chunks p @ [mem]\<rparr>"
        "a = last (chunk_blocks p mem)" "l' = butlast (chunk_blocks p mem)"
proof (cases "local = []")
  case False
  with assms(1) show ?thesis by (intro cached) (auto simp: allocate_def)
next
  case True
  obtain p1 l1 where r: "refillLocalFromGlobal p local = (p1, l1)" by fastforce
  note sp = refill_spec [OF r]
  show ?thesis
  proof (cases "l1 = []")
    case False
    with True r assms(1) sp show ?thesis by (intro refilled [of l1]) (auto simp: allocate_def)
  next
    case empty: True
    have "min (localCacheLimit p) (length (globalFreeList p)) = 0"
      using r True empty by (auto simp: refillLocalFromGlobal_def Let_def move_back_length split: prod.splits)
    then have "globalFreeList p = []" using assms(2) by (simp add: min_def split: if_splits)
    then have "globalFreeList p1 = []" using sp(2) True empty by simp
    then have "p1 = p" using sp(1) \<open>globalFreeList p = []\<close> by simp
    with True empty r assms(1) \<open>globalFreeList p = []\<close> show ?thesis
      by (intro chunk) (auto simp: allocate_def allocateChunkToLocal_def chunk_blocks_def)
  qed
qed

lemma alloc_inv:
  assumes inv: "mem_inv h" and st: "mem_step (Alloc t sz mem) h = Some h'"
  shows "mem_inv h'"
proof (cases "size_to_class sz < 0")
  case True
  with assms show ?thesis by simp
next
  case False
  define c where "c = nat (size_to_class sz)"
  define p where "p = pools (mgr h) c"
  let ?f = "items h"
  obtain sys a p' l' where al: "allocate mem p (caches (mgr h) t) = (sys, a, p', l')" by (metis prod_cases4)
  let ?g = "(mgr h)\<lparr>pools := (pools (mgr h))(c := p'), caches := (caches (mgr h))(t := l')\<rparr>"
  have m: "manager_allocate t sz mem (mgr h) = (sys, a, ?g)"
    using False al by (simp add: manager_allocate_def c_def p_def)
  let ?rs = "if sys then (mem, blockSize p * blocksPerChunk p) # regions h else regions h"
  have un: "sys \<Longrightarrow> unused mem (blockSize p * blocksPerChunk p) (regions h)"
    and h': "h' = h\<lparr>mgr := ?g, live := (a, sz) # live h, regions := ?rs\<rparr>"
    using st False m by (auto simp: c_def p_def Let_def split: if_splits)
  have cfg: "blockSize p = alignBlockSize ((c + 1) * 8)" "blocksPerChunk p = 1024" "localCacheLimit p = 64"
    using inv by (simp_all add: mem_inv_def class_inv_def p_def)
  have o: "own ?f (regions h)" using inv by (simp add: mem_inv_def)
  have it: "items h' = ?f(Cache t := l', FreeList c := globalFreeList p', InUse := a # ?f InUse)"
  proof
    fix z show "items h' z = (?f(Cache t := l', FreeList c := globalFreeList p', InUse := a # ?f InUse)) z"
      by (cases z) (simp_all add: h')
  qed
  have lim: "0 < localCacheLimit p" using cfg by simp
  from al lim have "own (items h') (regions h') \<and> blockSize p' = blockSize p \<and> blocksPerChunk p' = blocksPerChunk p
      \<and> localCacheLimit p' = localCacheLimit p"
  proof (cases rule: allocate_cases)
    case cached
    have "items h' = ?f(Cache t := butlast (?f (Cache t)), InUse := last (?f (Cache t)) # ?f InUse)"
      unfolding it using cached by (auto simp: fun_eq_iff p_def)
    with own_pop [OF o, of t] cached show ?thesis by (simp add: h')
  next
    case (refilled l1)
    let ?f1 = "?f(Cache t := l1, FreeList c := globalFreeList p')"
    have "own ?f1 (regions h)"
      by (rule own_redistribute [OF o, of "Cache t" "FreeList c"]) (use refilled in \<open>auto simp: p_def\<close>)
    from own_pop [OF this, of t] refilled have "own (items h') (regions h)" unfolding it
      by (simp add: fun_upd_twist)
    moreover have "blockSize p' = blockSize p \<and> blocksPerChunk p' = blocksPerChunk p \<and> localCacheLimit p' = localCacheLimit p"
      by (subst (1 2 3) refilled(6)) simp
    ultimately show ?thesis using refilled(2) by (simp add: h')
  next
    case chunk
    have bs: "16 \<le> blockSize p" "16 dvd blockSize p" using cfg(1) alignBlockSize_bounds by auto
    let ?f1 = "?f(Cache t := chunk_blocks p mem)"
    have f1: "own ?f1 ((mem, blockSize p * blocksPerChunk p) # regions h)"
      using chunk un chunk_blocks_ok(1) [OF bs] chunk_blocks_ok(2) [OF bs, of _ mem] by (intro own_add [OF o]) auto
    have ne: "?f1 (Cache t) \<noteq> []" using cfg(2) by (simp add: chunk_blocks_def)
    have "items h' = ?f1(Cache t := butlast (?f1 (Cache t)), InUse := last (?f1 (Cache t)) # ?f1 InUse)"
      unfolding it using chunk by (auto simp: fun_eq_iff p_def)
    with own_pop [OF f1 ne] have "own (items h') ((mem, blockSize p * blocksPerChunk p) # regions h)" by (simp only:)
    then show ?thesis using chunk(2,4) by (simp add: h')
  qed
  then show ?thesis using inv False by (auto simp: mem_inv_def class_inv_def h' p_def)
qed

lemma mset_remove1_fst: "(a, b) \<in> set xs \<Longrightarrow> mset (map fst xs) = add_mset a (mset (map fst (remove1 (a, b) xs)))"
  by (induction xs) auto

lemma free_inv:
  assumes inv: "mem_inv h" and st: "mem_step (Free t a sz) h = Some h'"
  shows "mem_inv h'"
proof -
  have lv: "(a, sz) \<in> set (live h)" and h'0: "h' = h\<lparr>mgr := manager_deallocate t a sz (mgr h), live := remove1 (a, sz) (live h)\<rparr>"
    using st by (simp_all split: if_splits)
  define c where "c = nat (size_to_class sz)"
  define p where "p = pools (mgr h) c"
  obtain p' l' where d: "deallocate (Some a) p (caches (mgr h) t) = (p', l')" by fastforce
  note sp = deallocate_spec [OF d]
  let ?g = "(mgr h)\<lparr>pools := (pools (mgr h))(c := p'), caches := (caches (mgr h))(t := l')\<rparr>"
  have "manager_deallocate t a sz (mgr h) = ?g"
    using inv lv d by (fastforce simp: mem_inv_def manager_deallocate_def c_def p_def)
  then have h': "h' = h\<lparr>mgr := ?g, live := remove1 (a, sz) (live h)\<rparr>" using h'0 by simp
  let ?f = "items h"
  let ?f1 = "?f(InUse := map fst (remove1 (a, sz) (live h)), Cache t := caches (mgr h) t @ [a])"
  let ?f2 = "?f1(Cache t := l', FreeList c := globalFreeList p')"
  have o0: "own ?f (regions h)" using inv by (simp add: mem_inv_def)
  have o1: "own ?f1 (regions h)"
  proof (rule own_redistribute [OF o0, of "Cache t" InUse])
    show "mset (?f1 (Cache t) @ ?f1 InUse) = mset (?f (Cache t) @ ?f InUse)"
      unfolding mset_append items.simps mset_remove1_fst [OF lv] by simp
  qed simp_all
  have o2: "own ?f2 (regions h)"
    by (rule own_redistribute [OF o1, of "Cache t" "FreeList c"]) (use sp(2) in \<open>auto simp: p_def\<close>)
  have it: "items h' = ?f2"
  proof
    fix z show "items h' z = ?f2 z" by (cases z) (simp_all add: h')
  qed
  have "blockSize p' = blockSize p \<and> blocksPerChunk p' = blocksPerChunk p \<and> localCacheLimit p' = localCacheLimit p"
    by (subst (1 2 3) sp(1)) simp
  then have "class_inv h'" using inv by (simp add: mem_inv_def class_inv_def h' p_def)
  moreover have "\<forall>(b, s) \<in> set (live h'). 0 \<le> size_to_class s"
    using inv set_remove1_subset [of "(a, sz)" "live h"] by (auto simp: h' mem_inv_def)
  moreover have "regions h' = regions h" by (simp add: h')
  ultimately show ?thesis using o2 it by (simp only: mem_inv_def)
qed

lemma mem_inv_step: "mem_inv h \<Longrightarrow> mem_step l h = Some h' \<Longrightarrow> mem_inv h'"
  by (cases l) (blast intro: alloc_inv free_inv)+

lemma mem_inv_init: "mem_inv new_memory"
proof -
  have "items new_memory x = []" for x by (cases x) (simp_all add: new_memory_def new_manager_def new_pool_def)
  then show ?thesis
    by (simp add: mem_inv_def own_def class_inv_def new_memory_def new_manager_def new_pool_def)
qed

interpretation mp: system_invariant mem_step new_memory mem_inv
  by unfold_locales (rule mem_inv_init, rule mem_inv_step)

abbreviation reachable_memory :: "memory \<Rightarrow> bool" where
  "reachable_memory \<equiv> reach mem_step new_memory"

lemma memory_run:
  assumes "case run_labels mem_step ls new_memory of None \<Rightarrow> False | Some h \<Rightarrow> P h"
  shows "\<exists>h. reachable_memory h \<and> P h"
  using assms reach_run by (fastforce split: option.splits)

lemma own_places:
  assumes "own f rs" "x \<noteq> y"
  shows "distinct (f x @ f y)" "a \<in> set (f x) \<Longrightarrow> in_chunk rs a"
  using assms by (auto simp: own_def)

lemma alignBlockSize_le: "alignBlockSize s < s + 16"
proof -
  have "(s + 15) div 16 * 16 \<le> s + 15" by (rule div_times_less_eq_dividend)
  then show ?thesis by (simp add: alignBlockSize_def)
qed

subsection \<open>Properties\<close>

text \<open>
  C25: for every 64-bit size, zero and the sizes for which rounding up wraps around included, the request
  goes to the pool of a class exactly when it is between 1 and 4096 bytes. The class is then an index of
  the array of pools and the blocks of that pool are large enough, with less than 24 bytes to spare.
\<close>

theorem size_class_covers:
  "if 0 < unat n \<and> unat n \<le> 4096
   then 0 \<le> size_to_class n \<and> nat (size_to_class n) < NUM_CLASSES
     \<and> unat n \<le> blockSize (pools new_manager (nat (size_to_class n)))
     \<and> blockSize (pools new_manager (nat (size_to_class n))) < unat n + 24
   else size_to_class n = - 1"
proof (cases "0 < unat n \<and> unat n \<le> 4096")
  case True
  let ?c = "(unat n - 1) div 8"
  have c: "size_to_class n = int ?c" using True by (simp add: size_to_class_spec)
  have b: "?c * 8 \<le> unat n - 1" "unat n - 1 < (?c + 1) * 8"
    using dividend_less_div_times [of 8 "unat n - 1"] by (simp_all add: div_times_less_eq_dividend)
  have "blockSize (pools new_manager ?c) = alignBlockSize ((?c + 1) * 8)" by (simp add: new_manager_def new_pool_def)
  moreover have "unat n \<le> (?c + 1) * 8" "(?c + 1) * 8 < unat n + 8"
    using b True by (cases "unat n"; simp add: distrib_right)+
  moreover have "?c < NUM_CLASSES" using True by (auto simp: NUM_CLASSES_def)
  ultimately show ?thesis
    using True c alignBlockSize_bounds(3) [of "(?c + 1) * 8"] alignBlockSize_le [of "(?c + 1) * 8"] by simp
next
  case False
  then show ?thesis by (auto simp: size_to_class_spec)
qed

text \<open>
  C15: whatever the threads allocate and free, in any order, no block is in two places: the blocks in use
  are distinct, none of them is in the cache of a thread or in the free list of a pool, the caches of two
  threads are disjoint, and each block in use is 16 bytes of a chunk at an aligned offset.
\<close>

theorem memory_never_shared:
  assumes "reachable_memory h"
  shows "distinct (map fst (live h)) \<and> distinct (caches (mgr h) t @ map fst (live h))
    \<and> distinct (globalFreeList (pools (mgr h) c) @ map fst (live h))
    \<and> distinct (caches (mgr h) t @ globalFreeList (pools (mgr h) c))
    \<and> (t = u \<or> set (caches (mgr h) t) \<inter> set (caches (mgr h) u) = {})
    \<and> list_all (in_chunk (regions h)) (map fst (live h))"
proof -
  have o: "own (items h) (regions h)" using mp.always [OF assms] by (simp add: mem_inv_def)
  have "distinct (items h (Cache t) @ items h (Cache u))" if "t \<noteq> u" using own_places(1) [OF o] that by blast
  then show ?thesis
    using own_places(1) [OF o, of "Cache t" InUse] own_places(1) [OF o, of "FreeList c" InUse]
      own_places(1) [OF o, of "Cache t" "FreeList c"] own_places(2) [OF o, of InUse "Cache t"]
    by (auto simp: list_all_iff)
qed

lemma chunk_blocks_back:
  "blocksPerChunk p = Suc (Suc n) \<Longrightarrow>
   \<exists>bs. chunk_blocks p b = bs @ [b + n * blockSize p, b + Suc n * blockSize p]"
  by (simp add: chunk_blocks_def)

lemma class_8_4096: "size_to_class 8 = 0" "size_to_class 4096 = 511"
  by (simp_all add: size_to_class_spec)

lemma two_allocations:
  "case run_labels mem_step [Alloc 0 8 4096, Alloc 0 4096 65536] new_memory of None \<Rightarrow> False
   | Some h \<Rightarrow> live h = [(20448, 4096), (20464, 8)] \<and> regions h = [(4096, 16384)]"
proof -
  have cfg: "blockSize (pools new_manager 0) = 16" "blocksPerChunk (pools new_manager 0) = Suc (Suc 1022)"
    "globalFreeList (pools new_manager 0) = []"
    by (simp_all add: new_manager_def new_pool_def alignBlockSize_def)
  obtain bs where bs: "chunk_blocks (pools new_manager 0) 4096 = bs @ [20448, 20464]"
    using chunk_blocks_back [OF cfg(2), of 4096] unfolding cfg(1) by auto
  have n: "caches new_manager t = []" for t by (simp add: new_manager_def)
  have r: "refillLocalFromGlobal (pools new_manager 0) [] = (pools new_manager 0, [])"
    using cfg(3) by (simp add: refillLocalFromGlobal_def)
  have "allocate 4096 (pools new_manager 0) [] = (True, 20464, (pools new_manager 0)\<lparr>chunks := chunks (pools new_manager 0) @ [4096]\<rparr>, bs @ [20448])"
    by (simp add: allocate_def r allocateChunkToLocal_def bs butlast_append)
  then show ?thesis
    using cfg by (simp add: new_memory_def class_8_4096 manager_allocate_def n unused_def allocate_def Let_def)
qed

theorem memory_never_shared_witness:
  "\<exists>h. reachable_memory h \<and> distinct (map fst (live h)) \<and> length (live h) = 2"
proof -
  obtain h where "reachable_memory h" "live h = [(20448, 4096), (20464, 8)]"
    using memory_run [OF two_allocations] by blast
  then show ?thesis using memory_never_shared [of h 0 0 0] by (intro exI [of _ h]) simp
qed

text \<open>
  The cache of a thread is shared by the pools of all classes, so that a block may be too small for its
  request: a thread that requests 8 bytes and then 4096 bytes gets for the second request a block of
  the pool of 8 bytes, and the last of the 4096 bytes is outside the only chunk there is.
\<close>

lemma block_too_small:
  "\<exists>h. reachable_memory h \<and> (\<exists>a b n. (a, 4096) \<in> set (live h) \<and> regions h = [(b, n)] \<and> b \<le> a \<and> a < b + n \<and> b + n < a + 4096)"
proof -
  obtain h where "reachable_memory h" "live h = [(20448, 4096), (20464, 8)]" "regions h = [(4096, 16384)]"
    using memory_run [OF two_allocations] by blast
  then show ?thesis by (intro exI [of _ h] conjI exI [of _ 20448] exI [of _ 4096] exI [of _ 16384]) auto
qed

subsection \<open>Destruction\<close>

text \<open>Every chunk requested from the system is returned by the destructor of the manager, once.\<close>

lemma allocate_chunks:
  assumes "allocate mem p local = (sys, a, p', l')"
  shows "chunks p' = chunks p @ (if sys then [mem] else [])"
proof -
  obtain p1 l1 where r: "refillLocalFromGlobal p local = (p1, l1)" by fastforce
  have "chunks p1 = chunks p" by (subst refill_spec(1) [OF r]) simp
  then show ?thesis using assms r by (auto simp: allocate_def allocateChunkToLocal_def split: if_splits)
qed

lemma mset_concat_update:
  assumes "k < n"
  shows "mset (concat (map (\<lambda>i. f i @ (if i = k then xs else [])) [0..<n])) = mset (concat (map f [0..<n])) + mset xs"
  using assms
proof (induction n)
  case (Suc n)
  show ?case
  proof (cases "k = n")
    case True
    have "map (\<lambda>i. f i @ (if i = n then xs else [])) [0..<n] = map f [0..<n]" by simp
    then show ?thesis using True by (simp del: map_eq_conv)
  next
    case False
    with Suc show ?thesis by simp
  qed
qed simp

lemma manager_destroys_chunks:
  assumes "manager_allocate t sz mem g = (sys, a, g')"
  shows "mset (destroy_manager g') = mset (destroy_manager g) + (if sys \<and> 0 \<le> size_to_class sz then {#mem#} else {#})"
proof (cases "size_to_class sz < 0")
  case True
  with assms show ?thesis by (simp add: manager_allocate_def Let_def)
next
  case False
  let ?k = "nat (size_to_class sz)"
  obtain p l where al: "allocate mem (pools g ?k) (caches g t) = (sys, a, p, l)" and g': "pools g' = (pools g)(?k := p)"
    using assms False by (auto simp: manager_allocate_def Let_def split: prod.splits)
  have k: "?k < NUM_CLASSES" using False size_to_class_spec [of sz] by (auto simp: NUM_CLASSES_def split: if_splits)
  have "chunks (pools g' i) = chunks (pools g i) @ (if i = ?k then if sys then [mem] else [] else [])" for i
    using allocate_chunks [OF al] by (simp add: g')
  then show ?thesis
    using mset_concat_update [OF k, of "\<lambda>i. chunks (pools g i)" "if sys then [mem] else []"] False
    by (simp add: destroy_manager_def destroy_mempool_def)
qed

lemma deallocate_keeps_chunks: "destroy_manager (manager_deallocate t a sz g) = destroy_manager g"
proof -
  have "chunks (pools (manager_deallocate t a sz g) i) = chunks (pools g i)" for i
  proof -
    obtain p l where d: "deallocate (Some a) (pools g (nat (size_to_class sz))) (caches g t) = (p, l)" by fastforce
    have "chunks p = chunks (pools g (nat (size_to_class sz)))" by (subst deallocate_spec(1) [OF d]) simp
    then show ?thesis using d by (simp add: manager_deallocate_def Let_def)
  qed
  then show ?thesis by (simp add: destroy_manager_def destroy_mempool_def)
qed

end
