(* ===== verification/Allocator.thy ===== *)
theory Allocator
  imports MemoryPool
begin

text \<open>
  The typed allocator of \<open>include/alloc/alloc.hpp\<close> on top of the memory pool. The size of the element
  type and its constructor are arguments: a constructor gets the address of the object and may change
  the state of the rest of the program, of type \<open>'w\<close>, or throw. An operation returns its result, the
  lifetimes of objects it began and ended in order, and the manager. A null pointer is \<open>None\<close>; the
  memory that \<open>malloc\<close> returns for large sizes is taken to be there.
\<close>

datatype lifetime = Constructed nat | Destroyed nat

type_synonym 'w constructor = "'w \<Rightarrow> nat \<Rightarrow> exn option \<times> 'w"

definition alloc :: "'w constructor \<Rightarrow> 64 word \<Rightarrow> nat \<Rightarrow> nat \<Rightarrow> manager \<Rightarrow> 'w \<Rightarrow> nat result \<times> lifetime list \<times> manager \<times> 'w" where
  "alloc ctor sizeofT t mem g w =
     (let sz = sizeofT; (_, p, g1) = manager_allocate t sz mem g in
      case ctor w p of
        (None, w1) \<Rightarrow> (Inr p, [Constructed p], g1, w1)
      | (Some e, w1) \<Rightarrow> (Inl e, [], manager_deallocate t p sz g1, w1))"

text \<open>The loop over the elements \<open>i\<close> to \<open>i + k - 1\<close> that stops at the first exception.\<close>

fun construct_elements :: "'w constructor \<Rightarrow> nat \<Rightarrow> nat \<Rightarrow> nat \<Rightarrow> nat \<Rightarrow> 'w \<Rightarrow> lifetime list \<times> exn option \<times> 'w" where
  "construct_elements ctor s p i 0 w = ([], None, w)"
| "construct_elements ctor s p i (Suc k) w =
     (case ctor w (p + i * s) of
        (Some e, w1) \<Rightarrow> ([], Some e, w1)
      | (None, w1) \<Rightarrow> (let (ev, r) = construct_elements ctor s p (Suc i) k w1 in (Constructed (p + i * s) # ev, r)))"

definition destroy_elements :: "nat \<Rightarrow> nat \<Rightarrow> nat \<Rightarrow> lifetime list" where
  "destroy_elements s p n = map (\<lambda>i. Destroyed (p + i * s)) [0..<n]"

definition alloc_array :: "'w constructor \<Rightarrow> 64 word \<Rightarrow> 64 word \<Rightarrow> nat \<Rightarrow> nat \<Rightarrow> manager \<Rightarrow> 'w \<Rightarrow> nat result \<times> lifetime list \<times> manager \<times> 'w" where
  "alloc_array ctor sizeofT n t mem g w =
     (let sz = sizeofT * n; (_, p, g1) = manager_allocate t sz mem g in
      case construct_elements ctor (unat sizeofT) p 0 (unat n) w of
        (ev, None, w1) \<Rightarrow> (Inr p, ev, g1, w1)
      | (ev, Some e, w1) \<Rightarrow> (Inl e, ev @ destroy_elements (unat sizeofT) p (unat n), manager_deallocate t p sz g1, w1))"

text \<open>
  The overload with arguments forwards the same arguments to every element: a constructor that takes one
  of them by move leaves what it left to the next element, so that the arguments are part of the state.
\<close>

definition alloc_array_args ::
    "('a \<Rightarrow> 'w \<Rightarrow> nat \<Rightarrow> exn option \<times> 'a \<times> 'w) \<Rightarrow> 64 word \<Rightarrow> 64 word \<Rightarrow> 'a \<Rightarrow> nat \<Rightarrow> nat \<Rightarrow> manager \<Rightarrow> 'w \<Rightarrow>
     nat result \<times> lifetime list \<times> manager \<times> 'a \<times> 'w" where
  "alloc_array_args ctor sizeofT n args t mem g w =
     (let sz = sizeofT * n; (_, p, g1) = manager_allocate t sz mem g in
      case construct_elements (\<lambda>(a, w). ctor a w) (unat sizeofT) p 0 (unat n) (args, w) of
        (ev, None, aw) \<Rightarrow> (Inr p, ev, g1, aw)
      | (ev, Some e, aw) \<Rightarrow> (Inl e, ev @ destroy_elements (unat sizeofT) p (unat n), manager_deallocate t p sz g1, aw))"

definition dealloc :: "64 word \<Rightarrow> nat option \<Rightarrow> nat \<Rightarrow> manager \<Rightarrow> lifetime list \<times> manager" where
  "dealloc sizeofT ptr t g =
     (case ptr of None \<Rightarrow> ([], g) | Some p \<Rightarrow> ([Destroyed p], manager_deallocate t p sizeofT g))"

definition dealloc_array :: "64 word \<Rightarrow> nat option \<Rightarrow> 64 word \<Rightarrow> nat \<Rightarrow> manager \<Rightarrow> lifetime list \<times> manager" where
  "dealloc_array sizeofT ptr n t g =
     (case ptr of
        None \<Rightarrow> ([], g)
      | Some p \<Rightarrow> (destroy_elements (unat sizeofT) p (unat n), manager_deallocate t p (sizeofT * n) g))"

subsection \<open>Blocks are conserved\<close>

definition free_blocks :: "manager \<Rightarrow> nat \<Rightarrow> nat \<Rightarrow> nat multiset" where
  "free_blocks g t c = mset (caches g t @ globalFreeList (pools g c))"

text \<open>The blocks of the chunk that a request adds, if it adds one.\<close>

definition added_blocks :: "manager \<Rightarrow> nat \<Rightarrow> nat \<Rightarrow> nat \<Rightarrow> nat multiset" where
  "added_blocks g t c mem =
     (if caches g t = [] \<and> globalFreeList (pools g c) = [] then mset (chunk_blocks (pools g c) mem) else {#})"

definition usable :: "mempool \<Rightarrow> bool" where
  "usable p \<longleftrightarrow> 0 < localCacheLimit p \<and> 0 < blocksPerChunk p"

lemma manager_deallocate_blocks:
  assumes "size_to_class sz = int c"
  shows "free_blocks (manager_deallocate t a sz g) t c = add_mset a (free_blocks g t c)"
proof -
  obtain p' l' where d: "deallocate (Some a) (pools g c) (caches g t) = (p', l')" by fastforce
  from deallocate_spec(2) [OF d] d assms show ?thesis by (simp add: manager_deallocate_def free_blocks_def)
qed

lemma manager_allocate_blocks:
  assumes cls: "size_to_class sz = int c" and u: "usable (pools g c)" and m: "manager_allocate t sz mem g = (sys, a, g')"
  shows "add_mset a (free_blocks g' t c) = free_blocks g t c + added_blocks g t c mem"
proof -
  obtain s' a' p' l' where al: "allocate mem (pools g c) (caches g t) = (s', a', p', l')" by (metis prod_cases4)
  then have e: "a' = a" "g' = g\<lparr>pools := (pools g)(c := p'), caches := (caches g)(t := l')\<rparr>"
    using m cls by (simp_all add: manager_allocate_def)
  have lst: "add_mset (last xs) (mset (butlast xs)) = mset xs" if "xs \<noteq> []" for xs :: "nat list"
    using that by (metis append_butlast_last_id mset.simps(2) mset_append union_mset_add_mset_right add_0_right mset.simps(1))
  have lim: "0 < localCacheLimit (pools g c)" using u by (simp add: usable_def)
  from al lim show ?thesis
  proof (cases rule: allocate_cases)
    case cached
    with lst [OF cached(1)] e show ?thesis by (simp add: free_blocks_def added_blocks_def)
  next
    case (refilled l1)
    have "globalFreeList (pools g c) \<noteq> []" using refilled(1,3,7) by auto
    moreover have "add_mset a (mset l' + mset (globalFreeList p')) = mset (globalFreeList (pools g c))"
      using lst [OF refilled(3)] refilled(1,4,5,7) e(1) by (metis union_mset_add_mset_left mset_append append_Nil)
    ultimately show ?thesis using refilled(1) e by (simp add: free_blocks_def added_blocks_def)
  next
    case chunk
    have "chunk_blocks (pools g c) mem \<noteq> []" using u by (simp add: chunk_blocks_def usable_def)
    from lst [OF this] have "add_mset a (mset l') = mset (chunk_blocks (pools g c) mem)" using chunk e(1) by simp
    then show ?thesis using chunk e by (simp add: free_blocks_def added_blocks_def)
  qed
qed

subsection \<open>Lifetimes\<close>

definition constructed :: "nat \<Rightarrow> nat \<Rightarrow> nat \<Rightarrow> lifetime list" where
  "constructed s p n = map (\<lambda>i. Constructed (p + i * s)) [0..<n]"

lemma construct_elements_events:
  "construct_elements ctor s p i k w = (ev, r, w') \<Longrightarrow>
   \<exists>j \<le> k. ev = map (\<lambda>i. Constructed (p + i * s)) [i..<i + j] \<and> (r = None \<longleftrightarrow> j = k)"
proof (induction k arbitrary: i w ev)
  case (Suc k)
  obtain x w1 where c: "ctor w (p + i * s) = (x, w1)" by fastforce
  show ?case
  proof (cases x)
    case None
    obtain ev1 where e: "construct_elements ctor s p (Suc i) k w1 = (ev1, r, w')" "ev = Constructed (p + i * s) # ev1"
      using Suc.prems c None by (auto split: prod.splits)
    from Suc.IH [OF e(1)] obtain j where "j \<le> k" "ev1 = map (\<lambda>i. Constructed (p + i * s)) [Suc i..<Suc i + j]" "r = None \<longleftrightarrow> j = k"
      by blast
    with e(2) show ?thesis by (intro exI [of _ "Suc j"]) (simp add: upt_conv_Cons)
  next
    case (Some e)
    with Suc.prems c show ?thesis by (intro exI [of _ 0]) auto
  qed
qed simp

text \<open>What the two outcomes of an array allocation leave behind.\<close>

lemma alloc_array_cases:
  assumes "alloc_array ctor sizeofT n t mem g w = (res, ev, g', w')"
  obtains (allocated) sys p where "res = Inr p" "manager_allocate t (sizeofT * n) mem g = (sys, p, g')" "ev = constructed (unat sizeofT) p (unat n)"
    | (failed) sys p g1 e k where "res = Inl e" "manager_allocate t (sizeofT * n) mem g = (sys, p, g1)" "k < unat n"
        "ev = constructed (unat sizeofT) p k @ destroy_elements (unat sizeofT) p (unat n)"
        "g' = manager_deallocate t p (sizeofT * n) g1"
proof -
  obtain sys p g1 where m: "manager_allocate t (sizeofT * n) mem g = (sys, p, g1)" by (metis prod_cases3)
  obtain ev1 r w1 where c: "construct_elements ctor (unat sizeofT) p 0 (unat n) w = (ev1, r, w1)" by (metis prod_cases3)
  from construct_elements_events [OF c] obtain j where j: "j \<le> unat n" "ev1 = constructed (unat sizeofT) p j" "r = None \<longleftrightarrow> j = unat n"
    by (auto simp: constructed_def)
  show thesis
  proof (cases r)
    case None
    with j m c assms show ?thesis by (intro allocated [of p sys]) (auto simp: alloc_array_def)
  next
    case (Some e)
    with j m c assms show ?thesis by (intro failed [of e sys p g1 j]) (auto simp: alloc_array_def)
  qed
qed

text \<open>A thread with one cached block, for the concrete cases below.\<close>

definition cached_manager :: manager where
  "cached_manager = new_manager\<lparr>caches := (\<lambda>_. [4096])\<rparr>"

lemma cached_manager_simps:
  "usable (pools cached_manager c)" "size_to_class 8 = int 0"
  "manager_allocate t 8 mem cached_manager = (False, 4096, cached_manager\<lparr>caches := (caches cached_manager)(t := [])\<rparr>)"
  by (simp_all add: cached_manager_def usable_def new_manager_def new_pool_def size_to_class_spec manager_allocate_def allocate_def fun_eq_iff)

lemma construct_two:
  "construct_elements ctor s p i 2 w = construct_elements ctor s p i (Suc (Suc 0)) w"
  by (simp only: numeral_2_eq_2)

lemma unat_2: "unat (2 :: 64 word) = Suc (Suc 0)"
  by simp_all

subsection \<open>Properties\<close>

text \<open>
  C33: an array that was allocated and is deallocated again: every element is constructed once, in order,
  and then destroyed once, in order, and the free blocks are those from before, with the blocks of a new
  chunk if there was no free block.
\<close>

theorem array_roundtrip:
  assumes "size_to_class (sizeofT * n) = int c" and "usable (pools g c)"
    and "alloc_array ctor sizeofT n t mem g w = (Inr p, ev, g1, w')"
    and "dealloc_array sizeofT (Some p) n t g1 = (ev', g2)"
  shows "ev = map (\<lambda>i. Constructed (p + i * unat sizeofT)) [0..<unat n]
    \<and> ev' = map (\<lambda>i. Destroyed (p + i * unat sizeofT)) [0..<unat n]
    \<and> free_blocks g2 t c = free_blocks g t c + added_blocks g t c mem"
  using assms(3)
proof (cases rule: alloc_array_cases)
  case (allocated sys q)
  then show ?thesis
    using assms(4) manager_deallocate_blocks [OF assms(1), of t p g1] manager_allocate_blocks [OF assms(1,2), of t mem]
    by (auto simp: dealloc_array_def constructed_def destroy_elements_def)
qed simp

theorem array_roundtrip_witness:
  "\<exists>g1 g2 w'. alloc_array (\<lambda>w q. (None, Suc w)) 4 2 0 65536 cached_manager 0 = (Inr 4096, [Constructed 4096, Constructed 4100], g1, w')
     \<and> dealloc_array 4 (Some 4096) 2 0 g1 = ([Destroyed 4096, Destroyed 4100], g2) \<and> free_blocks g2 0 0 = {#4096#}"
proof -
  obtain ev g1 w' where a: "alloc_array (\<lambda>w q. (None, Suc w)) 4 2 0 65536 cached_manager 0 = (Inr 4096, ev, g1, w')"
    by (simp add: alloc_array_def cached_manager_simps construct_two)
  obtain ev' g2 where d: "dealloc_array 4 (Some 4096) 2 0 g1 = (ev', g2)" by fastforce
  have u: "[0..<unat (2 :: 64 word)] = [0, 1]" unfolding unat_2 by simp
  from array_roundtrip [OF _ cached_manager_simps(1) a d, of 0] show ?thesis
    using a d unfolding u by (simp add: cached_manager_simps) (simp add: cached_manager_def free_blocks_def added_blocks_def new_manager_def new_pool_def)
qed

text \<open>
  C38: if the constructor of an element throws, whichever constructor it is, the block goes back to
  the pool and the exception to the caller, but all \<open>n\<close> elements are destroyed although only the first \<open>k\<close>
  were constructed, with \<open>k < n\<close>.
\<close>

theorem array_failure_destroys_all:
  assumes "size_to_class (sizeofT * n) = int c" and "usable (pools g c)"
    and "alloc_array ctor sizeofT n t mem g w = (Inl e, ev, g', w')"
  shows "free_blocks g' t c = free_blocks g t c + added_blocks g t c mem
    \<and> (\<exists>p k. k < unat n \<and> ev = map (\<lambda>i. Constructed (p + i * unat sizeofT)) [0..<k] @ map (\<lambda>i. Destroyed (p + i * unat sizeofT)) [0..<unat n])"
  using assms(3)
proof (cases rule: alloc_array_cases)
  case (failed sys p g1 e k)
  then show ?thesis
    using manager_deallocate_blocks [OF assms(1), of t p g1] manager_allocate_blocks [OF assms(1,2), of t mem]
    by (auto simp: constructed_def destroy_elements_def)
qed simp

theorem array_failure_destroys_all_witness:
  "\<exists>g' w' p k ev. alloc_array (\<lambda>w q. (if w = 1 then Some (RuntimeError []) else None, Suc w)) 4 2 0 65536 cached_manager 0
       = (Inl (RuntimeError []), ev, g', w')
     \<and> k < 2 \<and> ev = map (\<lambda>i. Constructed (p + i * 4)) [0..<k] @ [Destroyed p, Destroyed (p + 4)]"
proof -
  obtain ev g' w' where a: "alloc_array (\<lambda>w q. (if w = 1 then Some (RuntimeError []) else None, Suc w)) 4 2 0 65536 cached_manager 0
      = (Inl (RuntimeError []), ev, g', w')"
    by (simp add: alloc_array_def cached_manager_simps construct_two)
  have u: "[0..<unat (2 :: 64 word)] = [0, 1]" unfolding unat_2 by simp
  from array_failure_destroys_all [OF _ cached_manager_simps(1) a, of 0] show ?thesis
    using a unfolding u by (simp add: cached_manager_simps)
qed

end
