(* ===== verification/Generator.thy ===== *)
theory Generator
  imports Transition
begin

text \<open>
  The generator of \<open>include/coro/Generator.hpp\<close>. The body of the coroutine is an argument: what it does
  from one suspension to the next is to yield a value, to return or to throw, and it may go on for ever, so
  that bodies are a codatatype. The frames of coroutines are in a store from handles to frames, where a
  destroyed frame is absent, since a generator and its iterators hold copies of one handle. A null handle
  is \<open>None\<close>. Using the handle of a destroyed frame and resuming a finished coroutine are undefined, and the
  result is then \<open>None\<close>.
\<close>

codatatype 'a coroutine = Yields 'a "'a coroutine" | Returns | Throws exn

subsection \<open>Frames\<close>

record 'a frame =
  rest :: "'a coroutine"
  value_ptr :: "'a option"
  exception_ptr :: "exn option"
  finished :: bool

type_synonym 'a store = "nat \<Rightarrow> 'a frame option"

definition new_frame :: "'a coroutine \<Rightarrow> 'a frame" where
  "new_frame b = \<lparr>rest = b, value_ptr = None, exception_ptr = None, finished = False\<rparr>"

text \<open>One resumption: \<open>yield_value\<close>, \<open>return_void\<close> or \<open>unhandled_exception\<close>, the last two before the final suspension.\<close>

definition run_frame :: "'a frame \<Rightarrow> 'a frame" where
  "run_frame f =
     (case rest f of
        Yields x b \<Rightarrow> f\<lparr>value_ptr := Some x, rest := b\<rparr>
      | Returns \<Rightarrow> f\<lparr>finished := True\<rparr>
      | Throws e \<Rightarrow> f\<lparr>exception_ptr := Some e, finished := True\<rparr>)"

subsection \<open>Iterators\<close>

record iterator =
  coro :: "nat option"
  is_end :: bool

definition end_iterator :: iterator where
  "end_iterator = \<lparr>coro = None, is_end = True\<rparr>"

definition handle_iterator :: "nat option \<Rightarrow> 'a store \<Rightarrow> iterator option" where
  "handle_iterator c st =
     (case c of
        None \<Rightarrow> Some \<lparr>coro = None, is_end = True\<rparr>
      | Some h \<Rightarrow> (case st h of None \<Rightarrow> None | Some f \<Rightarrow> Some \<lparr>coro = Some h, is_end = finished f\<rparr>))"

definition increment :: "iterator \<Rightarrow> 'a store \<Rightarrow> (iterator result \<times> 'a store) option" where
  "increment it st =
     (if is_end it then Some (Inr it, st)
      else
        case coro it of
          None \<Rightarrow> Some (Inr (it\<lparr>is_end := True\<rparr>), st)
        | Some h \<Rightarrow>
            (case st h of
               None \<Rightarrow> None
             | Some f \<Rightarrow>
                 if finished f then Some (Inr (it\<lparr>is_end := True\<rparr>), st)
                 else
                   let f1 = run_frame f; st1 = st(h \<mapsto> f1) in
                   if finished f1 then Some (Inr (it\<lparr>is_end := True\<rparr>), st1)
                   else
                     case exception_ptr f1 of
                       Some e \<Rightarrow> Some (Inl e, st1)
                     | None \<Rightarrow> Some (Inr it, st1)))"

definition dereference :: "iterator \<Rightarrow> 'a store \<Rightarrow> 'a result option" where
  "dereference it st =
     (if is_end it then Some (Inl (RuntimeError ''Cannot dereference ended iterator''))
      else
        case coro it of
          None \<Rightarrow> Some (Inl (RuntimeError ''Cannot dereference ended iterator''))
        | Some h \<Rightarrow>
            (case st h of
               None \<Rightarrow> None
             | Some f \<Rightarrow>
                 Some (if finished f then Inl (RuntimeError ''Cannot dereference ended iterator'')
                       else case value_ptr f of None \<Rightarrow> Inl BadOptionalAccess | Some x \<Rightarrow> Inr x)))"

definition iterator_eq :: "iterator \<Rightarrow> iterator \<Rightarrow> bool" where
  "iterator_eq a b =
     (if is_end a \<and> is_end b then True else if is_end a \<noteq> is_end b then False else coro a = coro b)"

definition iterator_neq :: "iterator \<Rightarrow> iterator \<Rightarrow> bool" where
  "iterator_neq a b = (\<not> iterator_eq a b)"

subsection \<open>Generators\<close>

text \<open>A generator is the handle it holds.\<close>

definition gen_end :: iterator where
  "gen_end = end_iterator"

definition gen_begin :: "nat option \<Rightarrow> 'a store \<Rightarrow> (iterator result \<times> 'a store) option" where
  "gen_begin c st =
     (case c of
        None \<Rightarrow> Some (Inr end_iterator, st)
      | Some h \<Rightarrow>
          (case st h of
             None \<Rightarrow> None
           | Some f \<Rightarrow>
               if finished f then Some (Inr end_iterator, st)
               else
                 (case handle_iterator (Some h) st of
                    None \<Rightarrow> None
                  | Some it \<Rightarrow>
                      if is_end it then Some (Inr it, st)
                      else
                        let f1 = run_frame f; st1 = st(h \<mapsto> f1) in
                        if finished f1 then Some (Inr (it\<lparr>is_end := True\<rparr>), st1)
                        else
                          case exception_ptr f1 of
                            Some e \<Rightarrow> Some (Inl e, st1)
                          | None \<Rightarrow> Some (Inr it, st1))))"

definition gen_next :: "nat option \<Rightarrow> 'a store \<Rightarrow> (bool result \<times> 'a store) option" where
  "gen_next c st =
     (case c of
        None \<Rightarrow> Some (Inr False, st)
      | Some h \<Rightarrow>
          (case st h of
             None \<Rightarrow> None
           | Some f \<Rightarrow>
               if finished f then Some (Inr False, st)
               else
                 let f1 = run_frame f; st1 = st(h \<mapsto> f1) in
                 if finished f1 then Some (Inr False, st1)
                 else
                   case exception_ptr f1 of
                     Some e \<Rightarrow> Some (Inl e, st1)
                   | None \<Rightarrow> Some (Inr True, st1)))"

definition gen_bool :: "nat option \<Rightarrow> 'a store \<Rightarrow> bool option" where
  "gen_bool c st =
     (case c of None \<Rightarrow> Some False | Some h \<Rightarrow> map_option (\<lambda>f. \<not> finished f) (st h))"

lemmas iterator_defs = iterator_neq_def iterator_eq_def gen_end_def end_iterator_def

text \<open>
  A loop over a range, as the language defines it by \<open>begin\<close>, the comparison with \<open>end\<close>, dereferencing and
  incrementing, for at most \<open>n\<close> rounds. The flag says whether the loop ended by itself.
\<close>

primrec range_rounds :: "nat \<Rightarrow> iterator \<Rightarrow> 'a store \<Rightarrow> (('a list \<times> bool) result \<times> 'a store) option" where
  "range_rounds 0 it st = Some (Inr ([], \<not> iterator_neq it gen_end), st)"
| "range_rounds (Suc n) it st =
     (if \<not> iterator_neq it gen_end then Some (Inr ([], True), st)
      else
        case dereference it st of
          None \<Rightarrow> None
        | Some (Inl e) \<Rightarrow> Some (Inl e, st)
        | Some (Inr x) \<Rightarrow>
            (case increment it st of
               None \<Rightarrow> None
             | Some (Inl e, st1) \<Rightarrow> Some (Inl e, st1)
             | Some (Inr it1, st1) \<Rightarrow>
                 (case range_rounds n it1 st1 of
                    None \<Rightarrow> None
                  | Some (Inl e, st2) \<Rightarrow> Some (Inl e, st2)
                  | Some (Inr (xs, b), st2) \<Rightarrow> Some (Inr (x # xs, b), st2))))"

definition range_for :: "nat \<Rightarrow> nat option \<Rightarrow> 'a store \<Rightarrow> (('a list \<times> bool) result \<times> 'a store) option" where
  "range_for n c st =
     (case gen_begin c st of
        None \<Rightarrow> None
      | Some (Inl e, st1) \<Rightarrow> Some (Inl e, st1)
      | Some (Inr it, st1) \<Rightarrow> range_rounds n it st1)"

subsection \<open>What a body produces\<close>

primrec yields :: "nat \<Rightarrow> 'a coroutine \<Rightarrow> 'a list" where
  "yields 0 b = []"
| "yields (Suc n) b = (case b of Yields x c \<Rightarrow> x # yields n c | Returns \<Rightarrow> [] | Throws e \<Rightarrow> [])"

text \<open>Whether the body ends after at most \<open>n\<close> values.\<close>

primrec ends :: "nat \<Rightarrow> 'a coroutine \<Rightarrow> bool" where
  "ends 0 b = (case b of Yields x c \<Rightarrow> False | Returns \<Rightarrow> True | Throws e \<Rightarrow> True)"
| "ends (Suc n) b = (case b of Yields x c \<Rightarrow> ends n c | Returns \<Rightarrow> True | Throws e \<Rightarrow> True)"

primrec yielding :: "'a list \<Rightarrow> 'a coroutine \<Rightarrow> 'a coroutine" where
  "yielding [] b = b"
| "yielding (x # xs) b = Yields x (yielding xs b)"

lemma yields_yielding: "yields (length xs + n) (yielding xs b) = xs @ yields n b"
  by (induction xs) simp_all

lemma ends_yielding: "ends (length xs + n) (yielding xs b) = ends n b"
  by (induction xs) simp_all

text \<open>An iterator that stands on the value \<open>x\<close>, the body being about to do \<open>b\<close>.\<close>

lemma range_rounds_at:
  assumes "st h = Some \<lparr>rest = b, value_ptr = Some x, exception_ptr = None, finished = False\<rparr>"
  shows "\<exists>st'. range_rounds n \<lparr>coro = Some h, is_end = False\<rparr> st = Some (Inr (yields n (Yields x b), ends n (Yields x b)), st')
      \<and> (\<forall>xs e. b = yielding xs (Throws e) \<longrightarrow> length xs < n \<longrightarrow> map_option exception_ptr (st' h) = Some (Some e))"
  using assms
proof (induction n arbitrary: b x st)
  case 0
  then show ?case by (simp add: iterator_defs)
next
  case (Suc n)
  show ?case
  proof (cases b)
    case (Yields y c)
    let ?st = "st(h \<mapsto> \<lparr>rest = c, value_ptr = Some y, exception_ptr = None, finished = False\<rparr>)"
    have "?st h = Some \<lparr>rest = c, value_ptr = Some y, exception_ptr = None, finished = False\<rparr>" by simp
    from Suc.IH [where st = ?st, OF this] obtain st' where r: "range_rounds n \<lparr>coro = Some h, is_end = False\<rparr> ?st = Some (Inr (yields n (Yields y c), ends n (Yields y c)), st')"
      and e: "\<forall>xs e. c = yielding xs (Throws e) \<longrightarrow> length xs < n \<longrightarrow> map_option exception_ptr (st' h) = Some (Some e)"
      by blast
    have "\<forall>xs e. b = yielding xs (Throws e) \<longrightarrow> length xs < Suc n \<longrightarrow> map_option exception_ptr (st' h) = Some (Some e)"
    proof (intro allI impI)
      fix xs e assume xs: "b = yielding xs (Throws e)" "length xs < Suc n"
      then obtain ys where "xs = y # ys" using Yields by (cases xs) auto
      with xs Yields e show "map_option exception_ptr (st' h) = Some (Some e)" by auto
    qed
    with Suc.prems Yields r show ?thesis
      by (auto simp: iterator_defs dereference_def increment_def run_frame_def Let_def)
  next
    case Returns
    then have "b \<noteq> yielding xs (Throws e)" for xs e by (cases xs) auto
    with Suc.prems Returns show ?thesis
      by (cases n) (auto simp: iterator_defs dereference_def increment_def run_frame_def Let_def)
  next
    case (Throws e0)
    then have "b = yielding xs (Throws e) \<Longrightarrow> e = e0" for xs e by (cases xs) auto
    with Suc.prems Throws show ?thesis
      by (cases n) (auto simp: iterator_defs dereference_def increment_def run_frame_def Let_def)
  qed
qed

subsection \<open>Ownership of frames\<close>

text \<open>
  A program with generators in variables. A variable that does not exist is \<open>None\<close>, one with an empty
  generator is \<open>Some None\<close>. Destroying a frame that is not there, or using it, sets \<open>misused\<close>.
\<close>

record 'a program =
  vars :: "nat \<Rightarrow> nat option option"
  frames :: "'a store"
  misused :: bool

definition new_program :: "'a program" where
  "new_program = \<lparr>vars = (\<lambda>_. None), frames = (\<lambda>_. None), misused = False\<rparr>"

definition destroy :: "nat option \<Rightarrow> 'a program \<Rightarrow> 'a program" where
  "destroy c s =
     (case c of
        None \<Rightarrow> s
      | Some h \<Rightarrow> if frames s h = None then s\<lparr>misused := True\<rparr> else s\<lparr>frames := (frames s)(h := None)\<rparr>)"

datatype 'a gen_label =
    Call nat nat "'a coroutine"
  | DefaultConstruct nat
  | MoveConstruct nat nat
  | MoveAssign nat nat
  | Destruct nat
  | Next nat

text \<open>Calling a coroutine allocates a new frame, suspended at the start, and returns a generator for it.\<close>

fun gen_step :: "'a gen_label \<Rightarrow> 'a program \<Rightarrow> 'a program option" where
  "gen_step (Call v h b) s =
     (if vars s v = None \<and> frames s h = None
      then Some (s\<lparr>vars := (vars s)(v \<mapsto> Some h), frames := (frames s)(h \<mapsto> new_frame b)\<rparr>) else None)"
| "gen_step (DefaultConstruct v) s = (if vars s v = None then Some (s\<lparr>vars := (vars s)(v \<mapsto> None)\<rparr>) else None)"
| "gen_step (MoveConstruct v w) s =
     (case vars s w of
        None \<Rightarrow> None
      | Some c \<Rightarrow> if vars s v = None then Some (s\<lparr>vars := (vars s)(w \<mapsto> None, v \<mapsto> c)\<rparr>) else None)"
| "gen_step (MoveAssign v w) s =
     (case (vars s v, vars s w) of
        (Some c, Some d) \<Rightarrow>
          if v \<noteq> w then Some (let s1 = destroy c s in s1\<lparr>vars := (vars s1)(w \<mapsto> None, v \<mapsto> d)\<rparr>) else Some s
      | _ \<Rightarrow> None)"
| "gen_step (Destruct v) s =
     (case vars s v of
        None \<Rightarrow> None
      | Some c \<Rightarrow> Some (let s1 = destroy c s in s1\<lparr>vars := (vars s1)(v := None)\<rparr>))"
| "gen_step (Next v) s =
     (case vars s v of
        None \<Rightarrow> None
      | Some c \<Rightarrow>
          (case gen_next c (frames s) of
             None \<Rightarrow> Some (s\<lparr>misused := True\<rparr>)
           | Some (_, st) \<Rightarrow> Some (s\<lparr>frames := st\<rparr>)))"

definition owned :: "'a program \<Rightarrow> bool" where
  "owned s \<longleftrightarrow> \<not> misused s
     \<and> (\<forall>h. frames s h \<noteq> None \<longleftrightarrow> (\<exists>v. vars s v = Some (Some h)))
     \<and> (\<forall>v w h. vars s v = Some (Some h) \<longrightarrow> vars s w = Some (Some h) \<longrightarrow> v = w)"

lemma gen_next_dom:
  assumes "gen_next c st = Some (r, st')"
  shows "st' h \<noteq> None \<longleftrightarrow> st h \<noteq> None"
  using assms by (auto simp: gen_next_def Let_def split: option.splits if_splits)

lemma gen_next_defined: "(\<And>h. c = Some h \<Longrightarrow> st h \<noteq> None) \<Longrightarrow> gen_next c st \<noteq> None"
  by (auto simp: gen_next_def Let_def split: option.splits)


lemma destroy_release:
  assumes "owned s" "vars s v = Some c" "x = None \<or> x = Some None"
  shows "owned ((destroy c s)\<lparr>vars := (vars s)(v := x)\<rparr>)"
  using assms unfolding owned_def destroy_def by (cases c) (auto split: if_splits; metis option.inject option.distinct(1))+

lemma owned_move:
  assumes "owned s" "vars s w = Some c" "vars s v = None \<or> vars s v = Some None" "v \<noteq> w"
  shows "owned (s\<lparr>vars := (vars s)(w \<mapsto> None, v \<mapsto> c)\<rparr>)"
proof -
  have "(\<exists>u. ((vars s)(w \<mapsto> None, v \<mapsto> c)) u = Some (Some h)) \<longleftrightarrow> (\<exists>u. vars s u = Some (Some h))" for h
    using assms(2-4) by (metis fun_upd_apply option.distinct(1) option.sel)
  then show ?thesis using assms unfolding owned_def by simp (metis option.distinct(1) option.sel)
qed

lemma owned_step: "owned s \<Longrightarrow> gen_step l s = Some s' \<Longrightarrow> owned s'"
proof (cases l)
  case (MoveAssign v w)
  assume o: "owned s" and st: "gen_step l s = Some s'"
  from st MoveAssign obtain c d where cd: "vars s v = Some c" "vars s w = Some d" by (auto split: option.splits)
  show ?thesis
  proof (cases "v = w")
    case False
    let ?s = "(destroy c s)\<lparr>vars := (vars s)(v \<mapsto> None)\<rparr>"
    have f: "vars (destroy c s) = vars s" by (auto simp: destroy_def split: option.splits)
    have "owned ?s" by (rule destroy_release [OF o cd(1)]) simp
    then have "owned (?s\<lparr>vars := (vars ?s)(w \<mapsto> None, v \<mapsto> d)\<rparr>)" using cd False by (intro owned_move) auto
    with False cd st MoveAssign f show ?thesis by (simp add: fun_upd_twist)
  qed (use o st cd MoveAssign in simp)
next
  case (Destruct v)
  assume o: "owned s" and st: "gen_step l s = Some s'"
  from st Destruct obtain c where c: "vars s v = Some c" by (auto split: option.splits)
  have f: "vars (destroy c s) = vars s" by (auto simp: destroy_def split: option.splits)
  from destroy_release [OF o c, of None] st Destruct c f show ?thesis by simp
next
  case (Next v)
  assume o: "owned s" and st: "gen_step l s = Some s'"
  from st Next obtain c where c: "vars s v = Some c" by (auto split: option.splits)
  have "gen_next c (frames s) \<noteq> None" using o c by (intro gen_next_defined) (auto simp: owned_def)
  then obtain r st' where n: "gen_next c (frames s) = Some (r, st')" by auto
  have s': "s' = s\<lparr>frames := st'\<rparr>" using st Next c n by simp
  show ?thesis unfolding s' using gen_next_dom [OF n] o by (simp add: owned_def)
next
  case (MoveConstruct v w)
  assume o: "owned s" and st: "gen_step l s = Some s'"
  from st MoveConstruct obtain c where c: "vars s w = Some c" "vars s v = None" "s' = s\<lparr>vars := (vars s)(w \<mapsto> None, v \<mapsto> c)\<rparr>"
    by (auto split: option.splits if_splits)
  then show ?thesis using o by (auto intro!: owned_move)
qed (auto simp: owned_def split: if_splits; metis option.inject option.distinct(1))+

interpretation go: system_invariant gen_step new_program owned
  by unfold_locales (simp add: owned_def new_program_def, rule owned_step)

subsection \<open>Properties\<close>

text \<open>
  C19: a loop over the range of a fresh generator gets the values that the body yields, in order and each
  once, for at most \<open>n\<close> rounds and any \<open>n\<close>, so also for bodies that never end; it ends by itself exactly when
  the body ends after at most \<open>n\<close> values. Nothing is undefined and nothing is thrown.
\<close>

theorem range_for_yields:
  "\<exists>st'. range_for n (Some h) (st(h \<mapsto> new_frame b)) = Some (Inr (yields n b, ends n b), st')"
proof (cases b)
  case (Yields x c)
  let ?st = "st(h \<mapsto> \<lparr>rest = c, value_ptr = Some x, exception_ptr = None, finished = False\<rparr>)"
  have "?st h = Some \<lparr>rest = c, value_ptr = Some x, exception_ptr = None, finished = False\<rparr>" by simp
  from range_rounds_at [where st = ?st, OF this, of n] Yields show ?thesis
    by (auto simp: range_for_def gen_begin_def handle_iterator_def run_frame_def new_frame_def Let_def)
qed (cases n; simp add: range_for_def gen_begin_def handle_iterator_def run_frame_def new_frame_def iterator_defs Let_def)+

text \<open>
  An exception that leaves the body is lost: for a body that yields \<open>xs\<close> and then throws, the loop gets
  \<open>xs\<close> and ends as if the body had returned. The exception is in the promise, where nobody looks at it,
  since the coroutine is then done and the test of \<open>exception_\<close> is in the other branch.
\<close>

lemma generator_swallows_exception:
  "\<exists>st'. range_for (length xs + n) (Some h) (st(h \<mapsto> new_frame (yielding xs (Throws e)))) = Some (Inr (xs, True), st')
     \<and> map_option exception_ptr (st' h) = Some (Some e)"
proof (cases xs)
  case Nil
  then show ?thesis
    by (cases n) (simp_all add: range_for_def gen_begin_def handle_iterator_def run_frame_def new_frame_def iterator_defs Let_def)
next
  case (Cons x ys)
  let ?b = "yielding ys (Throws e)"
  let ?st = "st(h \<mapsto> \<lparr>rest = ?b, value_ptr = Some x, exception_ptr = None, finished = False\<rparr>)"
  have "?st h = Some \<lparr>rest = ?b, value_ptr = Some x, exception_ptr = None, finished = False\<rparr>" by simp
  from range_rounds_at [where st = ?st, OF this, of "length xs + n"] Cons
  obtain st' where "range_rounds (length xs + n) \<lparr>coro = Some h, is_end = False\<rparr> ?st
      = Some (Inr (yields (length xs + n) (yielding xs (Throws e)), ends (length xs + n) (yielding xs (Throws e))), st')"
    "map_option exception_ptr (st' h) = Some (Some e)" by auto
  moreover have "ends n (Throws e)" "yields n (Throws e) = []" by (cases n; simp)+
  ultimately show ?thesis using Cons unfolding yields_yielding ends_yielding
    by (auto simp: range_for_def gen_begin_def handle_iterator_def run_frame_def new_frame_def Let_def)
qed

text \<open>
  C26: however a program calls coroutines and moves, assigns, advances and destroys generators, no frame is
  destroyed twice or used after it was destroyed, every frame belongs to exactly one generator, and no
  frame is left behind without one.
\<close>

theorem generator_frames_owned:
  assumes "reach gen_step new_program s"
  shows "\<not> misused s \<and> (frames s h \<noteq> None \<longleftrightarrow> (\<exists>!v. vars s v = Some (Some h)))"
  using go.always [OF assms] unfolding owned_def by blast

theorem generator_frames_owned_witness:
  "\<exists>s :: nat program. reach gen_step new_program s \<and> \<not> misused s \<and> frames s 8 = None \<and> (\<exists>!v. vars s v = Some (Some 16))"
proof -
  let ?ls = "[Call 0 8 Returns, Call 1 16 (Yields 5 Returns), Next 1, MoveAssign 0 1, Destruct 1] :: nat gen_label list"
  obtain s where s: "run_labels gen_step ?ls new_program = Some s" "frames s 8 = None" "frames s 16 \<noteq> None"
    by (simp add: new_program_def destroy_def gen_next_def Let_def run_frame_def new_frame_def)
  with generator_frames_owned [OF reach_run [OF s(1)], of 16] reach_run [OF s(1)] show ?thesis by blast
qed

end
