(* ===== verification/Awaitable.thy ===== *)
theory Awaitable
  imports Transition
begin

text \<open>
  The awaitable coroutines of \<open>include/coro/Awaitable.hpp\<close>. The body of a coroutine is an argument, a tree:
  it returns, throws, awaits the coroutine that it calls and goes on with its value or exception, or
  awaits an awaiter of another class, which is told apart by a key of type \<open>'k\<close>. What such an awaiter does
  with the handle is an argument too.

  A frame has the promise and the point at which the coroutine is suspended. The machine below runs one
  worker of the executor: it takes a handle from the queue of the thread pool and resumes it, and
  the coroutine runs to its next suspension; at its final suspension it resumes the awaiting
  coroutine in the same thread. An absent frame is \<open>None\<close>. What is undefined, or a failed assertion, is
  the control state \<open>Undefined\<close>.
\<close>

datatype ('v, 'k) coro_body =
    Ret 'v
  | Raise exn
  | Await "('v, 'k) coro_body" "'v result \<Rightarrow> ('v, 'k) coro_body"
  | AwaitOther 'k "('v, 'k) coro_body"

datatype ('v, 'k) point =
    Start "('v, 'k) coro_body"
  | AwaitingChild nat "'v result \<Rightarrow> ('v, 'k) coro_body"
  | Running
  | AtFinal

record ('v, 'k) promise =
  executor :: bool
  awaiting :: "nat option"
  promise_value :: "'v option"
  promise_exception :: "exn option"
  point :: "('v, 'k) point"

datatype ('v, 'k) control = Idle | Resume "nat option" | Exec nat "('v, 'k) coro_body" | Undefined

record ('v, 'k) world =
  promises :: "nat \<Rightarrow> ('v, 'k) promise option"
  next_handle :: nat
  pool_tasks :: "nat option list"
  control :: "('v, 'k) control"

text \<open>Calling a coroutine: a frame at the initial suspension, with an empty promise.\<close>

definition new_promise :: "('v, 'k) coro_body \<Rightarrow> ('v, 'k) promise" where
  "new_promise b = \<lparr>executor = False, awaiting = None, promise_value = None, promise_exception = None, point = Start b\<rparr>"

definition call :: "('v, 'k) coro_body \<Rightarrow> ('v, 'k, 'm) world_scheme \<Rightarrow> nat \<times> ('v, 'k, 'm) world_scheme" where
  "call b s = (next_handle s, s\<lparr>promises := (promises s)(next_handle s \<mapsto> new_promise b), next_handle := next_handle s + 1\<rparr>)"

definition make_awaitable :: "nat option \<Rightarrow> nat result" where
  "make_awaitable c = (case c of None \<Rightarrow> Inl (InvalidArgument ''Coroutine handle is null'') | Some h \<Rightarrow> Inr h)"

text \<open>\<open>co_await\<close> of an awaitable: the executor is passed on, then the awaiting handle is stored and the child queued.\<close>

definition await_transform :: "bool \<Rightarrow> ('v, 'k) promise \<Rightarrow> ('v, 'k) promise" where
  "await_transform ex p = p\<lparr>executor := ex\<rparr>"

definition await_suspend :: "nat \<Rightarrow> nat \<Rightarrow> ('v, 'k, 'm) world_scheme \<Rightarrow> ('v, 'k, 'm) world_scheme" where
  "await_suspend child h s =
     (case promises s child of
        None \<Rightarrow> s\<lparr>control := Undefined\<rparr>
      | Some p \<Rightarrow>
          if \<not> executor p then s\<lparr>control := Undefined\<rparr>
          else
            s\<lparr>promises := (promises s)(child \<mapsto> p\<lparr>awaiting := Some h\<rparr>),
              pool_tasks := pool_tasks s @ [Some child], control := Idle\<rparr>)"

definition await_resume :: "('v, 'k) promise \<Rightarrow> 'v result" where
  "await_resume p =
     (case promise_exception p of
        Some e \<Rightarrow> Inl e
      | None \<Rightarrow> (case promise_value p of None \<Rightarrow> Inl BadOptionalAccess | Some v \<Rightarrow> Inr v))"

text \<open>
  Destroying, moving and assigning awaitables: an awaitable is its handle. A move gives the new
  awaitable and the one moved from; an assignment is to a different object.
\<close>

definition awaitable_destroy :: "nat option \<Rightarrow> ('v, 'k, 'm) world_scheme \<Rightarrow> ('v, 'k, 'm) world_scheme" where
  "awaitable_destroy c s =
     (case c of
        None \<Rightarrow> s
      | Some h \<Rightarrow> if promises s h = None then s\<lparr>control := Undefined\<rparr> else s\<lparr>promises := (promises s)(h := None)\<rparr>)"

definition awaitable_move :: "nat option \<Rightarrow> nat option \<times> nat option" where
  "awaitable_move other = (other, None)"

definition awaitable_assign :: "nat option \<Rightarrow> nat option \<Rightarrow> ('v, 'k, 'm) world_scheme \<Rightarrow> nat option \<times> nat option \<times> ('v, 'k, 'm) world_scheme" where
  "awaitable_assign this other s = (let s1 = awaitable_destroy this s in (other, None, s1))"

text \<open>\<open>return_value\<close> and \<open>unhandled_exception\<close>, followed by the final awaiter.\<close>

definition set_result :: "'v result \<Rightarrow> ('v, 'k) promise \<Rightarrow> ('v, 'k) promise" where
  "set_result r p = (case r of Inr v \<Rightarrow> p\<lparr>promise_value := Some v\<rparr> | Inl e \<Rightarrow> p\<lparr>promise_exception := Some e\<rparr>)"

definition finish :: "nat \<Rightarrow> 'v result \<Rightarrow> ('v, 'k, 'm) world_scheme \<Rightarrow> ('v, 'k, 'm) world_scheme" where
  "finish h r s =
     (case promises s h of
        None \<Rightarrow> s\<lparr>control := Undefined\<rparr>
      | Some p \<Rightarrow>
          let p2 = (set_result r p)\<lparr>point := AtFinal\<rparr>
          in s\<lparr>promises := (promises s)(h \<mapsto> p2),
               control := (case awaiting p2 of None \<Rightarrow> Idle | Some a \<Rightarrow> Resume (Some a))\<rparr>)"

text \<open>Resuming a handle. After \<open>await_resume\<close> the temporary awaitable is destroyed with its frame.\<close>

definition resume_handle :: "nat option \<Rightarrow> ('v, 'k, 'm) world_scheme \<Rightarrow> ('v, 'k, 'm) world_scheme" where
  "resume_handle c s =
     (case c of
        None \<Rightarrow> s\<lparr>control := Undefined\<rparr>
      | Some h \<Rightarrow>
          (case promises s h of
             None \<Rightarrow> s\<lparr>control := Undefined\<rparr>
           | Some p \<Rightarrow>
               (case point p of
                  Start b \<Rightarrow> s\<lparr>promises := (promises s)(h \<mapsto> p\<lparr>point := Running\<rparr>), control := Exec h b\<rparr>
                | AwaitingChild c k \<Rightarrow>
                    (case promises s c of
                       None \<Rightarrow> s\<lparr>control := Undefined\<rparr>
                     | Some q \<Rightarrow>
                         s\<lparr>promises := (promises s)(c := None, h \<mapsto> p\<lparr>point := Running\<rparr>), control := Exec h (k (await_resume q))\<rparr>)
                | Running \<Rightarrow> s\<lparr>control := Undefined\<rparr>
                | AtFinal \<Rightarrow> s\<lparr>control := Undefined\<rparr>)))"

definition suspend_child :: "nat \<Rightarrow> ('v, 'k) coro_body \<Rightarrow> ('v result \<Rightarrow> ('v, 'k) coro_body) \<Rightarrow> ('v, 'k, 'm) world_scheme \<Rightarrow> ('v, 'k, 'm) world_scheme" where
  "suspend_child h b k s =
     (case promises s h of
        None \<Rightarrow> s\<lparr>control := Undefined\<rparr>
      | Some p \<Rightarrow>
          let (c, s1) = call b s;
              s2 = s1\<lparr>promises := (promises s1)(c := map_option (await_transform (executor p)) (promises s1 c),
                        h \<mapsto> p\<lparr>point := AwaitingChild c k\<rparr>)\<rparr>
          in await_suspend c h s2)"

datatype 'k worker_label = Work | Wake 'k

text \<open>
  One step of the worker, or an event of the key \<open>k\<close>. The arguments are what an awaiter of another class
  does with the handle on suspension and what its event does.
\<close>

fun coro_step ::
    "('k \<Rightarrow> nat \<Rightarrow> ('v, 'k, 'm) world_scheme \<Rightarrow> ('v, 'k, 'm) world_scheme) \<Rightarrow>
     ('k \<Rightarrow> ('v, 'k, 'm) world_scheme \<Rightarrow> ('v, 'k, 'm) world_scheme) \<Rightarrow>
     'k worker_label \<Rightarrow> ('v, 'k, 'm) world_scheme \<Rightarrow> ('v, 'k, 'm) world_scheme option" where
  "coro_step suspend wake (Wake k) s = Some (wake k s)"
| "coro_step suspend wake Work s =
     (case control s of
        Idle \<Rightarrow> (case pool_tasks s of [] \<Rightarrow> None | c # q \<Rightarrow> Some (s\<lparr>pool_tasks := q, control := Resume c\<rparr>))
      | Resume c \<Rightarrow> Some (resume_handle c s)
      | Exec h b \<Rightarrow>
          (case b of
             Ret v \<Rightarrow> Some (finish h (Inr v) s)
           | Raise e \<Rightarrow> Some (finish h (Inl e) s)
           | Await c k \<Rightarrow> Some (suspend_child h c k s)
           | AwaitOther k b1 \<Rightarrow>
               (case promises s h of
                  None \<Rightarrow> Some (s\<lparr>control := Undefined\<rparr>)
                | Some p \<Rightarrow>
                    Some (suspend k h (s\<lparr>promises := (promises s)(h \<mapsto> p\<lparr>point := Start b1\<rparr>), control := Idle\<rparr>))))
      | Undefined \<Rightarrow> None)"

definition co_spawn :: "nat option \<Rightarrow> ('v, 'k, 'm) world_scheme \<Rightarrow> ('v, 'k, 'm) world_scheme result" where
  "co_spawn c s =
     (case c of
        None \<Rightarrow> Inl (InvalidArgument ''Coroutine handle is null'')
      | Some h \<Rightarrow>
          Inr (s\<lparr>promises := (promises s)(h := map_option (\<lambda>p. p\<lparr>executor := True\<rparr>) (promises s h)),
                 pool_tasks := pool_tasks s @ [Some h]\<rparr>))"

subsection \<open>The direct meaning of a body\<close>

text \<open>Calling instead of awaiting: what a body means without an executor, a queue and frames.\<close>

primrec eval_body :: "('v, 'k) coro_body \<Rightarrow> 'v result" where
  "eval_body (Ret v) = Inr v"
| "eval_body (Raise e) = Inl e"
| "eval_body (Await b k) = (let r = eval_body b in eval_body (k r))"
| "eval_body (AwaitOther key b) = eval_body b"

primrec of_result :: "'v result \<Rightarrow> ('v, 'k) coro_body" where
  "of_result (Inr v) = Ret v"
| "of_result (Inl e) = Raise e"

lemma exec_of_result:
  "control s = Exec h (of_result r) \<Longrightarrow> coro_step suspend wake Work s = Some (finish h r s)"
  by (cases r) simp_all

lemma run_then:
  assumes "run_labels f ls s = Some s1" "run_labels f ms s1 = Some s2"
  shows "run_labels f (ls @ ms) s = Some s2"
  using assms by (induction ls arbitrary: s) (auto split: option.splits)

text \<open>Assigning and then destroying both awaitables destroys each of the two frames once.\<close>

lemma awaitable_assign_destroys:
  assumes "promises s a \<noteq> None" "promises s b \<noteq> None" "a \<noteq> b" and "awaitable_assign (Some a) (Some b) s = (x, y, s1)"
  shows "awaitable_destroy y (awaitable_destroy x s1) = s\<lparr>promises := (promises s)(a := None, b := None)\<rparr>"
  using assms by (auto simp: awaitable_assign_def awaitable_destroy_def)

subsection \<open>The interface of other awaiters\<close>

text \<open>
  What the coroutines rely on: in a world in which a key is usable, the handle that was stored on suspension
  is queued by the event of the key, which leaves the frames alone and the usable keys usable.
\<close>

locale other_awaiter =
  fixes suspend :: "'k \<Rightarrow> nat \<Rightarrow> ('v, 'k, 'm) world_scheme \<Rightarrow> ('v, 'k, 'm) world_scheme"
    and wake :: "'k \<Rightarrow> ('v, 'k, 'm) world_scheme \<Rightarrow> ('v, 'k, 'm) world_scheme"
    and usable_key :: "'k \<Rightarrow> ('v, 'k, 'm) world_scheme \<Rightarrow> bool"
  assumes woken: "usable_key k s \<Longrightarrow> pool_tasks s = [] \<Longrightarrow>
      promises (wake k (suspend k h s)) = promises s \<and> next_handle (wake k (suspend k h s)) = next_handle s
        \<and> pool_tasks (wake k (suspend k h s)) = [Some h] \<and> control (wake k (suspend k h s)) = control s"
    and usable_woken: "usable_key k s \<Longrightarrow> usable_key k' s \<Longrightarrow> usable_key k' (wake k (suspend k h s))"
    and usable_frame: "usable_key k (s\<lparr>promises := p, next_handle := n, pool_tasks := q, control := c\<rparr>) = usable_key k s"
begin

lemma usable_fields: "usable_key k (s\<lparr>promises := p\<rparr>) = usable_key k s" "usable_key k (s\<lparr>next_handle := n\<rparr>) = usable_key k s"
    "usable_key k (s\<lparr>pool_tasks := q\<rparr>) = usable_key k s" "usable_key k (s\<lparr>control := c\<rparr>) = usable_key k s"
  using usable_frame [where s = s and p = p and n = "next_handle s" and q = "pool_tasks s" and c = "control s"]
    usable_frame [where s = s and p = "promises s" and n = n and q = "pool_tasks s" and c = "control s"]
    usable_frame [where s = s and p = "promises s" and n = "next_handle s" and q = q and c = "control s"]
    usable_frame [where s = s and p = "promises s" and n = "next_handle s" and q = "pool_tasks s" and c = c]
  by simp_all

end

text \<open>
  What the steps of a machine are that runs coroutines, for a class of awaitables with its own way to store
  a result in the promise and to get it back. The primary template and the specialisation for \<open>void\<close>
  both are such machines.
\<close>

locale coroutine_machine = other_awaiter suspend wake usable_key
  for suspend :: "'k \<Rightarrow> nat \<Rightarrow> ('v, 'k, 'm) world_scheme \<Rightarrow> ('v, 'k, 'm) world_scheme" and wake and usable_key +
  fixes step :: "'k worker_label \<Rightarrow> ('v, 'k, 'm) world_scheme \<Rightarrow> ('v, 'k, 'm) world_scheme option"
    and store :: "'v result \<Rightarrow> ('v, 'k) promise \<Rightarrow> ('v, 'k) promise"
    and retrieve :: "('v, 'k) promise \<Rightarrow> 'v result"
  assumes step_wake: "step (Wake k) s = Some (wake k s)"
    and step_take: "control s = Idle \<Longrightarrow> pool_tasks s = c # q \<Longrightarrow> step Work s = Some (s\<lparr>pool_tasks := q, control := Resume c\<rparr>)"
    and step_start: "control s = Resume (Some h) \<Longrightarrow> promises s h = Some p \<Longrightarrow> point p = Start b \<Longrightarrow>
      step Work s = Some (s\<lparr>promises := (promises s)(h \<mapsto> p\<lparr>point := Running\<rparr>), control := Exec h b\<rparr>)"
    and step_back: "control s = Resume (Some h) \<Longrightarrow> promises s h = Some p \<Longrightarrow> point p = AwaitingChild d k' \<Longrightarrow> promises s d = Some p' \<Longrightarrow>
      step Work s = Some (s\<lparr>promises := (promises s)(d := None, h \<mapsto> p\<lparr>point := Running\<rparr>), control := Exec h (k' (retrieve p'))\<rparr>)"
    and step_finish: "control s = Exec h (of_result r) \<Longrightarrow> promises s h = Some p \<Longrightarrow>
      step Work s = Some (s\<lparr>promises := (promises s)(h \<mapsto> (store r p)\<lparr>point := AtFinal\<rparr>),
        control := (case awaiting p of None \<Rightarrow> Idle | Some a \<Rightarrow> Resume (Some a))\<rparr>)"
    and step_await: "control s = Exec h (Await b k') \<Longrightarrow> promises s h = Some p \<Longrightarrow> executor p \<Longrightarrow> next_handle s \<noteq> h \<Longrightarrow>
      step Work s = Some (s\<lparr>promises := (promises s)(h \<mapsto> p\<lparr>point := AwaitingChild (next_handle s) k'\<rparr>,
          next_handle s \<mapsto> (new_promise b)\<lparr>executor := True, awaiting := Some h\<rparr>),
        next_handle := next_handle s + 1, pool_tasks := pool_tasks s @ [Some (next_handle s)], control := Idle\<rparr>)"
    and step_other: "control s = Exec h (AwaitOther k b) \<Longrightarrow> promises s h = Some p \<Longrightarrow>
      step Work s = Some (suspend k h (s\<lparr>promises := (promises s)(h \<mapsto> p\<lparr>point := Start b\<rparr>), control := Idle\<rparr>))"
    and retrieve_store: "promise_value p = None \<Longrightarrow> promise_exception p = None \<Longrightarrow> retrieve ((store r p)\<lparr>point := AtFinal\<rparr>) = r"
begin

abbreviation coro_run :: "'k worker_label list \<Rightarrow> ('v, 'k, 'm) world_scheme \<Rightarrow> ('v, 'k, 'm) world_scheme option" where
  "coro_run \<equiv> run_labels step"

text \<open>A coroutine is executing \<open>b\<close> and nothing else is going on.\<close>

definition executing :: "nat \<Rightarrow> ('v, 'k) coro_body \<Rightarrow> ('v, 'k, 'm) world_scheme \<Rightarrow> bool" where
  "executing h b s \<longleftrightarrow> control s = Exec h b \<and> pool_tasks s = [] \<and> h < next_handle s
     \<and> (\<forall>x \<ge> next_handle s. promises s x = None)
     \<and> (\<exists>p. promises s h = Some p \<and> executor p \<and> point p = Running)"

definition leads :: "('v, 'k, 'm) world_scheme \<Rightarrow> ('v, 'k, 'm) world_scheme \<Rightarrow> bool" where
  "leads s s' \<longleftrightarrow> (\<exists>ls. coro_run ls s = Some s') \<and> (\<forall>k. usable_key k s \<longrightarrow> usable_key k s')"

lemma leadsI: "coro_run ls s = Some s' \<Longrightarrow> (\<And>k. usable_key k s \<Longrightarrow> usable_key k s') \<Longrightarrow> leads s s'"
  unfolding leads_def by blast

lemma leads_trans:
  assumes "leads s s1" "leads s1 s2"
  shows "leads s s2"
proof -
  obtain ls ms where "coro_run ls s = Some s1" "coro_run ms s1 = Some s2" using assms unfolding leads_def by blast
  from run_then [OF this] show ?thesis using assms by (intro leadsI [of "ls @ ms"]) (auto simp: leads_def)
qed

lemma leads_refl: "leads s s"
  by (rule leadsI [of "[]"]) simp_all

lemma executingE:
  assumes "executing h b s"
  obtains p where "promises s h = Some p" "executor p" "point p = Running" "next_handle s \<noteq> h" "promises s (next_handle s) = None"
proof -
  obtain p where "promises s h = Some p" "executor p" "point p = Running" using assms unfolding executing_def by blast
  then show ?thesis using assms by (intro that) (simp_all add: executing_def)
qed

text \<open>Awaiting another awaiter: the event of the key brings the coroutine back to the rest of its body.\<close>

lemma other_resumes:
  assumes ex: "executing h (AwaitOther k b) s" and key: "usable_key k s"
  shows "\<exists>s'. leads s s' \<and> executing h b s' \<and> promises s' = promises s"
proof -
  obtain p where p: "promises s h = Some p" "executor p" "point p = Running" using ex by (rule executingE)
  let ?s1 = "s\<lparr>promises := (promises s)(h \<mapsto> p\<lparr>point := Start b\<rparr>), control := Idle\<rparr>"
  let ?s2 = "wake k (suspend k h ?s1)"
  have uk: "usable_key k ?s1" using key by (simp add: usable_fields)
  have w: "promises ?s2 = promises ?s1" "next_handle ?s2 = next_handle s" "pool_tasks ?s2 = [Some h]" "control ?s2 = Idle"
    using woken [OF uk, of h] ex by (simp_all add: executing_def)
  let ?s3 = "?s2\<lparr>pool_tasks := [], control := Exec h b, promises := promises s\<rparr>"
  have "step Work s = Some (suspend k h ?s1)" using ex p(1) by (intro step_other) (simp_all add: executing_def)
  moreover have "step Work ?s2 = Some (?s2\<lparr>pool_tasks := [], control := Resume (Some h)\<rparr>)" using w by (intro step_take) simp_all
  moreover have "step Work (?s2\<lparr>pool_tasks := [], control := Resume (Some h)\<rparr>) = Some ?s3"
    using w p step_start [of "?s2\<lparr>pool_tasks := [], control := Resume (Some h)\<rparr>" h "p\<lparr>point := Start b\<rparr>" b] by (simp add: fun_upd_idem)
  ultimately have r: "coro_run [Work, Wake k, Work, Work] s = Some ?s3" by (simp add: step_wake)
  have "usable_key k' ?s3" if "usable_key k' s" for k'
    using usable_woken [OF uk, of k' h] that by (simp add: usable_fields)
  with r have "leads s ?s3" by (rule leadsI)
  moreover have "executing h b ?s3" using ex w by (simp add: executing_def)
  ultimately show ?thesis by (intro exI [of _ ?s3]) simp
qed

text \<open>Awaiting a coroutine: the frames while the child runs, the start of the child, and its return to the parent.\<close>

definition awaited :: "nat \<Rightarrow> ('v, 'k) coro_body \<Rightarrow> ('v result \<Rightarrow> ('v, 'k) coro_body) \<Rightarrow> ('v, 'k, 'm) world_scheme \<Rightarrow> nat \<Rightarrow> ('v, 'k) promise option" where
  "awaited h b k s = (promises s)(h := map_option (\<lambda>p. p\<lparr>point := AwaitingChild (next_handle s) k\<rparr>) (promises s h),
     next_handle s \<mapsto> (new_promise b)\<lparr>executor := True, awaiting := Some h, point := Running\<rparr>)"

lemma child_starts:
  assumes ex: "executing h (Await b k) s"
  shows "\<exists>s'. leads s s' \<and> executing (next_handle s) b s' \<and> promises s' = awaited h b k s \<and> next_handle s < next_handle s'"
proof -
  obtain p where p: "promises s h = Some p" "executor p" "point p = Running" "next_handle s \<noteq> h" "promises s (next_handle s) = None"
    using ex by (rule executingE)
  let ?s1 = "s\<lparr>promises := awaited h b k s, next_handle := next_handle s + 1, pool_tasks := [], control := Exec (next_handle s) b\<rparr>"
  let ?q = "(new_promise b)\<lparr>executor := True, awaiting := Some h\<rparr>"
  let ?m = "(promises s)(h \<mapsto> p\<lparr>point := AwaitingChild (next_handle s) k\<rparr>, next_handle s \<mapsto> ?q)"
  let ?sa = "s\<lparr>promises := ?m, next_handle := next_handle s + 1, pool_tasks := [Some (next_handle s)], control := Idle\<rparr>"
  let ?sb = "?sa\<lparr>pool_tasks := [], control := Resume (Some (next_handle s))\<rparr>"
  have "step Work s = Some ?sa" using ex p step_await [of s h b k p] by (simp add: executing_def)
  moreover have "step Work ?sa = Some ?sb" by (intro step_take) simp_all
  moreover have "step Work ?sb = Some ?s1"
    using p step_start [of ?sb "next_handle s" ?q b] by (simp add: new_promise_def awaited_def)
  ultimately have "coro_run [Work, Work, Work] s = Some ?s1" by simp
  then have "leads s ?s1" by (rule leadsI) (simp add: usable_fields)
  moreover have "executing (next_handle s) b ?s1" using ex by (simp add: executing_def awaited_def)
  ultimately show ?thesis by (intro exI [of _ ?s1]) simp
qed

lemma child_returns:
  assumes ex: "executing h (Await b k) s" and ex2: "executing (next_handle s) (of_result r) s2"
    and fr: "promises s2 = awaited h b k s"
  shows "\<exists>s'. leads s2 s' \<and> executing h (k r) s' \<and> promises s' = promises s"
proof -
  obtain p where p: "promises s h = Some p" "executor p" "point p = Running" "next_handle s \<noteq> h" "promises s (next_handle s) = None"
    using ex by (rule executingE)
  let ?s3 = "s2\<lparr>promises := promises s, control := Exec h (k r)\<rparr>"
  let ?q = "(new_promise b)\<lparr>executor := True, awaiting := Some h, point := Running\<rparr>"
  have fr2: "promises s2 = (promises s)(h \<mapsto> p\<lparr>point := AwaitingChild (next_handle s) k\<rparr>, next_handle s \<mapsto> ?q)"
    using p(1) fr by (simp add: awaited_def)
  let ?q' = "(store r ?q)\<lparr>point := AtFinal\<rparr>"
  let ?sa = "s2\<lparr>promises := (promises s2)(next_handle s \<mapsto> ?q'), control := Resume (Some h)\<rparr>"
  have "step Work s2 = Some ?sa"
    using ex2 p fr2 step_finish [of s2 "next_handle s" r ?q] by (simp add: executing_def)
  moreover have "retrieve ?q' = r" by (rule retrieve_store) (simp_all add: new_promise_def)
  then have "step Work ?sa = Some ?s3"
    using p fr2 step_back [of ?sa h "p\<lparr>point := AwaitingChild (next_handle s) k\<rparr>" "next_handle s" k ?q'] by (simp add: fun_upd_idem)
  ultimately have "coro_run [Work, Work] s2 = Some ?s3" by simp
  then have "leads s2 ?s3" by (rule leadsI) (simp add: usable_fields)
  moreover have "executing h (k r) ?s3" using ex ex2 p by (auto simp: executing_def)
  ultimately show ?thesis by (intro exI [of _ ?s3]) simp
qed

text \<open>A body gets to return or to throw what it means, with the frames as they were.\<close>

lemma executes:
  assumes "executing h b s" and "\<And>k. k \<in> set_coro_body b \<Longrightarrow> usable_key k s"
  shows "\<exists>s'. leads s s' \<and> executing h (of_result (eval_body b)) s' \<and> promises s' = promises s"
  using assms
proof (induction b arbitrary: h s)
  case (AwaitOther k b)
  have "usable_key k s" using AwaitOther.prems(2) by simp
  from other_resumes [OF AwaitOther.prems(1) this] obtain s1 where s1: "leads s s1" "executing h b s1" "promises s1 = promises s"
    by blast
  then have "usable_key k' s1" if "k' \<in> set_coro_body b" for k' using AwaitOther.prems(2) that by (simp add: leads_def)
  from AwaitOther.IH [OF s1(2) this] s1(3) leads_trans [OF s1(1)] show ?case by auto
next
  case (Await b k)
  obtain s1 where s1: "leads s s1" "executing (next_handle s) b s1" "promises s1 = awaited h b k s"
    using child_starts [OF Await.prems(1)] by blast
  then have "usable_key k' s1" if "k' \<in> set_coro_body b" for k' using Await.prems(2) that by (simp add: leads_def)
  from Await.IH(1) [OF s1(2) this] obtain s2
    where s2: "leads s1 s2" "executing (next_handle s) (of_result (eval_body b)) s2" "promises s2 = awaited h b k s"
    using s1(3) by auto
  obtain s3 where s3: "leads s2 s3" "executing h (k (eval_body b)) s3" "promises s3 = promises s"
    using child_returns [OF Await.prems(1) s2(2,3)] by blast
  have l: "leads s s3" using s1(1) s2(1) s3(1) leads_trans by blast
  then have "usable_key k' s3" if "k' \<in> set_coro_body (k (eval_body b))" for k'
    using Await.prems(2) [of k'] that by (auto simp: leads_def)
  from Await.IH(2) [OF _ s3(2) this] s3(3) leads_trans [OF l] show ?case by (auto simp: Let_def)
qed (auto intro: leads_refl)

text \<open>A spawned coroutine runs to its final suspension, where its promise has the result and only its frame is left.\<close>

lemma spawned:
  assumes new: "promises s h = Some (new_promise b)" "h < next_handle s" "\<forall>x \<ge> next_handle s. promises s x = None"
    and idle: "control s = Idle" "pool_tasks s = []"
    and keys: "\<And>k. k \<in> set_coro_body b \<Longrightarrow> usable_key k s"
    and spawn: "co_spawn (Some h) s = Inr s0"
  shows "\<exists>ls s' p. coro_run ls s0 = Some s' \<and> control s' = Idle \<and> pool_tasks s' = []
    \<and> promises s' = (promises s)(h \<mapsto> p) \<and> point p = AtFinal \<and> retrieve p = eval_body b"
proof -
  let ?q = "(new_promise b)\<lparr>executor := True, point := Running\<rparr>"
  let ?s1 = "s\<lparr>promises := (promises s)(h \<mapsto> ?q), control := Exec h b\<rparr>"
  have s0: "s0 = s\<lparr>promises := (promises s)(h \<mapsto> (new_promise b)\<lparr>executor := True\<rparr>), pool_tasks := [Some h]\<rparr>"
    using spawn new(1) idle(2) by (simp add: co_spawn_def)
  let ?sa = "s0\<lparr>pool_tasks := [], control := Resume (Some h)\<rparr>"
  have "step Work s0 = Some ?sa" using idle by (intro step_take) (simp_all add: s0)
  moreover have "step Work ?sa = Some ?s1"
    using idle step_start [of ?sa h "(new_promise b)\<lparr>executor := True\<rparr>" b] by (simp add: s0 new_promise_def)
  ultimately have r1: "coro_run [Work, Work] s0 = Some ?s1" by simp
  have "executing h b ?s1" using new idle by (simp add: executing_def)
  moreover have "usable_key k ?s1" if "k \<in> set_coro_body b" for k using keys [OF that] by (simp add: usable_fields)
  ultimately obtain ls s2 where r2: "coro_run ls ?s1 = Some s2" and e2: "executing h (of_result (eval_body b)) s2" "promises s2 = promises ?s1"
    using executes [of h b ?s1] unfolding leads_def by blast
  let ?p = "(store (eval_body b) ?q)\<lparr>point := AtFinal\<rparr>"
  let ?s3 = "s2\<lparr>promises := (promises s)(h \<mapsto> ?p), control := Idle\<rparr>"
  have r3: "coro_run [Work] s2 = Some ?s3"
    using e2 step_finish [of s2 h "eval_body b" ?q] by (simp add: executing_def new_promise_def)
  have p: "retrieve ?p = eval_body b" by (rule retrieve_store) (simp_all add: new_promise_def)
  have "pool_tasks s2 = []" using e2(1) by (simp add: executing_def)
  with p show ?thesis
    by (intro exI [of _ "([Work, Work] @ ls) @ [Work]"] exI [of _ ?s3] exI [of _ ?p] conjI
        run_then [OF run_then [OF r1 r2] r3]) simp_all
qed

text \<open>The same from a quiet world, with the call of the coroutine.\<close>

lemma called:
  assumes quiet: "control s = Idle" "pool_tasks s = []" "\<forall>x \<ge> next_handle s. promises s x = None"
    and keys: "\<And>k. k \<in> set_coro_body b \<Longrightarrow> usable_key k s"
    and called: "call b s = (h, s1)" and spawn: "co_spawn (Some h) s1 = Inr s0"
  shows "\<exists>ls s' p. coro_run ls s0 = Some s' \<and> control s' = Idle \<and> pool_tasks s' = []
    \<and> promises s' = (promises s)(h \<mapsto> p) \<and> point p = AtFinal \<and> retrieve p = eval_body b"
proof -
  have s1: "s1 = s\<lparr>promises := (promises s)(h \<mapsto> new_promise b), next_handle := Suc h\<rparr>" "h = next_handle s"
    using called by (auto simp: call_def)
  have "usable_key k s1" if "k \<in> set_coro_body b" for k using keys [OF that] by (simp add: s1(1) usable_fields)
  moreover have "promises s1 h = Some (new_promise b)" "h < next_handle s1" "\<forall>x \<ge> next_handle s1. promises s1 x = None"
    "control s1 = Idle" "pool_tasks s1 = []" using quiet s1 by auto
  ultimately show ?thesis using spawned [of s1 h b s0] spawn by (simp add: s1(1))
qed

end

text \<open>The machine of the primary template.\<close>

context other_awaiter
begin

lemma coro_machine: "coroutine_machine suspend wake usable_key (coro_step suspend wake) set_result await_resume"
proof (unfold_locales, goal_cases)
  case (5 s h r p)
  then show ?case using exec_of_result [of s h r suspend wake] by (cases r) (simp_all add: finish_def set_result_def)
next
  case (6 s h b k p)
  then show ?case
    by (simp add: suspend_child_def call_def await_suspend_def await_transform_def new_promise_def fun_upd_twist Let_def)
next
  case (8 p r)
  then show ?case by (cases r) (simp_all add: await_resume_def set_result_def)
qed (simp_all add: resume_handle_def)

end

end
