(* ===== verification/IOContext.thy ===== *)
theory IOContext
  imports Awaitable "HOL-Library.Word"
begin

text \<open>
  The event loop of \<open>include/net/IOContext.hpp\<close> with the wrapper of \<open>include/net/Epoll.hpp\<close>, on top of
  the awaitable coroutines. The kernel is an argument: \<open>ctl\<close> is \<open>epoll_ctl\<close> as a function on the interest list,
  which is a map from descriptors to events, and gives \<open>None\<close> where the call returns -1; the events of
  \<open>epoll_wait\<close> are an argument of a round of the loop. Logging is left out.

  The waiters are a map from descriptors to a handle, which may be null, and events. The pool gets the
  handles to resume in the order in which the loop adds them.
\<close>

datatype ctl_op = EPOLL_CTL_ADD | EPOLL_CTL_MOD | EPOLL_CTL_DEL

type_synonym interest_list = "int \<Rightarrow> 32 word option"

type_synonym kernel = "ctl_op \<Rightarrow> int \<Rightarrow> 32 word \<Rightarrow> interest_list \<Rightarrow> interest_list option"

subsection \<open>Epoll\<close>

definition new_Epoll :: "int \<Rightarrow> int result" where
  "new_Epoll fd = (if fd < 0 then Inl (RuntimeError ''epoll_create1 failed'') else Inr fd)"

definition epoll_add :: "kernel \<Rightarrow> int \<Rightarrow> 32 word \<Rightarrow> interest_list \<Rightarrow> interest_list result" where
  "epoll_add ctl fd events m =
     (case ctl EPOLL_CTL_ADD fd events m of None \<Rightarrow> Inl (RuntimeError ''epoll_ctl add failed'') | Some m1 \<Rightarrow> Inr m1)"

definition epoll_modify :: "kernel \<Rightarrow> int \<Rightarrow> 32 word \<Rightarrow> interest_list \<Rightarrow> interest_list result" where
  "epoll_modify ctl fd events m =
     (case ctl EPOLL_CTL_MOD fd events m of None \<Rightarrow> Inl (RuntimeError ''epoll_ctl modify failed'') | Some m1 \<Rightarrow> Inr m1)"

definition epoll_remove :: "kernel \<Rightarrow> int \<Rightarrow> interest_list \<Rightarrow> interest_list result" where
  "epoll_remove ctl fd m =
     (case ctl EPOLL_CTL_DEL fd 0 m of None \<Rightarrow> Inl (RuntimeError ''epoll_ctl remove failed'') | Some m1 \<Rightarrow> Inr m1)"

subsection \<open>The context\<close>

record ('v, 'k) io_world = "('v, 'k) world" +
  waiters :: "int \<Rightarrow> (nat option \<times> 32 word) option"
  interest :: interest_list
  running :: bool

definition new_IOContext :: "bool \<Rightarrow> bool \<Rightarrow> ('v, 'k) io_world result" where
  "new_IOContext executor_given ev_given =
     (if \<not> executor_given then Inl (InvalidArgument ''IOContext needs a ThreadPool'')
      else if \<not> ev_given then Inl (InvalidArgument ''IOContext needs an Epoll'')
      else Inr \<lparr>promises = (\<lambda>_. None), next_handle = 0, pool_tasks = [], control = Idle,
                waiters = (\<lambda>_. None), interest = (\<lambda>_. None), running = False\<rparr>)"

text \<open>\<open>FdAwaiter::await_suspend\<close>: the waiter is stored first and erased again when the kernel refuses the change.\<close>

definition fd_await_suspend :: "kernel \<Rightarrow> int \<Rightarrow> 32 word \<Rightarrow> nat \<Rightarrow> ('v, 'k, 'm) io_world_scheme \<Rightarrow> ('v, 'k, 'm) io_world_scheme" where
  "fd_await_suspend ctl fd events h s =
     (let s1 = s\<lparr>waiters := (waiters s)(fd \<mapsto> (Some h, events))\<rparr> in
      case epoll_modify ctl fd events (interest s1) of
        Inr m \<Rightarrow> s1\<lparr>interest := m\<rparr>
      | Inl _ \<Rightarrow> s1\<lparr>waiters := (waiters s1)(fd := None)\<rparr>)"


text \<open>One event, then one round of the loop: a negative result of \<open>epoll_wait\<close> is \<open>None\<close>.\<close>

definition dispatch :: "int \<times> 32 word \<Rightarrow> ('v, 'k, 'm) io_world_scheme \<Rightarrow> ('v, 'k, 'm) io_world_scheme" where
  "dispatch e s =
     (case waiters s (fst e) of
        None \<Rightarrow> s
      | Some (h, _) \<Rightarrow> s\<lparr>waiters := (waiters s)(fst e := None), pool_tasks := pool_tasks s @ [h]\<rparr>)"

definition io_round :: "(int \<times> 32 word) list option \<Rightarrow> ('v, 'k, 'm) io_world_scheme \<Rightarrow> ('v, 'k, 'm) io_world_scheme" where
  "io_round r s = (case r of None \<Rightarrow> s | Some evs \<Rightarrow> fold dispatch evs s)"

text \<open>The loop over the results of \<open>epoll_wait\<close>; between two rounds another thread may stop it.\<close>

fun io_loop :: "((int \<times> 32 word) list option \<times> bool) list \<Rightarrow> ('v, 'k, 'm) io_world_scheme \<Rightarrow> ('v, 'k, 'm) io_world_scheme" where
  "io_loop [] s = s"
| "io_loop ((r, stopped) # rs) s =
     (if running s then io_loop rs ((io_round r s)\<lparr>running := \<not> stopped\<rparr>) else s)"

definition io_run :: "((int \<times> 32 word) list option \<times> bool) list \<Rightarrow> ('v, 'k, 'm) io_world_scheme \<Rightarrow> ('v, 'k, 'm) io_world_scheme" where
  "io_run rs s = io_loop rs (s\<lparr>running := True\<rparr>)"

definition io_stop :: "('v, 'k, 'm) io_world_scheme \<Rightarrow> ('v, 'k, 'm) io_world_scheme" where
  "io_stop s = s\<lparr>running := False\<rparr>"

definition add_fd :: "kernel \<Rightarrow> int \<Rightarrow> 32 word \<Rightarrow> ('v, 'k, 'm) io_world_scheme \<Rightarrow> exn option \<times> ('v, 'k, 'm) io_world_scheme" where
  "add_fd ctl fd events s =
     (case epoll_add ctl fd events (interest s) of Inl e \<Rightarrow> (Some e, s) | Inr m \<Rightarrow> (None, s\<lparr>interest := m\<rparr>))"

definition remove_fd :: "kernel \<Rightarrow> int \<Rightarrow> ('v, 'k, 'm) io_world_scheme \<Rightarrow> exn option \<times> ('v, 'k, 'm) io_world_scheme" where
  "remove_fd ctl fd s =
     (let s1 = s\<lparr>waiters := (waiters s)(fd := None)\<rparr> in
      case epoll_remove ctl fd (interest s1) of Inl e \<Rightarrow> (Some e, s1) | Inr m \<Rightarrow> (None, s1\<lparr>interest := m\<rparr>))"

definition modify_fd :: "kernel \<Rightarrow> int \<Rightarrow> 32 word \<Rightarrow> ('v, 'k, 'm) io_world_scheme \<Rightarrow> exn option \<times> ('v, 'k, 'm) io_world_scheme" where
  "modify_fd ctl fd events s =
     (case epoll_modify ctl fd events (interest s) of Inl e \<Rightarrow> (Some e, s) | Inr m \<Rightarrow> (None, s\<lparr>interest := m\<rparr>))"

text \<open>\<open>get_events\<close> uses \<open>operator[]\<close>, which inserts a waiter with a null handle if there is none.\<close>

definition get_events :: "int \<Rightarrow> ('v, 'k, 'm) io_world_scheme \<Rightarrow> 32 word \<times> ('v, 'k, 'm) io_world_scheme" where
  "get_events fd s =
     (case waiters s fd of
        None \<Rightarrow> (0, s\<lparr>waiters := (waiters s)(fd \<mapsto> (None, 0))\<rparr>)
      | Some (h, events) \<Rightarrow> (events, s))"

subsection \<open>The kernel\<close>

text \<open>
  What the code relies on, as the manual page of \<open>epoll_ctl\<close> has it: a registered descriptor can be modified,
  an unregistered one cannot, only an unregistered one can be added, and a registered one can be deleted.
\<close>

locale epoll_kernel =
  fixes ctl :: kernel
  assumes modify_registered: "m fd \<noteq> None \<Longrightarrow> ctl EPOLL_CTL_MOD fd ev m = Some (m(fd \<mapsto> ev))"
    and modify_unregistered: "m fd = None \<Longrightarrow> ctl EPOLL_CTL_MOD fd ev m = None"
    and add_result: "ctl EPOLL_CTL_ADD fd ev m = Some m' \<Longrightarrow> m fd = None \<and> m' = m(fd \<mapsto> ev)"
    and delete_registered: "m fd \<noteq> None \<Longrightarrow> ctl EPOLL_CTL_DEL fd ev m = Some (m(fd := None))"
begin

lemma suspend_registered:
  assumes "interest s fd \<noteq> None"
  shows "fd_await_suspend ctl fd ev h s = s\<lparr>waiters := (waiters s)(fd \<mapsto> (Some h, ev)), interest := (interest s)(fd \<mapsto> ev)\<rparr>"
  using assms modify_registered [of "interest s" fd ev] by (simp add: fd_await_suspend_def epoll_modify_def)

lemma suspend_unregistered:
  assumes "interest s fd = None"
  shows "fd_await_suspend ctl fd ev h s = s\<lparr>waiters := (waiters s)(fd := None)\<rparr>"
  using assms modify_unregistered [of "interest s" fd ev] by (simp add: fd_await_suspend_def epoll_modify_def)

text \<open>A waiter on a registered descriptor is the handle that the next event of the descriptor queues.\<close>

lemma suspend_dispatch:
  assumes "interest s fd \<noteq> None"
  shows "dispatch (fd, ev') (fd_await_suspend ctl fd ev h s)
    = s\<lparr>waiters := (waiters s)(fd := None), interest := (interest s)(fd \<mapsto> ev), pool_tasks := pool_tasks s @ [Some h]\<rparr>"
  unfolding suspend_registered [OF assms] by (simp add: dispatch_def)

end

text \<open>The kernel of the manual page itself.\<close>

fun documented_ctl :: kernel where
  "documented_ctl EPOLL_CTL_ADD fd ev m = (if m fd = None then Some (m(fd \<mapsto> ev)) else None)"
| "documented_ctl EPOLL_CTL_MOD fd ev m = (if m fd = None then None else Some (m(fd \<mapsto> ev)))"
| "documented_ctl EPOLL_CTL_DEL fd ev m = (if m fd = None then None else Some (m(fd := None)))"

interpretation dk: epoll_kernel documented_ctl
  by unfold_locales (auto split: if_splits)

subsection \<open>Coroutines that await descriptors\<close>

text \<open>\<open>co_await await_fd(fd, events)\<close>, the event that ends the wait, and the descriptors that can be awaited.\<close>

type_synonym fd_wait = "int \<times> 32 word"

definition fd_suspend :: "kernel \<Rightarrow> fd_wait \<Rightarrow> nat \<Rightarrow> ('v, 'k, 'm) io_world_scheme \<Rightarrow> ('v, 'k, 'm) io_world_scheme" where
  "fd_suspend ctl k h s = fd_await_suspend ctl (fst k) (snd k) h s"

definition fd_wake :: "fd_wait \<Rightarrow> ('v, 'k, 'm) io_world_scheme \<Rightarrow> ('v, 'k, 'm) io_world_scheme" where
  "fd_wake k s = io_round (Some [k]) s"

definition fd_usable :: "fd_wait \<Rightarrow> ('v, 'k, 'm) io_world_scheme \<Rightarrow> bool" where
  "fd_usable k s \<longleftrightarrow> interest s (fst k) \<noteq> None"

context epoll_kernel
begin

lemma fd_awaiter:
  "other_awaiter (fd_suspend ctl) (fd_wake :: fd_wait \<Rightarrow> ('v, fd_wait, 'm) io_world_scheme \<Rightarrow> ('v, fd_wait, 'm) io_world_scheme) fd_usable"
  by unfold_locales
    (auto simp: fd_suspend_def fd_wake_def fd_usable_def io_round_def suspend_dispatch)

end

interpretation fa: other_awaiter "fd_suspend documented_ctl" fd_wake fd_usable
  by (rule dk.fd_awaiter)

interpretation fm: coroutine_machine "fd_suspend documented_ctl" fd_wake fd_usable
    "coro_step (fd_suspend documented_ctl) fd_wake" set_result await_resume
  by (rule fa.coro_machine)

lemma dispatch_nothing: "waiters s fd = None \<Longrightarrow> dispatch (fd, ev) s = s"
  by (simp add: dispatch_def)

text \<open>The descriptors of a list of events, each where it comes first.\<close>

fun first_fds :: "(int \<times> 32 word) list \<Rightarrow> int list" where
  "first_fds [] = []"
| "first_fds ((fd, ev) # evs) = fd # filter (\<lambda>x. x \<noteq> fd) (first_fds evs)"

lemma distinct_first_fds: "distinct (first_fds evs)"
  by (induction evs rule: first_fds.induct) auto

lemma fold_dispatch:
  "fold dispatch evs s = s\<lparr>waiters := (\<lambda>fd. if fd \<in> fst ` set evs then None else waiters s fd),
     pool_tasks := pool_tasks s @ map (\<lambda>fd. fst (the (waiters s fd))) (filter (\<lambda>fd. waiters s fd \<noteq> None) (first_fds evs))\<rparr>"
proof (induction evs arbitrary: s)
  case (Cons e evs)
  obtain fd ev where e: "e = (fd, ev)" by fastforce
  show ?case
  proof (cases "waiters s fd")
    case None
    have "filter (\<lambda>x. waiters s x \<noteq> None) (filter (\<lambda>x. x \<noteq> fd) (first_fds evs)) = filter (\<lambda>x. waiters s x \<noteq> None) (first_fds evs)"
      using None by (auto intro: filter_cong)
    with None e Cons.IH [of s] show ?thesis by (simp add: dispatch_nothing fun_eq_iff image_iff)
  next
    case (Some w)
    obtain h ev' where w: "w = (h, ev')" by fastforce
    let ?s = "s\<lparr>waiters := (waiters s)(fd := None), pool_tasks := pool_tasks s @ [h]\<rparr>"
    have d: "dispatch e s = ?s" using e Some w by (simp add: dispatch_def)
    have w1: "(\<lambda>x. if x \<in> fst ` set evs then None else ((waiters s)(fd := None)) x) = (\<lambda>x. if x \<in> fst ` set (e # evs) then None else waiters s x)"
      using e by auto
    have w2: "map (\<lambda>x. fst (the (((waiters s)(fd := None)) x))) (filter (\<lambda>x. ((waiters s)(fd := None)) x \<noteq> None) xs)
        = map (\<lambda>x. fst (the (waiters s x))) (filter (\<lambda>x. waiters s x \<noteq> None) (filter (\<lambda>x. x \<noteq> fd) xs))" for xs
      by (induction xs) auto
    have "fold dispatch (e # evs) s = fold dispatch evs ?s" using d by simp
    also have "\<dots> = ?s\<lparr>waiters := (\<lambda>x. if x \<in> fst ` set (e # evs) then None else waiters s x),
        pool_tasks := (pool_tasks s @ [h]) @ map (\<lambda>x. fst (the (waiters s x))) (filter (\<lambda>x. waiters s x \<noteq> None) (filter (\<lambda>x. x \<noteq> fd) (first_fds evs)))\<rparr>"
      unfolding Cons.IH [of ?s] w1 [symmetric] w2 [symmetric] by (simp cong: if_cong)
    finally show ?thesis using e Some w by simp
  qed
qed simp



subsection \<open>Properties\<close>



text \<open>
  C21: a round of the event loop queues the handle of each descriptor that has both an event and a waiter,
  once even if the descriptor has several events, in the order of the first events, and removes
  exactly these waiters; events without a waiter change nothing, and a failed wait changes nothing.
\<close>

theorem io_round_dispatches_once:
  "io_round None s = s
   \<and> pool_tasks (io_round (Some evs) s)
       = pool_tasks s @ map (\<lambda>fd. fst (the (waiters s fd))) (filter (\<lambda>fd. waiters s fd \<noteq> None) (first_fds evs))
   \<and> distinct (first_fds evs) \<and> set (first_fds evs) = fst ` set evs
   \<and> waiters (io_round (Some evs) s) = (\<lambda>fd. if fd \<in> fst ` set evs then None else waiters s fd)
   \<and> promises (io_round (Some evs) s) = promises s \<and> interest (io_round (Some evs) s) = interest s"
proof -
  have "set (first_fds evs) = fst ` set evs" by (induction evs rule: first_fds.induct) auto
  then show ?thesis by (simp add: io_round_def fold_dispatch distinct_first_fds)
qed

text \<open>
  Asking for the events of a descriptor that nobody waits for leaves a waiter with a null handle
  behind. An event of the descriptor that the loop gets before a coroutine has replaced this waiter
  makes a worker resume the null handle.
\<close>

lemma get_events_null_resume:
  "\<exists>s. new_IOContext True True = Inr s
    \<and> map_option control (run_labels (coro_step (fd_suspend ctl) fd_wake) [Work, Work] (io_round (Some [(fd, ev)]) (snd (get_events fd s))))
        = Some Undefined"
  by (simp add: new_IOContext_def get_events_def io_round_def dispatch_def resume_handle_def)

end
