(* ===== verification/AwaitableVoid.thy ===== *)
theory AwaitableVoid
  imports IOContext
begin

text \<open>
  The specialisation \<open>Awaitable<void>\<close> of \<open>include/coro/Awaitable.hpp\<close>, which the code writes out a second
  time. Its promise has no value: the field for it in the record stays empty, \<open>return_void\<close> stores nothing, and
  \<open>await_resume\<close> looks at the exception only. The machine is that of the primary template with these
  operations in place of the others, for coroutines that await coroutines of the same class; that the frame of an
  awaited coroutine has finished when it is looked at is now what makes the result right.
\<close>

subsection \<open>Operations\<close>

definition new_promise_void :: "(unit, 'k) coro_body \<Rightarrow> (unit, 'k) promise" where
  "new_promise_void b = \<lparr>executor = False, awaiting = None, promise_value = None, promise_exception = None, point = Start b\<rparr>"

definition call_void :: "(unit, 'k) coro_body \<Rightarrow> (unit, 'k, 'm) world_scheme \<Rightarrow> nat \<times> (unit, 'k, 'm) world_scheme" where
  "call_void b s =
     (next_handle s, s\<lparr>promises := (promises s)(next_handle s \<mapsto> new_promise_void b), next_handle := next_handle s + 1\<rparr>)"

definition make_awaitable_void :: "nat option \<Rightarrow> nat result" where
  "make_awaitable_void c = (case c of None \<Rightarrow> Inl (InvalidArgument ''Coroutine handle is null'') | Some h \<Rightarrow> Inr h)"

definition await_transform_void :: "bool \<Rightarrow> (unit, 'k) promise \<Rightarrow> (unit, 'k) promise" where
  "await_transform_void ex p = p\<lparr>executor := ex\<rparr>"

definition await_suspend_void :: "nat \<Rightarrow> nat \<Rightarrow> (unit, 'k, 'm) world_scheme \<Rightarrow> (unit, 'k, 'm) world_scheme" where
  "await_suspend_void child h s =
     (case promises s child of
        None \<Rightarrow> s\<lparr>control := Undefined\<rparr>
      | Some p \<Rightarrow>
          if \<not> executor p then s\<lparr>control := Undefined\<rparr>
          else
            s\<lparr>promises := (promises s)(child \<mapsto> p\<lparr>awaiting := Some h\<rparr>),
              pool_tasks := pool_tasks s @ [Some child], control := Idle\<rparr>)"

definition await_resume_void :: "(unit, 'k) promise \<Rightarrow> unit result" where
  "await_resume_void p = (case promise_exception p of Some e \<Rightarrow> Inl e | None \<Rightarrow> Inr ())"

definition void_destroy :: "nat option \<Rightarrow> (unit, 'k, 'm) world_scheme \<Rightarrow> (unit, 'k, 'm) world_scheme" where
  "void_destroy c s =
     (case c of
        None \<Rightarrow> s
      | Some h \<Rightarrow> if promises s h = None then s\<lparr>control := Undefined\<rparr> else s\<lparr>promises := (promises s)(h := None)\<rparr>)"

definition void_move :: "nat option \<Rightarrow> nat option \<times> nat option" where
  "void_move other = (other, None)"

definition void_assign :: "nat option \<Rightarrow> nat option \<Rightarrow> (unit, 'k, 'm) world_scheme \<Rightarrow> nat option \<times> nat option \<times> (unit, 'k, 'm) world_scheme" where
  "void_assign this other s = (let s1 = void_destroy this s in (other, None, s1))"

text \<open>\<open>return_void\<close> and \<open>unhandled_exception\<close>, and the final awaiter after them.\<close>

definition set_result_void :: "unit result \<Rightarrow> (unit, 'k) promise \<Rightarrow> (unit, 'k) promise" where
  "set_result_void r p = (case r of Inr _ \<Rightarrow> p | Inl e \<Rightarrow> p\<lparr>promise_exception := Some e\<rparr>)"

definition finish_void :: "nat \<Rightarrow> unit result \<Rightarrow> (unit, 'k, 'm) world_scheme \<Rightarrow> (unit, 'k, 'm) world_scheme" where
  "finish_void h r s =
     (case promises s h of
        None \<Rightarrow> s\<lparr>control := Undefined\<rparr>
      | Some p \<Rightarrow>
          let p2 = (set_result_void r p)\<lparr>point := AtFinal\<rparr>
          in s\<lparr>promises := (promises s)(h \<mapsto> p2),
               control := (case awaiting p2 of None \<Rightarrow> Idle | Some a \<Rightarrow> Resume (Some a))\<rparr>)"

definition resume_handle_void :: "nat option \<Rightarrow> (unit, 'k, 'm) world_scheme \<Rightarrow> (unit, 'k, 'm) world_scheme" where
  "resume_handle_void c s =
     (case c of
        None \<Rightarrow> s\<lparr>control := Undefined\<rparr>
      | Some h \<Rightarrow>
          (case promises s h of
             None \<Rightarrow> s\<lparr>control := Undefined\<rparr>
           | Some p \<Rightarrow>
               (case point p of
                  Start b \<Rightarrow> s\<lparr>promises := (promises s)(h \<mapsto> p\<lparr>point := Running\<rparr>), control := Exec h b\<rparr>
                | AwaitingChild c k \<Rightarrow>
                    (case promises s c of
                       None \<Rightarrow> s\<lparr>control := Undefined\<rparr>
                     | Some q \<Rightarrow>
                         s\<lparr>promises := (promises s)(c := None, h \<mapsto> p\<lparr>point := Running\<rparr>),
                           control := Exec h (k (await_resume_void q))\<rparr>)
                | Running \<Rightarrow> s\<lparr>control := Undefined\<rparr>
                | AtFinal \<Rightarrow> s\<lparr>control := Undefined\<rparr>)))"

definition suspend_child_void ::
    "nat \<Rightarrow> (unit, 'k) coro_body \<Rightarrow> (unit result \<Rightarrow> (unit, 'k) coro_body) \<Rightarrow> (unit, 'k, 'm) world_scheme \<Rightarrow> (unit, 'k, 'm) world_scheme" where
  "suspend_child_void h b k s =
     (case promises s h of
        None \<Rightarrow> s\<lparr>control := Undefined\<rparr>
      | Some p \<Rightarrow>
          let (c, s1) = call_void b s;
              s2 = s1\<lparr>promises := (promises s1)(c := map_option (await_transform_void (executor p)) (promises s1 c),
                        h \<mapsto> p\<lparr>point := AwaitingChild c k\<rparr>)\<rparr>
          in await_suspend_void c h s2)"

fun coro_step_void ::
    "('k \<Rightarrow> nat \<Rightarrow> (unit, 'k, 'm) world_scheme \<Rightarrow> (unit, 'k, 'm) world_scheme) \<Rightarrow>
     ('k \<Rightarrow> (unit, 'k, 'm) world_scheme \<Rightarrow> (unit, 'k, 'm) world_scheme) \<Rightarrow>
     'k worker_label \<Rightarrow> (unit, 'k, 'm) world_scheme \<Rightarrow> (unit, 'k, 'm) world_scheme option" where
  "coro_step_void suspend wake (Wake k) s = Some (wake k s)"
| "coro_step_void suspend wake Work s =
     (case control s of
        Idle \<Rightarrow> (case pool_tasks s of [] \<Rightarrow> None | c # q \<Rightarrow> Some (s\<lparr>pool_tasks := q, control := Resume c\<rparr>))
      | Resume c \<Rightarrow> Some (resume_handle_void c s)
      | Exec h b \<Rightarrow>
          (case b of
             Ret v \<Rightarrow> Some (finish_void h (Inr v) s)
           | Raise e \<Rightarrow> Some (finish_void h (Inl e) s)
           | Await c k \<Rightarrow> Some (suspend_child_void h c k s)
           | AwaitOther k b1 \<Rightarrow>
               (case promises s h of
                  None \<Rightarrow> Some (s\<lparr>control := Undefined\<rparr>)
                | Some p \<Rightarrow>
                    Some (suspend k h (s\<lparr>promises := (promises s)(h \<mapsto> p\<lparr>point := Start b1\<rparr>), control := Idle\<rparr>))))
      | Undefined \<Rightarrow> None)"

subsection \<open>The specialisation is a machine for coroutines\<close>

lemma exec_of_result_void:
  "control s = Exec h (of_result r) \<Longrightarrow> coro_step_void suspend wake Work s = Some (finish_void h r s)"
  by (cases r) simp_all

lemma awaiting_set_result_void [simp]: "awaiting (set_result_void r p) = awaiting p"
  by (cases r) (simp_all add: set_result_void_def)

lemma void_machine:
  assumes "other_awaiter suspend wake usable_key"
  shows "coroutine_machine suspend wake usable_key (coro_step_void suspend wake) set_result_void await_resume_void"
proof (intro coroutine_machine.intro [OF assms] coroutine_machine_axioms.intro, goal_cases)
  case (5 s h r p)
  then show ?case using exec_of_result_void [of s h r suspend wake] by (simp add: finish_void_def)
next
  case (6 s h b k p)
  then show ?case
    by (simp add: suspend_child_void_def call_void_def await_suspend_void_def await_transform_void_def new_promise_void_def
        new_promise_def fun_upd_twist Let_def)
next
  case (8 p r)
  then show ?case by (cases r) (simp_all add: await_resume_void_def set_result_void_def)
qed (simp_all add: resume_handle_void_def)

interpretation fv: coroutine_machine "fd_suspend documented_ctl" fd_wake fd_usable
    "coro_step_void (fd_suspend documented_ctl) fd_wake" set_result_void await_resume_void
  by (rule void_machine [OF fa.other_awaiter_axioms])

text \<open>Assigning and then destroying both awaitables destroys each of the two frames once.\<close>

lemma void_assign_destroys:
  assumes "promises s a \<noteq> None" "promises s b \<noteq> None" "a \<noteq> b" and "void_assign (Some a) (Some b) s = (x, y, s1)"
  shows "void_destroy y (void_destroy x s1) = s\<lparr>promises := (promises s)(a := None, b := None)\<rparr>"
  using assms by (auto simp: void_assign_def void_destroy_def)

text \<open>
  The result of a coroutine that has not finished is where the two classes differ: the primary template throws
  since there is no value, and the specialisation reports success.
\<close>

lemma unfinished_result:
  "await_resume (new_promise_void b) = Inl BadOptionalAccess" "await_resume_void (new_promise_void b) = Inr ()"
  by (simp_all add: await_resume_def await_resume_void_def new_promise_void_def)

subsection \<open>Properties\<close>





end
