(* ===== verification/Socket.thy ===== *)
theory Socket
  imports IOContext Buffer
begin

text \<open>
  The sockets of \<open>include/net/Socket.hpp\<close>. The system calls are arguments: what \<open>socket\<close>, \<open>bind\<close>, \<open>listen\<close>,
  \<open>accept4\<close>, \<open>readv\<close> and \<open>write\<close> answer. Asynchronous reading, writing and accepting are bodies of awaitable
  coroutines, over the list of the answers that the system gives to the attempts; where this list is
  used up there is no body. Constructors, moves and \<open>close\<close> work on the state of the event loop with the
  set of open descriptors.
\<close>

unbundle bit_operations_syntax

definition EPOLLIN :: "32 word" where
  "EPOLLIN = 1"

definition EPOLLOUT :: "32 word" where
  "EPOLLOUT = 4"

text \<open>On Linux \<open>EWOULDBLOCK\<close> is \<open>EAGAIN\<close>.\<close>

definition EAGAIN :: nat where
  "EAGAIN = 11"

subsection \<open>Awaiting a descriptor\<close>

text \<open>Reading and writing add events to those that \<open>get_events\<close> gives, accepting awaits exactly its own.\<close>

datatype wait_key = Adding int "32 word" | Exactly int "32 word"

fun key_fd :: "wait_key \<Rightarrow> int" where
  "key_fd (Adding fd ev) = fd"
| "key_fd (Exactly fd ev) = fd"

fun socket_suspend :: "kernel \<Rightarrow> wait_key \<Rightarrow> nat \<Rightarrow> ('v, 'k, 'm) io_world_scheme \<Rightarrow> ('v, 'k, 'm) io_world_scheme" where
  "socket_suspend ctl (Adding fd ev) h s =
     (let (prev_events, s1) = get_events fd s in fd_await_suspend ctl fd (or prev_events ev) h s1)"
| "socket_suspend ctl (Exactly fd ev) h s = fd_await_suspend ctl fd ev h s"

definition socket_wake :: "wait_key \<Rightarrow> ('v, 'k, 'm) io_world_scheme \<Rightarrow> ('v, 'k, 'm) io_world_scheme" where
  "socket_wake k s = io_round (Some [(key_fd k, 0)]) s"

definition socket_usable :: "wait_key \<Rightarrow> ('v, 'k, 'm) io_world_scheme \<Rightarrow> bool" where
  "socket_usable k s \<longleftrightarrow> interest s (key_fd k) \<noteq> None"

context epoll_kernel
begin

lemma socket_suspend_wake:
  assumes "socket_usable k s"
  shows "\<exists>ev. socket_wake k (socket_suspend ctl k h s)
    = s\<lparr>waiters := (waiters s)(key_fd k := None), interest := (interest s)(key_fd k \<mapsto> ev), pool_tasks := pool_tasks s @ [Some h]\<rparr>"
proof (cases k)
  case (Adding fd ev)
  with assms show ?thesis
    by (auto simp: socket_usable_def socket_wake_def io_round_def get_events_def suspend_dispatch split: option.splits)
next
  case (Exactly fd ev)
  with assms show ?thesis by (auto simp: socket_usable_def socket_wake_def io_round_def suspend_dispatch)
qed

lemma socket_awaiter:
  "other_awaiter (socket_suspend ctl) (socket_wake :: wait_key \<Rightarrow> ('v, wait_key, 'm) io_world_scheme \<Rightarrow> ('v, wait_key, 'm) io_world_scheme) socket_usable"
proof
  fix k k' h and s :: "('v, wait_key, 'm) io_world_scheme"
  assume u: "socket_usable k s"
  obtain ev where e: "socket_wake k (socket_suspend ctl k h s)
      = s\<lparr>waiters := (waiters s)(key_fd k := None), interest := (interest s)(key_fd k \<mapsto> ev), pool_tasks := pool_tasks s @ [Some h]\<rparr>"
    using socket_suspend_wake [OF u] by blast
  show "promises (socket_wake k (socket_suspend ctl k h s)) = promises s
      \<and> next_handle (socket_wake k (socket_suspend ctl k h s)) = next_handle s
      \<and> pool_tasks (socket_wake k (socket_suspend ctl k h s)) = [Some h] \<and> control (socket_wake k (socket_suspend ctl k h s)) = control s"
    if "pool_tasks s = []" using that by (simp add: e)
  show "socket_usable k' (socket_wake k (socket_suspend ctl k h s))" if "socket_usable k' s"
    using that by (simp add: e socket_usable_def)
qed (simp add: socket_usable_def)

end

interpretation sa: other_awaiter "socket_suspend documented_ctl" socket_wake socket_usable
  by (rule dk.socket_awaiter)

interpretation sm: coroutine_machine "socket_suspend documented_ctl" socket_wake socket_usable
    "coro_step (socket_suspend documented_ctl) socket_wake" set_result await_resume
  by (rule sa.coro_machine)

subsection \<open>Reading, writing and accepting\<close>

fun async_read :: "int \<Rightarrow> (nat list \<Rightarrow> nat + string) list \<Rightarrow> buffer \<Rightarrow> (nat \<times> buffer, wait_key) coro_body option" where
  "async_read fd [] b = None"
| "async_read fd (readv # answers) b =
     (case readFd readv b of
        None \<Rightarrow> None
      | Some ((n, savedErrno), b1) \<Rightarrow>
          (let saveErr = (case savedErrno of None \<Rightarrow> 0 | Some e \<Rightarrow> e) in
           if n \<ge> 0 then Some (Ret (nat n, b1))
           else if saveErr = EAGAIN then map_option (AwaitOther (Adding fd EPOLLIN)) (async_read fd answers b1)
           else Some (Raise (SystemError saveErr ''read failed''))))"

fun async_write :: "int \<Rightarrow> (string \<Rightarrow> nat + nat) list \<Rightarrow> buffer \<Rightarrow> (nat \<times> buffer, wait_key) coro_body option" where
  "async_write fd [] b = (if readableBytes b = 0 then Some (Ret (0, b)) else None)"
| "async_write fd (write # answers) b =
     (if readableBytes b = 0 then Some (Ret (0, b))
      else
        case writeFd write b of
          None \<Rightarrow> None
        | Some ((n, savedErrno), b1) \<Rightarrow>
            (let saveErr = (case savedErrno of None \<Rightarrow> 0 | Some e \<Rightarrow> e) in
             if n \<ge> 0 then Some (Ret (nat n, b1))
             else if saveErr = EAGAIN then map_option (AwaitOther (Adding fd EPOLLOUT)) (async_write fd answers b1)
             else Some (Raise (SystemError saveErr ''write failed''))))"

text \<open>The value of an accepting coroutine is the descriptor of the new socket.\<close>

fun async_accept :: "int \<Rightarrow> (nat + int) list \<Rightarrow> (int, wait_key) coro_body option" where
  "async_accept fd [] = None"
| "async_accept fd (Inr cfd # answers) = Some (Ret cfd)"
| "async_accept fd (Inl e # answers) =
     (if e = EAGAIN then map_option (AwaitOther (Exactly fd EPOLLIN)) (async_accept fd answers)
      else Some (Raise (SystemError e ''accept failed'')))"

subsection \<open>Sockets and acceptors\<close>

record ('v, 'k) net_world = "('v, 'k) io_world" +
  open_fds :: "int set"
  fd_flags :: "int \<Rightarrow> 32 word"

text \<open>A socket has a descriptor, -1 for none, and a pointer to the context, which may be null.\<close>

record socket =
  sockfd :: int
  has_ctx :: bool

definition default_Socket :: socket where
  "default_Socket = \<lparr>sockfd = - 1, has_ctx = False\<rparr>"

definition new_Socket :: "kernel \<Rightarrow> int \<Rightarrow> ('v, 'k, 'm) net_world_scheme \<Rightarrow> exn option \<times> socket \<times> ('v, 'k, 'm) net_world_scheme" where
  "new_Socket ctl fd s =
     (let so = \<lparr>sockfd = fd, has_ctx = True\<rparr> in
      if fd \<ge> 0 then (let (e, s1) = add_fd ctl fd EPOLLIN s in (e, so, s1)) else (None, so, s))"

text \<open>\<open>close\<close>: an exception from the event loop leaves the descriptor open.\<close>

definition socket_close :: "kernel \<Rightarrow> socket \<Rightarrow> ('v, 'k, 'm) net_world_scheme \<Rightarrow> exn option \<times> socket \<times> ('v, 'k, 'm) net_world_scheme" where
  "socket_close ctl so s =
     (if sockfd so \<ge> 0
      then
        (let (e, s1) = (if has_ctx so then remove_fd ctl (sockfd so) s else (None, s)) in
         case e of
           Some x \<Rightarrow> (Some x, so, s1)
         | None \<Rightarrow> (None, so\<lparr>sockfd := - 1\<rparr>, s1\<lparr>open_fds := open_fds s1 - {sockfd so}\<rparr>))
      else (None, so, s))"

text \<open>The new socket and the one moved from.\<close>

definition socket_move :: "socket \<Rightarrow> socket \<times> socket" where
  "socket_move o1 = (\<lparr>sockfd = sockfd o1, has_ctx = has_ctx o1\<rparr>, \<lparr>sockfd = - 1, has_ctx = False\<rparr>)"

text \<open>
  Assignment of another object. It is declared not to throw, so that an exception from \<open>close\<close> ends the
  program, which is \<open>None\<close>. The assignment of a socket to itself changes nothing and has no model.
\<close>

definition socket_assign :: "kernel \<Rightarrow> socket \<Rightarrow> socket \<Rightarrow> ('v, 'k, 'm) net_world_scheme \<Rightarrow> (socket \<times> socket \<times> ('v, 'k, 'm) net_world_scheme) option" where
  "socket_assign ctl this o1 s =
     (case socket_close ctl this s of
        (Some e, this1, s1) \<Rightarrow> None
      | (None, this1, s1) \<Rightarrow> Some (this1\<lparr>sockfd := sockfd o1, has_ctx := has_ctx o1\<rparr>, \<lparr>sockfd = - 1, has_ctx = False\<rparr>, s1))"

text \<open>The destructor is \<open>close\<close>; an exception that leaves it terminates the program, which is \<open>None\<close>.\<close>

definition socket_destroy :: "kernel \<Rightarrow> socket \<Rightarrow> ('v, 'k, 'm) net_world_scheme \<Rightarrow> ('v, 'k, 'm) net_world_scheme option" where
  "socket_destroy ctl so s = (case socket_close ctl so s of (Some e, so1, s1) \<Rightarrow> None | (None, so1, s1) \<Rightarrow> Some s1)"

text \<open>
  The constructor of an acceptor, with the answers of the system calls, and of \<open>inet_addr\<close>, as a record: \<open>fcntl\<close> with \<open>F_GETFL\<close>
  gives the flags of a descriptor, and \<open>bind\<close> and \<open>listen\<close> give an error number or succeed. \<open>SO_REUSEADDR\<close> is
  set without a look at the result and changes nothing here; \<open>F_SETFL\<close> succeeds. The host is little endian, so
  \<open>htons\<close> swaps the two bytes of the port. When the constructor throws, the destructor does not run. The result is
  the listening descriptor.
\<close>

record endpoint =
  ip :: string
  port :: "16 word"

definition default_EndPoint :: endpoint where
  "default_EndPoint = \<lparr>ip = ''0.0.0.0'', port = 0\<rparr>"

record system_calls =
  sys_socket :: "nat + int"
  sys_getfl :: "int \<Rightarrow> 32 word"
  sys_inet_addr :: "string \<Rightarrow> 32 word"
  sys_bind :: "int \<Rightarrow> 16 word \<times> 32 word \<Rightarrow> nat option"
  sys_listen :: "int \<Rightarrow> nat option"

definition htons :: "16 word \<Rightarrow> 16 word" where
  "htons p = push_bit 8 p OR drop_bit 8 p"

definition O_NONBLOCK :: "32 word" where
  "O_NONBLOCK = 2048"

definition new_Acceptor ::
    "kernel \<Rightarrow> system_calls \<Rightarrow> bool \<Rightarrow> endpoint \<Rightarrow> ('v, 'k, 'm) net_world_scheme \<Rightarrow> int result \<times> ('v, 'k, 'm) net_world_scheme" where
  "new_Acceptor ctl sys ctx_given ep s =
     (if \<not> ctx_given then (Inl (InvalidArgument ''Acceptor needs IOContext''), s)
      else
        case sys_socket sys of
          Inl e \<Rightarrow> (Inl (SystemError e ''socket failed''), s)
        | Inr listenfd \<Rightarrow>
            (let flags = sys_getfl sys listenfd;
                 s1 = s\<lparr>open_fds := insert listenfd (open_fds s), fd_flags := (fd_flags s)(listenfd := flags OR O_NONBLOCK)\<rparr>;
                 addr = (htons (port ep), sys_inet_addr sys (ip ep)) in
             case sys_bind sys listenfd addr of
               Some e \<Rightarrow> (Inl (SystemError e ''bind failed''), s1)
             | None \<Rightarrow>
                 (case sys_listen sys listenfd of
                    Some e \<Rightarrow> (Inl (SystemError e ''listen failed''), s1)
                  | None \<Rightarrow>
                      (case add_fd ctl listenfd EPOLLIN s1 of
                         (Some e, s2) \<Rightarrow> (Inl e, s2)
                       | (None, s2) \<Rightarrow> (Inr listenfd, s2)))))"

definition acceptor_close :: "kernel \<Rightarrow> int \<Rightarrow> ('v, 'k, 'm) net_world_scheme \<Rightarrow> exn option \<times> int \<times> ('v, 'k, 'm) net_world_scheme" where
  "acceptor_close ctl listenfd s =
     (if listenfd \<ge> 0
      then
        (case remove_fd ctl listenfd s of
           (Some e, s1) \<Rightarrow> (Some e, listenfd, s1)
         | (None, s1) \<Rightarrow> (None, - 1, s1\<lparr>open_fds := open_fds s1 - {listenfd}\<rparr>))
      else (None, listenfd, s))"

definition acceptor_destroy :: "kernel \<Rightarrow> int \<Rightarrow> ('v, 'k, 'm) net_world_scheme \<Rightarrow> ('v, 'k, 'm) net_world_scheme option" where
  "acceptor_destroy ctl listenfd s = (case acceptor_close ctl listenfd s of (Some e, fd1, s1) \<Rightarrow> None | (None, fd1, s1) \<Rightarrow> Some s1)"

subsection \<open>What the bodies mean\<close>



lemma async_read_fails:
  assumes "readv (read_vecs b) = Inl e" "e \<noteq> EAGAIN"
  shows "async_read fd (readv # answers) b = Some (Raise (SystemError e ''read failed''))"
  using assms by (simp add: readFd_error)

lemma async_write_waits:
  assumes "buffer_inv b" "contents b \<noteq> []" "list_all (\<lambda>w. w (contents b) = Inl EAGAIN) waits"
    and "async_write fd answers b = Some body"
  shows "\<exists>body'. async_write fd (waits @ answers) b = Some body' \<and> eval_body body' = eval_body body
    \<and> set_coro_body body' \<subseteq> insert (Adding fd EPOLLOUT) (set_coro_body body)"
  using assms(3,4)
proof (induction waits)
  case (Cons w waits)
  then obtain body' where "async_write fd (waits @ answers) b = Some body'" "eval_body body' = eval_body body"
    "set_coro_body body' \<subseteq> insert (Adding fd EPOLLOUT) (set_coro_body body)" by auto
  moreover have "writeFd w b = Some ((- 1, Some EAGAIN), b)" using Cons.prems(1) by (simp add: writeFd_spec [OF assms(1)])
  moreover have "readableBytes b \<noteq> 0" using assms(2) by (simp add: readableBytes_contents [OF assms(1)])
  ultimately show ?case by auto
qed auto

lemma async_write_ready:
  assumes "buffer_inv b" "contents b \<noteq> []" "write (contents b) = Inr n"
  shows "async_write fd (write # answers) b = Some (Ret (n, retrieve n b))"
  using assms(2,3) by (simp add: writeFd_spec [OF assms(1)] readableBytes_contents [OF assms(1)])

lemma async_accept_waits:
  "\<exists>body. async_accept fd (replicate n (Inl EAGAIN) @ [Inr cfd]) = Some body \<and> eval_body body = Inr cfd
     \<and> set_coro_body body \<subseteq> {Exactly fd EPOLLIN}"
  by (induction n) auto


definition net_start :: "(nat, wait_key) net_world" where
  "net_start = \<lparr>promises = (\<lambda>_. None), next_handle = 0, pool_tasks = [], control = Idle,
     waiters = (\<lambda>_. None), interest = (\<lambda>_. None), running = True, open_fds = {7}, fd_flags = (\<lambda>_. 0)\<rparr>"




subsection \<open>Properties\<close>



text \<open>
  C36: a socket on a descriptor, moved to another one and closed: the registration is gone as before,
  the waiter and the descriptor with it, closing again changes nothing, and neither does closing the
  socket that was moved from, so that each descriptor is closed once.
\<close>

theorem socket_closed_once:
  assumes "epoll_kernel ctl" and "0 \<le> fd" and "new_Socket ctl fd s = (None, so, s1)" and "socket_move so = (so2, so0)"
  shows "\<exists>s2. socket_close ctl so2 s1 = (None, so2\<lparr>sockfd := - 1\<rparr>, s2)
    \<and> interest s2 = interest s \<and> waiters s2 = (waiters s)(fd := None) \<and> open_fds s2 = open_fds s - {fd}
    \<and> socket_close ctl (so2\<lparr>sockfd := - 1\<rparr>) s2 = (None, so2\<lparr>sockfd := - 1\<rparr>, s2)
    \<and> socket_close ctl so0 s2 = (None, so0, s2)"
proof -
  obtain m where m: "ctl EPOLL_CTL_ADD fd EPOLLIN (interest s) = Some m" "s1 = s\<lparr>interest := m\<rparr>" "so = \<lparr>sockfd = fd, has_ctx = True\<rparr>"
    using assms(2,3) by (auto simp: new_Socket_def add_fd_def epoll_add_def split: option.splits sum.splits)
  then have a: "interest s fd = None" "m = (interest s)(fd \<mapsto> EPOLLIN)"
    using epoll_kernel.add_result [OF assms(1) m(1)] by simp_all
  have d: "ctl EPOLL_CTL_DEL fd 0 m = Some (interest s)"
    using epoll_kernel.delete_registered [OF assms(1), of m fd 0] a by (simp add: fun_upd_idem)
  let ?s2 = "s1\<lparr>waiters := (waiters s)(fd := None), interest := interest s, open_fds := open_fds s - {fd}\<rparr>"
  have so: "so2 = \<lparr>sockfd = fd, has_ctx = True\<rparr>" "so0 = \<lparr>sockfd = - 1, has_ctx = False\<rparr>"
    using assms(4) m(3) by (simp_all add: socket_move_def)
  have "socket_close ctl so2 s1 = (None, so2\<lparr>sockfd := - 1\<rparr>, ?s2)"
    using assms(2) d by (simp add: so m(2) socket_close_def remove_fd_def epoll_remove_def)
  then show ?thesis by (simp add: so socket_close_def)
qed

theorem socket_closed_once_witness:
  "\<exists>so s1 s2. new_Socket documented_ctl 7 net_start = (None, so, s1) \<and> socket_close documented_ctl so s1 = (None, so\<lparr>sockfd := - 1\<rparr>, s2)
    \<and> open_fds s2 = {} \<and> interest s2 = (\<lambda>_. None)"
proof -
  obtain so s1 where n: "new_Socket documented_ctl 7 net_start = (None, so, s1)"
    by (simp add: new_Socket_def add_fd_def epoll_add_def net_start_def)
  have m: "socket_move so = (so, \<lparr>sockfd = - 1, has_ctx = False\<rparr>)" by (simp add: socket_move_def)
  have "(0 :: int) \<le> 7" by simp
  from socket_closed_once [OF dk.epoll_kernel_axioms this n m] n show ?thesis by (auto simp: net_start_def)
qed

text \<open>A constructor of an acceptor that cannot bind throws and leaves its descriptor open.\<close>

lemma acceptor_leaks_descriptor:
  assumes "sys_socket sys = Inr fd" "sys_bind sys fd (htons (port ep), sys_inet_addr sys (ip ep)) = Some e"
  shows "fst (new_Acceptor ctl sys True ep s) = Inl (SystemError e ''bind failed'') \<and> fd \<in> open_fds (snd (new_Acceptor ctl sys True ep s))"
  using assms by (simp add: new_Acceptor_def)

text \<open>The address has the two bytes of the port exchanged, and a second conversion gives the port back.\<close>

lemma htons_bytes: "take_bit 8 (htons p) = drop_bit 8 p \<and> drop_bit 8 (htons p) = take_bit 8 p"
proof
  show "take_bit 8 (htons p) = drop_bit 8 p"
    by (rule bit_word_eqI) (auto simp: htons_def bit_simps dest: bit_imp_le_length)
  show "drop_bit 8 (htons p) = take_bit 8 p"
    by (rule bit_word_eqI) (auto simp: htons_def bit_simps dest: bit_imp_le_length)
qed

lemma htons_htons: "htons (htons p) = p"
proof -
  have "htons (htons p) = push_bit 8 (take_bit 8 (htons p)) OR drop_bit 8 (htons p)"
    by (rule bit_word_eqI) (auto simp: htons_def bit_simps dest: bit_imp_le_length)
  also have "\<dots> = push_bit 8 (drop_bit 8 p) OR take_bit 8 p" using htons_bytes [of p] by simp
  also have "\<dots> = p" by (rule bit_word_eqI) (auto simp: bit_simps)
  finally show ?thesis .
qed

text \<open>A new acceptor listens on a non-blocking registered descriptor, and destroying it undoes what the constructor did.\<close>

lemma acceptor_lifetime:
  assumes "epoll_kernel ctl" "sys_socket sys = Inr fd" "0 \<le> fd" "interest s fd = None" "fd \<notin> open_fds s"
    and "new_Acceptor ctl sys True ep s = (Inr fd', s1)"
  shows "fd' = fd \<and> interest s1 fd = Some EPOLLIN \<and> fd_flags s1 fd AND O_NONBLOCK = O_NONBLOCK
    \<and> (\<exists>s2. acceptor_destroy ctl fd s1 = Some s2 \<and> open_fds s2 = open_fds s \<and> interest s2 = interest s)"
proof -
  obtain m where m: "ctl EPOLL_CTL_ADD fd EPOLLIN (interest s) = Some m" and fd': "fd' = fd"
    and s1: "s1 = s\<lparr>open_fds := insert fd (open_fds s), fd_flags := (fd_flags s)(fd := sys_getfl sys fd OR O_NONBLOCK), interest := m\<rparr>"
    using assms(2,6) by (auto simp: new_Acceptor_def add_fd_def epoll_add_def Let_def split: option.splits prod.splits sum.splits)
  have mm: "m = (interest s)(fd \<mapsto> EPOLLIN)" using epoll_kernel.add_result [OF assms(1) m] by simp
  have "ctl EPOLL_CTL_DEL fd 0 m = Some (interest s)"
    using epoll_kernel.delete_registered [OF assms(1), of m fd 0] assms(4) by (simp add: mm fun_upd_idem)
  then have "\<exists>s2. acceptor_destroy ctl fd s1 = Some s2 \<and> open_fds s2 = open_fds s \<and> interest s2 = interest s"
    using assms(3,5) by (simp add: acceptor_destroy_def acceptor_close_def remove_fd_def epoll_remove_def s1)
  moreover have "(x OR O_NONBLOCK) AND O_NONBLOCK = O_NONBLOCK" for x by (rule bit_word_eqI) (auto simp: bit_simps)
  ultimately show ?thesis using fd' by (simp add: s1 mm)
qed

end
