(* ===== verification/Format.thy ===== *)
theory Format
  imports Double "HOL-Library.Word"
begin

text \<open>
  String formatting of \<open>include/log/format.hpp\<close>. The output stream is explicit, with the flags that
  the manipulators set: the base of integers, upper case, names for \<open>bool\<close>, the notation and the precision of
  floating-point numbers. All arguments of one call print to the same stream, so that a flag that
  is not reset is seen by the arguments after it. A template argument is a value of the type below,
  one constructor per overload of \<open>format_impl\<close>, where integers have a width and characters,
  which are integers to the overloads, print as characters.

  The loop of \<open>vformat\<close> is a partial function, and that it always returns is a theorem.
\<close>

subsection \<open>The stream\<close>

datatype int_base = Dec | Hex | Oct

record ostream =
  out :: string
  int_base :: int_base
  uppercase :: bool
  boolalpha :: bool
  float_field :: floatfield
  precision :: int

definition new_ostream :: ostream where
  "new_ostream = \<lparr>out = [], int_base = Dec, uppercase = False, boolalpha = False, float_field = DefaultFloat, precision = 6\<rparr>"

definition put :: "string \<Rightarrow> ostream \<Rightarrow> ostream" where
  "put t os = os\<lparr>out := out os @ t\<rparr>"

fun show_base :: "nat \<Rightarrow> nat \<Rightarrow> string" where
  "show_base b n =
     (if b < 2 \<or> n < b then [if n < 10 then digit_char n else char_of (87 + n)]
      else show_base b (n div b) @ [if n mod b < 10 then digit_char (n mod b) else char_of (87 + n mod b)])"

declare show_base.simps [simp del]

text \<open>An integer of \<open>w\<close> bits; outside the base ten it prints as the unsigned integer of its width.\<close>

definition put_int :: "nat \<Rightarrow> int \<Rightarrow> ostream \<Rightarrow> ostream" where
  "put_int w v os =
     put (let up = (if uppercase os then map toupper else (\<lambda>t. t)) in
          case int_base os of
            Dec \<Rightarrow> show_int v
          | Hex \<Rightarrow> up (show_base 16 (nat (v mod 2 ^ w)))
          | Oct \<Rightarrow> show_base 8 (nat (v mod 2 ^ w))) os"

definition put_double :: "double \<Rightarrow> ostream \<Rightarrow> ostream" where
  "put_double d os =
     put (print_double (float_field os) (uppercase os) (if precision os < 0 then 6 else nat (precision os)) d) os"

definition put_bool :: "bool \<Rightarrow> ostream \<Rightarrow> ostream" where
  "put_bool b os =
     put (if boolalpha os then (if b then ''true'' else ''false'') else (if b then ''1'' else ''0'')) os"

text \<open>A pointer prints in lower case hexadecimal with its prefix, the null pointer without.\<close>

definition put_pointer :: "nat \<Rightarrow> ostream \<Rightarrow> ostream" where
  "put_pointer a os = put (if a = 0 then ''0'' else ''0x'' @ show_base 16 a) os"

subsection \<open>Conversions\<close>

text \<open>\<open>std::stoi\<close> and \<open>std::stoul\<close>: leading space and a sign are accepted and what follows the digits is ignored.\<close>

definition signed_digits :: "string \<Rightarrow> (bool \<times> nat) option" where
  "signed_digits t =
     (let (neg, r) = sign_prefix (dropWhile isspace t); ds = takeWhile isdigit r
      in if ds = [] then None else Some (neg, read_nat ds))"

definition stoi :: "string \<Rightarrow> int result" where
  "stoi t =
     (case signed_digits t of
        None \<Rightarrow> Inl (InvalidArgument ''stoi'')
      | Some (neg, n) \<Rightarrow>
          (let v = (if neg then - int n else int n) in
           if - (2 ^ 31) \<le> v \<and> v < 2 ^ 31 then Inr v else Inl (OutOfRange ''stoi'')))"

definition stoul :: "string \<Rightarrow> nat result" where
  "stoul t =
     (case signed_digits t of
        None \<Rightarrow> Inl (InvalidArgument ''stoul'')
      | Some (neg, n) \<Rightarrow>
          if 2 ^ 64 \<le> n then Inl (OutOfRange ''stoul'') else Inr (if neg then nat ((- int n) mod 2 ^ 64) else n))"

subsection \<open>Arguments\<close>

datatype format_arg =
    IntArg nat int
  | CharArg char
  | DoubleArg double
  | StringArg string
  | PointerArg nat
  | BoolArg bool

text \<open>Integers and characters, given how they print and their bits from the highest down.\<close>

definition format_integral :: "string \<Rightarrow> (ostream \<Rightarrow> ostream) \<Rightarrow> string \<Rightarrow> ostream \<Rightarrow> ostream" where
  "format_integral spec put_value bits os =
     (case spec of
        [] \<Rightarrow> put_value os
      | c # _ \<Rightarrow>
          if c = CHR ''x'' \<or> c = CHR ''X'' then
            (let os1 = os\<lparr>int_base := Hex\<rparr>;
                 os2 = (if c = CHR ''X'' then os1\<lparr>uppercase := True\<rparr> else os1)
             in (put_value os2)\<lparr>int_base := Dec, uppercase := False\<rparr>)
          else if c = CHR ''o'' then (put_value (os\<lparr>int_base := Oct\<rparr>))\<lparr>int_base := Dec\<rparr>
          else if c = CHR ''b'' then put bits (put ''0b'' os)
          else put_value os)"

definition int_bits :: "nat \<Rightarrow> int \<Rightarrow> string" where
  "int_bits w v = map (\<lambda>i. if (v div 2 ^ i) mod 2 = 1 then CHR ''1'' else CHR ''0'') (rev [0..<w])"

definition format_floating :: "string \<Rightarrow> double \<Rightarrow> ostream \<Rightarrow> ostream" where
  "format_floating spec d os =
     (if spec = [] then put_double d os
      else if spec = ''f'' \<or> spec = ''F'' then put_double d (os\<lparr>float_field := Fixed\<rparr>)
      else if spec = ''e'' \<or> spec = ''E'' then
        (let os1 = os\<lparr>float_field := Scientific\<rparr>; os2 = (if spec = ''E'' then os1\<lparr>uppercase := True\<rparr> else os1)
         in (put_double d os2)\<lparr>uppercase := False\<rparr>)
      else if spec = ''g'' \<or> spec = ''G'' then
        (let os1 = os\<lparr>float_field := DefaultFloat\<rparr>; os2 = (if spec = ''G'' then os1\<lparr>uppercase := True\<rparr> else os1)
         in (put_double d os2)\<lparr>uppercase := False\<rparr>)
      else if hd spec = CHR ''.'' then
        (case stoi (tl spec) of
           Inl _ \<Rightarrow> put_double d os
         | Inr p \<Rightarrow> put_double d (os\<lparr>float_field := Fixed, precision := p\<rparr>))
      else put_double d os)"

definition format_string :: "string \<Rightarrow> string \<Rightarrow> ostream \<Rightarrow> ostream" where
  "format_string spec t os = put t os"

definition format_pointer :: "string \<Rightarrow> nat \<Rightarrow> ostream \<Rightarrow> ostream" where
  "format_pointer spec a os = put_pointer a os"

definition format_bool :: "string \<Rightarrow> bool \<Rightarrow> ostream \<Rightarrow> ostream" where
  "format_bool spec b os =
     (if spec = [] then put_bool b (os\<lparr>boolalpha := True\<rparr>)
      else if spec = ''d'' then put_int 32 (if b then 1 else 0) os
      else if spec = ''s'' then put (if b then ''true'' else ''false'') os
      else put_bool b (os\<lparr>boolalpha := True\<rparr>))"

fun format_one :: "format_arg \<Rightarrow> string \<Rightarrow> ostream \<Rightarrow> ostream" where
  "format_one (IntArg w v) spec os = format_integral spec (put_int w v) (int_bits w v) os"
| "format_one (CharArg c) spec os = format_integral spec (put [c]) (int_bits 8 (of_char c)) os"
| "format_one (DoubleArg d) spec os = format_floating spec d os"
| "format_one (StringArg t) spec os = format_string spec t os"
| "format_one (PointerArg a) spec os = format_pointer spec a os"
| "format_one (BoolArg b) spec os = format_bool spec b os"

definition get_arg :: "format_arg list \<Rightarrow> nat \<Rightarrow> format_arg result" where
  "get_arg ctx index =
     (if length ctx \<le> index then Inl (FormatError ''Argument index out of range'') else Inr (ctx ! index))"

subsection \<open>The format string\<close>

text \<open>The first position from \<open>pos\<close> on with a character as asked for: \<open>find\<close> and \<open>find_first_of\<close>.\<close>

definition find_from :: "(char \<Rightarrow> bool) \<Rightarrow> string \<Rightarrow> nat \<Rightarrow> nat option" where
  "find_from P s pos =
     (let n = length (takeWhile (\<lambda>c. \<not> P c) (drop pos s)) in if pos + n < length s then Some (pos + n) else None)"

definition is_brace :: "char \<Rightarrow> bool" where
  "is_brace c \<longleftrightarrow> c = CHR ''{'' \<or> c = CHR ''}''"

text \<open>What stands between the braces: nothing, or an index with an optional specification.\<close>

definition replacement :: "format_arg list \<Rightarrow> string \<Rightarrow> nat \<Rightarrow> ostream \<Rightarrow> (nat \<times> ostream) result" where
  "replacement ctx format_spec arg_index os =
     (if format_spec = [] then
        (if length ctx \<le> arg_index then Inl (FormatError ''Too few arguments provided'')
         else
           case get_arg ctx arg_index of
             Inl e \<Rightarrow> Inl e
           | Inr a \<Rightarrow> Inr (arg_index + 1, format_one a [] os))
      else
        (let colon_pos = find_from (\<lambda>c. c = CHR '':'') format_spec 0;
             index_str = (case colon_pos of None \<Rightarrow> format_spec | Some p \<Rightarrow> take p format_spec);
             spec_str = (case colon_pos of None \<Rightarrow> [] | Some p \<Rightarrow> drop (p + 1) format_spec)
         in case stoul index_str of
              Inl _ \<Rightarrow> Inl (FormatError (''Invalid argument index: '' @ index_str))
            | Inr index \<Rightarrow>
                if length ctx \<le> index then Inl (FormatError (''Argument index out of range: '' @ show_nat index))
                else
                  case get_arg ctx index of
                    Inl e \<Rightarrow> Inl e
                  | Inr a \<Rightarrow> Inr (arg_index, format_one a spec_str os)))"

partial_function (option) vformat_loop ::
    "string \<Rightarrow> format_arg list \<Rightarrow> nat \<Rightarrow> nat \<Rightarrow> ostream \<Rightarrow> (nat \<times> ostream) result option" where
  "vformat_loop fmt ctx pos arg_index os =
     (if pos < length fmt then
        (case find_from is_brace fmt pos of
           None \<Rightarrow> Some (Inr (arg_index, put (drop pos fmt) os))
         | Some next_brace \<Rightarrow>
             (let os1 = put (take (next_brace - pos) (drop pos fmt)) os in
              if fmt ! next_brace = CHR ''}'' then
                (if next_brace + 1 < length fmt \<and> fmt ! (next_brace + 1) = CHR ''}''
                 then vformat_loop fmt ctx (next_brace + 2) arg_index (put ''}'' os1)
                 else Some (Inl (FormatError ''Unmatched '}' in format string'')))
              else if next_brace + 1 < length fmt \<and> fmt ! (next_brace + 1) = CHR ''{''
              then vformat_loop fmt ctx (next_brace + 2) arg_index (put ''{'' os1)
              else
                (let format_start = next_brace + 1 in
                 case find_from (\<lambda>c. c = CHR ''}'') fmt format_start of
                   None \<Rightarrow> Some (Inl (FormatError ''Unmatched '{' in format string''))
                 | Some format_end \<Rightarrow>
                     (case replacement ctx (take (format_end - format_start) (drop format_start fmt)) arg_index os1 of
                        Inl e \<Rightarrow> Some (Inl e)
                      | Inr (arg_index1, os2) \<Rightarrow> vformat_loop fmt ctx (format_end + 1) arg_index1 os2))))
      else Some (Inr (arg_index, os)))"

definition vformat :: "string \<Rightarrow> format_arg list \<Rightarrow> string result option" where
  "vformat fmt ctx =
     (case vformat_loop fmt ctx 0 0 new_ostream of
        None \<Rightarrow> None
      | Some (Inl e) \<Rightarrow> Some (Inl e)
      | Some (Inr (arg_index, os)) \<Rightarrow>
          Some (if arg_index < length ctx then Inl (FormatError ''Too many arguments provided'') else Inr (out os)))"

definition format :: "string \<Rightarrow> format_arg list \<Rightarrow> string result option" where
  "format fmt args = vformat fmt args"

subsection \<open>The loop returns\<close>

lemma find_from_bound: "find_from P s pos = Some p \<Longrightarrow> pos \<le> p \<and> p < length s"
  by (auto simp: find_from_def Let_def split: if_splits)

lemma vformat_loop_returns: "\<exists>r. vformat_loop fmt ctx pos arg_index os = Some r"
proof (induction "length fmt - pos" arbitrary: pos arg_index os rule: less_induct)
  case less
  have IH: "\<exists>r. vformat_loop fmt ctx p i o1 = Some r" if "pos < p" "pos < length fmt" for p i o1
    using less.hyps [of p] that by simp
  show ?case
  proof (cases "find_from is_brace fmt pos")
    case None
    then show ?thesis by (subst vformat_loop.simps) simp
  next
    case (Some b)
    note bound = find_from_bound [OF Some]
    show ?thesis
    proof (cases "find_from (\<lambda>c. c = CHR ''}'') fmt (b + 1)")
      case None
      with Some bound IH show ?thesis by (subst vformat_loop.simps) (simp add: Let_def)
    next
      case (Some e)
      with find_from_bound [OF Some] \<open>find_from is_brace fmt pos = Some b\<close> bound IH show ?thesis
        by (subst vformat_loop.simps) (auto simp: Let_def split: sum.splits)
    qed
  qed
qed

subsection \<open>Format strings made of pieces\<close>

datatype piece = Text string | Auto | Manual nat string

definition escape :: "char \<Rightarrow> string" where
  "escape c = (if is_brace c then [c, c] else [c])"

fun print_piece :: "piece \<Rightarrow> string" where
  "print_piece (Text t) = concat (map escape t)"
| "print_piece Auto = ''{}''"
| "print_piece (Manual i spec) = CHR ''{'' # show_nat i @ (if spec = [] then [] else CHR '':'' # spec) @ ''}''"

definition print_pieces :: "piece list \<Rightarrow> string" where
  "print_pieces ps = concat (map print_piece ps)"

fun piece_ok :: "piece \<Rightarrow> bool" where
  "piece_ok (Manual i spec) \<longleftrightarrow> i < 2 ^ 64 \<and> CHR ''}'' \<notin> set spec"
| "piece_ok _ \<longleftrightarrow> True"

text \<open>What the pieces ask for, without a format string.\<close>

fun render :: "format_arg list \<Rightarrow> piece list \<Rightarrow> nat \<Rightarrow> ostream \<Rightarrow> (nat \<times> ostream) result" where
  "render args [] i os = Inr (i, os)"
| "render args (Text t # ps) i os = render args ps i (put t os)"
| "render args (Auto # ps) i os =
     (if i < length args then render args ps (i + 1) (format_one (args ! i) [] os)
      else Inl (FormatError ''Too few arguments provided''))"
| "render args (Manual k spec # ps) i os =
     (if k < length args then render args ps i (format_one (args ! k) spec os)
      else Inl (FormatError (''Argument index out of range: '' @ show_nat k)))"

definition render_all :: "piece list \<Rightarrow> format_arg list \<Rightarrow> string result" where
  "render_all ps args =
     (case render args ps 0 new_ostream of
        Inl e \<Rightarrow> Inl e
      | Inr (i, os) \<Rightarrow> if i < length args then Inl (FormatError ''Too many arguments provided'') else Inr (out os))"

subsection \<open>The loop on pieces\<close>

lemma put_put [simp]: "put u (put t os) = put (t @ u) os"
  by (simp add: put_def)

lemma put_Nil [simp]: "put [] os = os"
  by (simp add: put_def)

lemma find_from_here: "pos < length s \<Longrightarrow> P (s ! pos) \<Longrightarrow> find_from P s pos = Some pos"
  by (simp add: find_from_def Cons_nth_drop_Suc [symmetric])

lemma find_from_skip: "pos < length s \<Longrightarrow> \<not> P (s ! pos) \<Longrightarrow> find_from P s pos = find_from P s (pos + 1)"
  using Cons_nth_drop_Suc [of pos s, symmetric] by (simp add: find_from_def Let_def)

lemma find_from_end: "length s \<le> pos \<Longrightarrow> find_from P s pos = None"
  by (simp add: find_from_def)

lemma find_from_text:
  assumes "str_at s pos (t @ [c])" "list_all (\<lambda>x. \<not> P x) t" "P c"
  shows "find_from P s pos = Some (pos + length t)"
  using assms
proof (induction t arbitrary: pos)
  case Nil
  then show ?case by (simp add: find_from_here str_simps)
next
  case (Cons x t)
  then have "find_from P s pos = find_from P s (pos + 1)" by (intro find_from_skip) (simp_all add: str_simps)
  with Cons show ?case by (simp add: str_simps)
qed

lemma loop_end: "length fmt \<le> pos \<Longrightarrow> vformat_loop fmt ctx pos i os = Some (Inr (i, os))"
  by (subst vformat_loop.simps) simp

text \<open>One ordinary character, an escaped brace, and a replacement field at a position.\<close>

lemma loop_plain:
  assumes "pos < length fmt" "\<not> is_brace (fmt ! pos)"
  shows "vformat_loop fmt ctx pos i os = vformat_loop fmt ctx (pos + 1) i (put [fmt ! pos] os)"
proof -
  note skip = find_from_skip [of pos fmt is_brace, OF assms]
  have d: "drop pos fmt = fmt ! pos # drop (pos + 1) fmt" using assms(1) by (simp add: Cons_nth_drop_Suc)
  show ?thesis
  proof (cases "find_from is_brace fmt (pos + 1)")
    case None
    then show ?thesis
      using assms(1) skip d by (subst (1 2) vformat_loop.simps) simp
  next
    case (Some b)
    from find_from_bound [OF Some] have b: "pos + 1 \<le> b" "b < length fmt" by simp_all
    have "take (b - pos) (drop pos fmt) = fmt ! pos # take (b - (pos + 1)) (drop (pos + 1) fmt)"
      unfolding d using b(1) by (simp add: take_Cons')
    with Some b skip assms(1) show ?thesis by (subst (1 2) vformat_loop.simps) (simp add: Let_def)
  qed
qed

lemma loop_escaped:
  assumes "str_at fmt pos [c, c]" "is_brace c"
  shows "vformat_loop fmt ctx pos i os = vformat_loop fmt ctx (pos + 2) i (put [c] os)"
proof -
  have p: "pos + 1 < length fmt" "fmt ! pos = c" "fmt ! (pos + 1) = c" using assms(1) by (simp_all add: str_simps)
  then have "find_from is_brace fmt pos = Some pos" using assms(2) by (intro find_from_here) simp_all
  with p assms(2) show ?thesis by (subst vformat_loop.simps) (auto simp: Let_def is_brace_def)
qed

lemma loop_field:
  assumes at: "str_at fmt pos (CHR ''{'' # f @ ''}'')" and f: "CHR ''}'' \<notin> set f" "take 1 f \<noteq> ''{''"
  shows "vformat_loop fmt ctx pos i os
    = (case replacement ctx f i os of Inl e \<Rightarrow> Some (Inl e) | Inr (j, os1) \<Rightarrow> vformat_loop fmt ctx (pos + length f + 2) j os1)"
proof -
  have at2: "str_at fmt (pos + 1) (f @ ''}'')" and p: "pos < length fmt" "fmt ! pos = CHR ''{''"
    using at by (simp_all add: str_simps)
  have b: "find_from is_brace fmt pos = Some pos" using p by (intro find_from_here) (simp_all add: is_brace_def)
  have e: "find_from (\<lambda>c. c = CHR ''}'') fmt (pos + 1) = Some (pos + 1 + length f)"
    using at2 f(1) by (intro find_from_text) (auto simp: list_all_iff)
  have n: "fmt ! (pos + 1) \<noteq> CHR ''{''" using at2 f(2) by (cases f) (auto simp: str_simps)
  have s: "take (length f) (drop (pos + 1) fmt) = f"
    using at2 by (simp add: str_at_append str_at_substr)
  show ?thesis using p b e n s by (subst vformat_loop.simps) (simp add: Let_def split: sum.splits)
qed

subsection \<open>Fields\<close>

lemma stoul_show_nat: "n < 2 ^ 64 \<Longrightarrow> stoul (show_nat n) = Inr n"
proof -
  assume n: "n < 2 ^ 64"
  obtain c r where c: "show_nat n = c # r" by (cases "show_nat n") simp_all
  have "isdigit c" using show_nat_digits [of n] c by simp
  then have a: "dropWhile isspace (show_nat n) = show_nat n" "sign_prefix (show_nat n) = (False, show_nat n)"
    using c by (auto simp: isspace_isdigit sign_prefix_def isdigit_def)
  have "takeWhile isdigit (show_nat n) = show_nat n"
    using show_nat_digits [of n] by (simp add: takeWhile_eq_all_conv list_all_iff)
  then show ?thesis unfolding stoul_def signed_digits_def a Let_def prod.case using n by (simp only:) simp
qed

lemma show_nat_no: "c \<in> set (show_nat n) \<Longrightarrow> c \<noteq> CHR '':'' \<and> c \<noteq> CHR ''{'' \<and> c \<noteq> CHR ''}''"
  using show_nat_digits [of n] by (auto simp: list_all_iff isdigit_def)

lemma find_colon:
  "find_from (\<lambda>c. c = CHR '':'') (show_nat k) 0 = None"
  "find_from (\<lambda>c. c = CHR '':'') (show_nat k @ CHR '':'' # spec) 0 = Some (length (show_nat k))"
proof -
  have no: "takeWhile (\<lambda>c. c \<noteq> CHR '':'') (show_nat k) = show_nat k" using show_nat_no by (auto simp: takeWhile_eq_all_conv)
  then show "find_from (\<lambda>c. c = CHR '':'') (show_nat k) 0 = None" by (simp only: find_from_def drop_0) simp
  have "takeWhile (\<lambda>c. c \<noteq> CHR '':'') (show_nat k @ CHR '':'' # spec) = show_nat k"
    using show_nat_no by (subst takeWhile_append2) auto
  then show "find_from (\<lambda>c. c = CHR '':'') (show_nat k @ CHR '':'' # spec) 0 = Some (length (show_nat k))"
    by (simp add: find_from_def)
qed

lemma replacement_manual:
  assumes "k < 2 ^ 64"
  shows "replacement ctx (show_nat k @ (if spec = [] then [] else CHR '':'' # spec)) i os
    = (if k < length ctx then Inr (i, format_one (ctx ! k) spec os)
       else Inl (FormatError (''Argument index out of range: '' @ show_nat k)))"
  using stoul_show_nat [OF assms] by (auto simp: replacement_def find_colon get_arg_def Let_def)

lemma replacement_auto:
  "replacement ctx [] i os = (if i < length ctx then Inr (i + 1, format_one (ctx ! i) [] os)
     else Inl (FormatError ''Too few arguments provided''))"
  by (simp add: replacement_def get_arg_def)

lemma loop_text:
  "str_at fmt pos (concat (map escape t)) \<Longrightarrow>
   vformat_loop fmt ctx pos i os = vformat_loop fmt ctx (pos + length (concat (map escape t))) i (put t os)"
proof (induction t arbitrary: pos os)
  case (Cons c t)
  show ?case
  proof (cases "is_brace c")
    case True
    then have esc: "escape c = [c, c]" by (simp add: escape_def)
    then have at: "str_at fmt pos [c, c]" "str_at fmt (pos + 2) (concat (map escape t))"
      using Cons.prems by (simp_all add: str_simps)
    from loop_escaped [OF at(1) True, of ctx i os] Cons.IH [OF at(2), of "put [c] os"] esc show ?thesis by simp
  next
    case False
    then have esc: "escape c = [c]" by (simp add: escape_def)
    then have at: "pos < length fmt" "fmt ! pos = c" "str_at fmt (pos + 1) (concat (map escape t))"
      using Cons.prems by (simp_all add: str_simps)
    with loop_plain [of pos fmt ctx i os] False Cons.IH [OF at(3), of "put [c] os"] esc show ?thesis by simp
  qed
qed simp

lemma loop_pieces:
  assumes "list_all piece_ok ps" and "str_at fmt pos (print_pieces ps)" and "length fmt = pos + length (print_pieces ps)"
  shows "vformat_loop fmt ctx pos i os = Some (render ctx ps i os)"
  using assms
proof (induction ps arbitrary: pos i os)
  case Nil
  then show ?case by (simp add: loop_end print_pieces_def)
next
  case (Cons p ps)
  let ?pos = "pos + length (print_piece p)"
  have at: "str_at fmt pos (print_piece p)" "str_at fmt ?pos (print_pieces ps)"
    using Cons.prems(2) by (simp_all add: print_pieces_def str_at_append)
  have IH: "vformat_loop fmt ctx ?pos j o1 = Some (render ctx ps j o1)" for j o1
    using Cons at(2) by (simp add: print_pieces_def)
  show ?case
  proof (cases p)
    case (Text t)
    with at(1) loop_text [of fmt pos t ctx i os] IH show ?thesis by simp
  next
    case Auto
    with at(1) loop_field [of fmt pos "[]" ctx i os] IH show ?thesis by (simp add: replacement_auto numeral_2_eq_2)
  next
    case (Manual k spec)
    let ?f = "show_nat k @ (if spec = [] then [] else CHR '':'' # spec)"
    have ok: "k < 2 ^ 64" "CHR ''}'' \<notin> set spec" using Cons.prems(1) Manual by simp_all
    have "CHR ''}'' \<notin> set ?f" using ok(2) show_nat_no by auto
    moreover have "take 1 ?f \<noteq> ''{''" using show_nat_no [of _ k] by (cases "show_nat k") auto
    moreover have "str_at fmt pos (CHR ''{'' # ?f @ ''}'')" using at(1) Manual by simp
    ultimately have "vformat_loop fmt ctx pos i os = (case replacement ctx ?f i os of Inl e \<Rightarrow> Some (Inl e)
        | Inr (j, os1) \<Rightarrow> vformat_loop fmt ctx (pos + length ?f + 2) j os1)" by (intro loop_field)
    also have "pos + length ?f + 2 = ?pos" using Manual by simp
    finally show ?thesis unfolding replacement_manual [OF ok(1)] IH using Manual by simp
  qed
qed

lemma format_pieces:
  assumes "list_all piece_ok ps"
  shows "format (print_pieces ps) args = Some (render_all ps args)"
  using loop_pieces [OF assms, of "print_pieces ps" 0 args 0 new_ostream]
  by (simp add: format_def vformat_def render_all_def split: sum.splits)

lemma render_no_auto:
  "list_all (\<lambda>p. p \<noteq> Auto) ps \<Longrightarrow> (\<exists>e. render args ps i os = Inl (FormatError e)) \<or> (\<exists>os'. render args ps i os = Inr (i, os'))"
proof (induction ps arbitrary: os)
  case (Cons p ps)
  then show ?case by (cases p) auto
qed simp

text \<open>A specification without an index is read as an empty index.\<close>

lemma spec_needs_index:
  assumes "CHR ''}'' \<notin> set spec"
  shows "format (''{:'' @ spec @ ''}'') args = Some (Inl (FormatError ''Invalid argument index: ''))"
proof -
  let ?f = "CHR '':'' # spec"
  have "str_at (''{:'' @ spec @ ''}'') 0 (CHR ''{'' # ?f @ ''}'')" using str_at_self [of "''{:'' @ spec @ ''}''"] by simp
  then have "vformat_loop (''{:'' @ spec @ ''}'') args 0 0 new_ostream
      = (case replacement args ?f 0 new_ostream of Inl e \<Rightarrow> Some (Inl e)
         | Inr (j, os1) \<Rightarrow> vformat_loop (''{:'' @ spec @ ''}'') args (0 + length ?f + 2) j os1)"
    using assms by (intro loop_field) auto
  moreover have "find_from (\<lambda>c. c = CHR '':'') ?f 0 = Some 0" by (intro find_from_here) simp_all
  then have "replacement args ?f 0 new_ostream = Inl (FormatError ''Invalid argument index: '')"
    by (simp add: replacement_def stoul_def signed_digits_def sign_prefix_def Let_def)
  ultimately show ?thesis by (simp add: format_def vformat_def)
qed

subsection \<open>Properties\<close>

text \<open>
  C10: a format string made of text, automatic fields and fields with an index and a specification, where
  braces in the text are doubled, prints its pieces in order: the text as it is, and each argument as its
  field asks, on one stream; or it throws the error of the first field without an argument, or, at the
  end, that there are arguments left beyond the automatic fields.
\<close>

theorem format_renders:
  assumes "list_all piece_ok ps"
  shows "format (print_pieces ps) args = Some (render_all ps args)"
  using assms by (rule format_pieces)

theorem format_renders_witness:
  "print_pieces [Text ''a{'', Auto, Text ''}'', Manual 0 ''x''] = ''a{{{}}}{0:x}''
   \<and> format (print_pieces [Text ''a{'', Auto, Text ''}'', Manual 0 ''x'']) [IntArg 32 255] = Some (Inr ''a{255}ff'')"
proof -
  have r: "render_all [Text ''a{'', Auto, Text ''}'', Manual 0 ''x''] [IntArg 32 255] = Inr ''a{255}ff''" by code_simp
  have "list_all piece_ok [Text ''a{'', Auto, Text ''}'', Manual 0 ''x'']" by simp
  from format_renders [OF this, of "[IntArg 32 255]"] r
  have "format (print_pieces [Text ''a{'', Auto, Text ''}'', Manual 0 ''x'']) [IntArg 32 255] = Some (Inr ''a{255}ff'')" by (simp only:)
  moreover have "print_pieces [Text ''a{'', Auto, Text ''}'', Manual 0 ''x''] = ''a{{{}}}{0:x}''"
    by (simp add: print_pieces_def escape_def is_brace_def numeral_eval)
  ultimately show ?thesis by blast
qed

text \<open>C32: formatting returns or throws for every format string and all arguments: the loop ends.\<close>

theorem format_returns: "\<exists>r. format fmt args = Some r"
proof -
  obtain r where "vformat_loop fmt args 0 0 new_ostream = Some r" using vformat_loop_returns by blast
  then show ?thesis by (auto simp: format_def vformat_def split: sum.splits)
qed

text \<open>
  Fields with an index cannot be used alone: with at least one argument, a format string without
  automatic fields always throws, since only automatic fields count as uses of the arguments.
\<close>

lemma indexed_fields_throw:
  assumes "list_all piece_ok ps" and "list_all (\<lambda>p. p \<noteq> Auto) ps" and "args \<noteq> []"
  shows "\<exists>e. format (print_pieces ps) args = Some (Inl (FormatError e))"
  using render_no_auto [OF assms(2), of args 0 new_ostream] assms(3)
  by (auto simp: format_pieces [OF assms(1)] render_all_def)

lemma indexed_fields_throw_witness:
  "print_pieces [Manual 0 []] = ''{0}'' \<and> (\<exists>e. format (print_pieces [Manual 0 []]) [IntArg 32 7] = Some (Inl (FormatError e)))"
  using indexed_fields_throw [of "[Manual 0 []]" "[IntArg 32 7]"] by (simp add: print_pieces_def numeral_eval)

end
