(* ===== verification/Log.thy ===== *)
theory Log
  imports Format Transition
begin

text \<open>
  The loggers of \<open>include/log/Log.hpp\<close>. A log writes to the standard output or to a file, which are
  explicit: the text written so far, for a file including what its stream still buffers. The time as printed
  and whether a path can be opened are arguments. The six levels are ordered as in the enumeration.
\<close>

subsection \<open>Levels\<close>

datatype LogLevel = DEBUG | RELEASE | INFO | WARN | ERROR | FATAL

fun level_rank :: "LogLevel \<Rightarrow> nat" where
  "level_rank DEBUG = 0"
| "level_rank RELEASE = 1"
| "level_rank INFO = 2"
| "level_rank WARN = 3"
| "level_rank ERROR = 4"
| "level_rank FATAL = 5"

lemma level_rank_inj: "level_rank a = level_rank b \<Longrightarrow> a = b"
  by (cases a; cases b) simp_all

instantiation LogLevel :: linorder
begin

definition less_eq_LogLevel :: "LogLevel \<Rightarrow> LogLevel \<Rightarrow> bool" where
  "less_eq_LogLevel a b \<longleftrightarrow> level_rank a \<le> level_rank b"

definition less_LogLevel :: "LogLevel \<Rightarrow> LogLevel \<Rightarrow> bool" where
  "less_LogLevel a b \<longleftrightarrow> level_rank a < level_rank b"

instance
  by standard (auto simp: less_eq_LogLevel_def less_LogLevel_def intro: level_rank_inj)

end


subsection \<open>Loggers\<close>

record LogFormat =
  level_part :: string
  time_part :: string
  file_part :: string
  line_part :: string
  message_part :: string

definition kLogFormat :: string where
  "kLogFormat = ''[{level}]:[{time}]:[{file}]:[{line}]:[{message}]''"


text \<open>Where a logger writes; a file that could not be opened swallows the output.\<close>

datatype log_target = Stdout | File string bool

record logger =
  log_format :: LogFormat
  min_level :: LogLevel
  target :: log_target




subsection \<open>The factory\<close>

text \<open>Splitting at commas, as \<open>std::getline\<close> with a delimiter does.\<close>

function split_tokens :: "string \<Rightarrow> string list" where
  "split_tokens [] = []"
| "split_tokens (c # s) =
     takeWhile (\<lambda>x. x \<noteq> CHR '','') (c # s) # split_tokens (drop 1 (dropWhile (\<lambda>x. x \<noteq> CHR '','') (c # s)))"
  by pat_completeness auto
termination split_tokens
  by (relation "measure length") (auto simp: less_Suc_eq_le intro: order_trans [OF diff_le_self length_dropWhile_le])

text \<open>
  The format of a new logger. Key and value of a token with an equals sign are views of temporary strings
  that are gone when the key is compared, so that such a token makes the call undefined.
\<close>

definition parse_format :: "string \<Rightarrow> LogFormat option" where
  "parse_format f =
     (if list_all (\<lambda>token. CHR ''='' \<notin> set token) (split_tokens (takeWhile (\<lambda>c. c \<noteq> CHR 0x00) f))
      then Some \<lparr>level_part = [], time_part = [], file_part = [], line_part = [], message_part = []\<rparr> else None)"

definition createStdoutLogger :: "string \<Rightarrow> LogLevel \<Rightarrow> logger option" where
  "createStdoutLogger f level =
     map_option (\<lambda>lf. \<lparr>log_format = lf, min_level = level, target = Stdout\<rparr>) (parse_format f)"

definition createFileLogger :: "(string \<Rightarrow> bool) \<Rightarrow> string \<Rightarrow> LogLevel \<Rightarrow> string \<Rightarrow> logger option" where
  "createFileLogger opens f level path =
     map_option (\<lambda>lf. \<lparr>log_format = lf, min_level = level, target = File path (opens path)\<rparr>) (parse_format f)"

subsection \<open>The global logger\<close>

datatype Choice = STDOUT | FILE | NONE

record GlobalLogger =
  g_logger :: "logger option"
  g_file_logger :: "logger option"
  g_choice :: Choice
  g_file_path :: string
  g_min_level :: LogLevel

text \<open>The constructor, with the initial values of the members.\<close>

definition new_GlobalLogger :: "(string \<Rightarrow> bool) \<Rightarrow> GlobalLogger" where
  "new_GlobalLogger opens =
     (let g = \<lparr>g_logger = None, g_file_logger = None, g_choice = STDOUT, g_file_path = ''./log.txt'', g_min_level = DEBUG\<rparr>;
          g1 = (if g_choice g = STDOUT \<and> g_logger g = None
                then g\<lparr>g_logger := createStdoutLogger kLogFormat (g_min_level g)\<rparr> else g)
      in if g_choice g1 = FILE \<and> g_file_logger g1 = None
         then g1\<lparr>g_file_logger := createFileLogger opens kLogFormat (g_min_level g1) (g_file_path g1)\<rparr> else g1)"

definition flush :: "(string \<Rightarrow> bool) \<Rightarrow> GlobalLogger \<Rightarrow> GlobalLogger" where
  "flush opens g =
     (if g_choice g = STDOUT then g\<lparr>g_logger := createStdoutLogger kLogFormat (g_min_level g)\<rparr>
      else if g_choice g = FILE
      then g\<lparr>g_file_logger := createFileLogger opens kLogFormat (g_min_level g) (g_file_path g)\<rparr>
      else g)"

definition instance_of :: "(string \<Rightarrow> bool) \<Rightarrow> GlobalLogger option \<Rightarrow> GlobalLogger" where
  "instance_of opens g_instance = (case g_instance of None \<Rightarrow> new_GlobalLogger opens | Some g \<Rightarrow> g)"

definition setLogLevel :: "(string \<Rightarrow> bool) \<Rightarrow> LogLevel \<Rightarrow> GlobalLogger \<Rightarrow> GlobalLogger" where
  "setLogLevel opens level g = (if g_min_level g = level then g else flush opens (g\<lparr>g_min_level := level\<rparr>))"

definition setLogFile :: "(string \<Rightarrow> bool) \<Rightarrow> string \<Rightarrow> GlobalLogger \<Rightarrow> GlobalLogger" where
  "setLogFile opens path g = (if g_file_path g = path then g else flush opens (g\<lparr>g_file_path := path\<rparr>))"

definition setLogChoice :: "(string \<Rightarrow> bool) \<Rightarrow> Choice \<Rightarrow> GlobalLogger \<Rightarrow> GlobalLogger" where
  "setLogChoice opens choice g = (if g_choice g = choice then g else flush opens (g\<lparr>g_choice := choice\<rparr>))"

definition setFilePath :: "(string \<Rightarrow> bool) \<Rightarrow> string \<Rightarrow> GlobalLogger \<Rightarrow> GlobalLogger" where
  "setFilePath opens path g = (if g_file_path g = path then g else flush opens (g\<lparr>g_file_path := path\<rparr>))"









definition ENABLE_LOG_FILE :: "(string \<Rightarrow> bool) \<Rightarrow> string \<Rightarrow> GlobalLogger \<Rightarrow> GlobalLogger" where
  "ENABLE_LOG_FILE opens path g = setLogChoice opens FILE (setLogFile opens path g)"

subsection \<open>Configuration\<close>

datatype config = Level LogLevel | LogFile string | ChoiceOf Choice | FilePath string | EnableFile string

fun config_step :: "(string \<Rightarrow> bool) \<Rightarrow> config \<Rightarrow> GlobalLogger \<Rightarrow> GlobalLogger option" where
  "config_step opens (Level l) g = Some (setLogLevel opens l g)"
| "config_step opens (LogFile p) g = Some (setLogFile opens p g)"
| "config_step opens (ChoiceOf c) g = Some (setLogChoice opens c g)"
| "config_step opens (FilePath p) g = Some (setFilePath opens p g)"
| "config_step opens (EnableFile p) g = Some (ENABLE_LOG_FILE opens p g)"

text \<open>The logger that is in use exists and has the current settings.\<close>

definition log_inv :: "(string \<Rightarrow> bool) \<Rightarrow> GlobalLogger \<Rightarrow> bool" where
  "log_inv opens g \<longleftrightarrow>
     (case g_choice g of
        STDOUT \<Rightarrow> (\<exists>l. g_logger g = Some l \<and> min_level l = g_min_level g \<and> target l = Stdout)
      | FILE \<Rightarrow> (\<exists>l. g_file_logger g = Some l \<and> min_level l = g_min_level g \<and> target l = File (g_file_path g) (opens (g_file_path g)))
      | NONE \<Rightarrow> True)"

lemma parse_kLogFormat: "parse_format kLogFormat \<noteq> None"
  by code_simp

lemma flush_inv: "log_inv opens (flush opens g)"
  using parse_kLogFormat
  by (cases "g_choice g") (auto simp: log_inv_def flush_def createStdoutLogger_def createFileLogger_def)

lemma new_GlobalLogger_inv: "log_inv opens (new_GlobalLogger opens)"
  using parse_kLogFormat by (auto simp: log_inv_def new_GlobalLogger_def createStdoutLogger_def)

lemma config_inv: "log_inv opens g \<Longrightarrow> config_step opens c g = Some g' \<Longrightarrow> log_inv opens g'"
  by (cases c) (auto simp: setLogLevel_def setLogFile_def setLogChoice_def setFilePath_def ENABLE_LOG_FILE_def flush_inv)

interpretation gl: system_invariant "config_step opens" "new_GlobalLogger opens" "log_inv opens"
  by unfold_locales (rule new_GlobalLogger_inv, rule config_inv)




text \<open>Some settings and a call, for the concrete cases below.\<close>

lemma warn_level:
  "\<exists>g. reach (config_step (\<lambda>_. True)) (new_GlobalLogger (\<lambda>_. True)) g \<and> g_choice g = FILE \<and> g_file_path g = ''x.log'' \<and> g_min_level g = WARN"
proof -
  let ?ls = "[Level WARN, EnableFile ''x.log'']"
  obtain g where g: "run_labels (config_step (\<lambda>_. True)) ?ls (new_GlobalLogger (\<lambda>_. True)) = Some g" by simp
  then have "g_choice g = FILE \<and> g_file_path g = ''x.log'' \<and> g_min_level g = WARN"
    by (auto simp: new_GlobalLogger_def setLogLevel_def ENABLE_LOG_FILE_def setLogFile_def setLogChoice_def flush_def)
  with reach_run [OF g] show ?thesis by blast
qed

subsection \<open>Properties\<close>

text \<open>
  C37: whatever settings a program makes on the global logger, in any order, the logger that is chosen
  exists, has the current minimum level and writes to the standard output or to the current file.
\<close>

theorem global_logger_consistent:
  assumes "reach (config_step opens) (new_GlobalLogger opens) g"
  shows "case g_choice g of
      STDOUT \<Rightarrow> \<exists>l. g_logger g = Some l \<and> min_level l = g_min_level g \<and> target l = Stdout
    | FILE \<Rightarrow> \<exists>l. g_file_logger g = Some l \<and> min_level l = g_min_level g \<and> target l = File (g_file_path g) (opens (g_file_path g))
    | NONE \<Rightarrow> True"
  using gl.always [OF assms] by (simp add: log_inv_def)

theorem global_logger_consistent_witness:
  "\<exists>g l. reach (config_step (\<lambda>_. True)) (new_GlobalLogger (\<lambda>_. True)) g \<and> g_file_logger g = Some l \<and> min_level l = WARN
     \<and> target l = File ''x.log'' True"
proof -
  obtain g where g: "reach (config_step (\<lambda>_. True)) (new_GlobalLogger (\<lambda>_. True)) g" "g_choice g = FILE" "g_file_path g = ''x.log''"
      "g_min_level g = WARN" using warn_level by blast
  from global_logger_consistent [OF g(1)] g show ?thesis by auto
qed



end
