(* ===== verification/Tool.thy ===== *)
theory Tool
  imports Prelude
begin

text \<open>
  The file tool of \<open>include/tools/Tool.hpp\<close>. The file system is a map from paths to contents; which paths can
  be opened for reading and for writing is an argument. Both functions ignore a stream that could
  not be opened.
\<close>

type_synonym file_system = "string \<Rightarrow> string option"

definition read_from_file :: "(string \<Rightarrow> bool) \<Rightarrow> file_system \<Rightarrow> string \<Rightarrow> string" where
  "read_from_file readable fs file_path =
     (case fs file_path of None \<Rightarrow> [] | Some content \<Rightarrow> if readable file_path then content else [])"

definition write_to_file :: "(string \<Rightarrow> bool) \<Rightarrow> string \<Rightarrow> string \<Rightarrow> file_system \<Rightarrow> file_system" where
  "write_to_file writable file_path content fs = (if writable file_path then fs(file_path \<mapsto> content) else fs)"

text \<open>Reading gives back what was written last, and other files are as before.\<close>

lemma file_roundtrip:
  assumes "readable p" "writable p"
  shows "read_from_file readable (write_to_file writable q d (write_to_file writable p c fs)) p
    = (if q = p then d else c)"
  using assms by (simp add: read_from_file_def write_to_file_def)

lemma file_unwritable: "\<not> writable p \<Longrightarrow> read_from_file readable (write_to_file writable p c fs) q = read_from_file readable fs q"
  by (simp add: write_to_file_def)

end
