(* ===== verification/Spec2Isabelle.thy ===== *)
theory Spec2Isabelle
  imports Buffer Main_Program JsonAssign Http StrandPool TaskScheduler Allocator Generator AwaitableVoid Socket Log Tool
begin

text \<open>
  Verification of HighSpeed, a C++ library for network servers: byte buffers, JSON and HTTP, a memory pool,
  thread pools and strands, coroutines, an event loop with sockets, formatting and logging. The paths
  below are relative to \<open>src/include\<close>.

  \<^bold>\<open>The parts and how they interact.\<close> \<open>main.cpp\<close> builds, prints and parses a document with
  \<open>protocol/Json.hpp\<close>. \<open>net/Socket.hpp\<close> reads and writes through \<open>io/Buffer.hpp\<close> in coroutines of
  \<open>coro/Awaitable.hpp\<close>; when a descriptor is not ready the coroutine waits in \<open>net/IOContext.hpp\<close>, whose loop
  over \<open>net/Epoll.hpp\<close> gives the handle to \<open>tools/ThreadPool.hpp\<close>. \<open>net/Strand.hpp\<close> serialises tasks on the
  same pool. \<open>coro/Task.hpp\<close> runs on \<open>coro/Scheduler.hpp\<close>. \<open>alloc/alloc.hpp\<close> allocates from
  \<open>alloc/MemoryPool.hpp\<close>. \<open>log/Log.hpp\<close> prints with \<open>log/format.hpp\<close>.

  \<^bold>\<open>Conventions.\<close> A thrown exception is \<open>Inl\<close> of the type \<open>'a result\<close>. Undefined behaviour is \<open>None\<close>, or
  the control state \<open>Undefined\<close> of the coroutine machine, or a flag of misuse where the program would go
  on. System calls, the clock, the results of callables and the bodies of coroutines are arguments.
  Sizes are natural numbers where no operation can wrap, and \<open>size_t\<close> arithmetic or 64-bit words
  where one can; event masks are 32-bit words. Code that several threads run is a step function
  \<open>label \<Rightarrow> state \<Rightarrow> state option\<close>: every sequence of enabled labels is an interleaving, and each access to
  shared data outside a critical section is a step of its own.

  \<^bold>\<open>Theories.\<close>

  \<^item> \<open>Prelude\<close>: exceptions, \<open>size_t\<close>, strings and streams. \<open>Transition\<close>: reachability, with the interfaces
    \<open>system_invariant\<close> and \<open>system_refinement\<close> that each concurrent component interprets.

  \<^item> \<open>Buffer\<close> (\<open>io/Buffer.hpp\<close>): the record \<open>buffer\<close> has the vector and the two indices, and every member function
    is a definition. No sequence of operations leaves the vector, and the contents are a byte queue.

  \<^item> \<open>Double\<close>: the conversions of \<open>double\<close> that the library uses, exact to the bit. \<open>Json\<close>, \<open>JsonValue\<close>,
    \<open>JsonParser\<close> (\<open>protocol/Json.hpp\<close>): the value classes and printers, the proxy with its operators, the parser.
    \<open>JsonAssign\<close>: the overloads of \<open>operator=\<close>, and which integers an assignment keeps exactly. Assignment through subscripts refines an update of a tree. \<open>JsonGrammar\<close> is the grammar as an
    inductive relation, and the parser accepts all of it. \<open>JsonRoundtrip\<close>: both printers write texts that
    parse to the value. \<open>Main_Program\<close> (\<open>main.cpp\<close>): the output of the program.

  \<^item> \<open>Http\<close> (\<open>protocol/Http.hpp\<close>): the setters build a message, printing it and parsing gives it back, and
    parsing returns for every text.

  \<^item> \<open>ThreadPool\<close> (\<open>tools/ThreadPool.hpp\<close>): workers, callers and the stopping thread with mutex and condition
    variable. Order and counting of tasks, no missed submission, what \<open>stop\<close> discards, and a deadlock of \<open>stop\<close>.
    \<open>Future\<close>: the packaged tasks of \<open>addTask\<close> and their futures over these steps, the counters, and the destructor.

  \<^item> \<open>Strand\<close> (\<open>net/Strand.hpp\<close>): mutual exclusion, order and progress on any executor. \<open>StrandPool\<close>: the
    strand on the thread pool beside other clients; the composition refines both systems, and the futures
    of the strand have the results of its tasks.

  \<^item> \<open>Scheduler\<close> (\<open>coro/Scheduler.hpp\<close>): the order of coroutines, the assertion in the worker, \<open>stop\<close> and a new
    \<open>run\<close> after it, when \<open>stop\<close> leaves no coroutine behind, and two runs that go wrong: a coroutine that is
    missed and the failure of the assertion at the end of \<open>stop\<close>. \<open>TaskScheduler\<close>: tasks whose handles go through
    the scheduler, and the results that they deliver.

  \<^item> \<open>MemoryPool\<close> (\<open>alloc/MemoryPool.hpp\<close>): size classes for every 64-bit size, no block in two places in
    any interleaving, and the destructors. \<open>Allocator\<close> (\<open>alloc/alloc.hpp\<close>): objects and arrays, with
    constructors that throw.

  \<^item> \<open>Generator\<close> (\<open>coro/Generator.hpp\<close>), \<open>Task\<close> (\<open>coro/Task.hpp\<close>): frames in a store, with bodies as a codatatype
    and a datatype; what a loop over a generator gets, who owns a frame, what a task delivers. \<open>Task<void>\<close> is
    written out on its own and refines the task with a result.

  \<^item> \<open>Awaitable\<close> (\<open>coro/Awaitable.hpp\<close>): the awaiter protocol as a machine, and \<open>AwaitableVoid\<close> the
    specialisation \<open>Awaitable<void>\<close>. \<open>IOContext\<close> (\<open>net/IOContext.hpp\<close>,
    \<open>net/Epoll.hpp\<close>): the waiters and the loop; coroutines that wait and are resumed by the loop run as if
    called directly. \<open>Socket\<close> (\<open>net/Socket.hpp\<close>): \<open>async_read\<close> delivers the bytes after any number of waits,
    \<open>async_write\<close> and \<open>async_accept\<close> likewise, descriptors are closed once, and an
    acceptor listens on a non-blocking descriptor that its destructor gives back.

  \<^item> \<open>Format\<close> (\<open>log/format.hpp\<close>): formatting agrees with a rendering of the pieces of the format string, and
    always returns. \<open>Log\<close> (\<open>log/Log.hpp\<close>): which line is written where. \<open>Tool\<close> (\<open>tools/Tool.hpp\<close>): files.

  \<^bold>\<open>Interfaces.\<close> \<open>system_invariant\<close> and \<open>system_refinement\<close> as above; \<open>byte_queue\<close>, what a client of the buffer
    sees, interpreted by the buffer; \<open>other_awaiter\<close>, what a coroutine relies on
    when it awaits an object of another class, interpreted by the descriptor awaiter and the awaiter of
    sockets; \<open>coroutine_machine\<close>, the laws from which runs are shown to end as calls do, for the primary
    template and for \<open>Awaitable<void>\<close>; \<open>epoll_kernel\<close>, what is documented of \<open>epoll_ctl\<close>, interpreted by a kernel that keeps an interest
    list; and the condition on numbers of \<open>JsonRoundtrip\<close>, interpreted by the integers of six digits.

  \<^bold>\<open>Bounds and fuel.\<close> The loops and the parser are total functions with a termination proof, except for
  the loop of \<open>vformat\<close>, which is a partial function that is shown to return, and the coroutine machine,
  which is a step function whose runs are shown to reach their end. A
  generator may yield forever, so a loop over it is cut after a number of rounds that is an argument; the
  theorems hold for every number and say whether the loop has ended. The event loop and the
  coroutines of sockets run over the list of the answers that the system gives. The number
  of threads is arbitrary in \<open>Scheduler\<close> and 2 in \<open>ThreadPool\<close>, as in the code. The counters of tasks and threads,
  which are \<open>int\<close> in the code, do not wrap in the model; they would after \<open>2 ^ 31\<close> tasks in the queue.

  \<^bold>\<open>Not modelled.\<close> \<open>log/Log.bak.hpp\<close> is a backup that nothing includes, and \<open>container/algorithm.hpp\<close> is empty;
  build files and documents are not code. Beyond that:

  \<^item> Data races inside one operation of \<open>IOContext\<close> are not visible, since each operation is one step, and
    \<open>Awaitable\<close> runs one worker at a time. The races are undefined behaviour in C++ and have no model.

  \<^item> \<open>Generator::value\<close> does not compile for ordinary types. \<open>SO_REUSEADDR\<close> and the
    log lines written by sockets and the event loop do not affect the results.

  \<^item> Memory from \<open>malloc\<close> for large sizes is taken to be available, and \<open>std::bad_alloc\<close> is not raised. Proxies
    of \<open>JsonValue\<close> that are kept across a reallocation of their vector are outside the model.
\<close>

end
